(* ===== verification/Prelude.thy ===== *)
theory Prelude
  imports
    Main
    "HOL-Library.Word"
    "HOL-Library.Finite_Map"
    "HOL-Library.List_Lexorder" "HOL-Library.Char_ord"
    "HOL-Library.Product_Lexorder"
begin

text \<open>
  What every component of the development shares.

  \<^item> The machine types of the Rust sources: a byte is an \<open>8 word\<close>, a byte string
    (\<^verbatim>\<open>Vec<u8>\<close>, \<^verbatim>\<open>&[u8]\<close>) is a list of them, and the order of
    \<^verbatim>\<open>HOL-Library.List_Lexorder\<close> is the order Rust gives byte slices. An
    \<^verbatim>\<open>i64\<close> is an \<open>int\<close>, with \<open>i64_ok\<close> saying that it is in range
    where a property depends on it; its big-endian encoding is written out.
  \<^item> Ordered maps (\<^verbatim>\<open>BTreeMap\<close>) and hash maps (\<^verbatim>\<open>HashMap\<close>) are
    \<open>fmap\<close>s, walked in key order with \<open>sorted_list_of_fmap\<close>; the lemmas below evaluate
    that walk and relate it to lookups.
  \<^item> Results: \<open>'e + 'a\<close> with \<open>Inl\<close> the error, and the bind on them.
\<close>

named_theorems result_simps \<open>unfolding of the result monad\<close>

type_synonym byte = "8 word"
type_synonym bytes = "byte list"

section \<open>Results\<close>

definition bind_res :: "'e + 'a \<Rightarrow> ('a \<Rightarrow> 'e + 'b) \<Rightarrow> 'e + 'b" where
  "bind_res r f = (case r of Inl e \<Rightarrow> Inl e | Inr x \<Rightarrow> f x)"

lemma bind_res_Inl [simp, result_simps]: "bind_res (Inl e) f = Inl e"
  by (simp add: bind_res_def)

lemma bind_res_Inr [simp, result_simps]: "bind_res (Inr x) f = f x"
  by (simp add: bind_res_def)

lemma bind_res_cong [fundef_cong]:
  "r = r' \<Longrightarrow> (\<And>x. r' = Inr x \<Longrightarrow> f x = g x) \<Longrightarrow> bind_res r f = bind_res r' g"
  by (cases r') auto

lemma bind_res_eq_Inr: "bind_res r f = Inr y \<longleftrightarrow> (\<exists>x. r = Inr x \<and> f x = Inr y)"
  by (cases r) auto

lemma bind_res_eq_Inl: "bind_res r f = Inl e \<longleftrightarrow> r = Inl e \<or> (\<exists>x. r = Inr x \<and> f x = Inl e)"
  by (cases r) auto

section \<open>Decimal printing\<close>

text \<open>What \<^verbatim>\<open>format!("{n}")\<close> prints for a signed integer.\<close>

fun show_nat :: "nat \<Rightarrow> string" where
  "show_nat n =
     (if n < 10 then [char_of (48 + n)] else show_nat (n div 10) @ [char_of (48 + n mod 10)])"

declare show_nat.simps [simp del]

definition show_int :: "int \<Rightarrow> string" where
  "show_int i = (if i < 0 then ''-'' @ show_nat (nat (- i)) else show_nat (nat i))"

section \<open>Machine integers and their big-endian bytes\<close>

definition i64_max :: int where
  "i64_max = 9223372036854775807"

definition i64_min :: int where
  "i64_min = - 9223372036854775808"

definition i64_ok :: "int \<Rightarrow> bool" where
  "i64_ok x \<longleftrightarrow> i64_min \<le> x \<and> x \<le> i64_max"

lemmas i64_defs = i64_ok_def i64_min_def i64_max_def

text \<open>\<open>be_bytes n x\<close>: the \<open>n\<close> bytes of \<open>x\<close> modulo \<open>256 ^ n\<close>, most significant first.\<close>

fun be_bytes :: "nat \<Rightarrow> nat \<Rightarrow> bytes" where
  "be_bytes 0 x = []"
| "be_bytes (Suc n) x = be_bytes n (x div 256) @ [word_of_nat (x mod 256)]"

definition of_be_bytes :: "bytes \<Rightarrow> nat" where
  "of_be_bytes bs = foldl (\<lambda>a b. a * 256 + unat b) 0 bs"

text \<open>\<^verbatim>\<open>i64::to_be_bytes\<close> and \<^verbatim>\<open>i64::from_be_bytes\<close>: two's complement.\<close>

definition i64_to_be_bytes :: "int \<Rightarrow> bytes" where
  "i64_to_be_bytes x = be_bytes 8 (nat (x mod 2 ^ 64))"

definition i64_from_be_bytes :: "bytes \<Rightarrow> int" where
  "i64_from_be_bytes bs =
     (let u = int (of_be_bytes bs) in if u < 2 ^ 63 then u else u - 2 ^ 64)"

lemma length_be_bytes [simp]: "length (be_bytes n x) = n"
  by (induction n arbitrary: x) auto

lemma of_be_bytes_Nil [simp]: "of_be_bytes [] = 0"
  by (simp add: of_be_bytes_def)

lemma of_be_bytes_snoc [simp]: "of_be_bytes (bs @ [b]) = of_be_bytes bs * 256 + unat b"
  by (simp add: of_be_bytes_def)

lemma unat_byte_of_nat: "unat (word_of_nat (x mod 256) :: byte) = x mod 256"
  by (simp add: unat_of_nat)

lemma unat_byte_less: "unat (b :: byte) < 256"
  using unsigned_less [of b] by simp

lemma of_be_bytes_be_bytes: "of_be_bytes (be_bytes n x) = x mod 256 ^ n"
proof (induction n arbitrary: x)
  case 0
  then show ?case by simp
next
  case (Suc n)
  have "of_be_bytes (be_bytes (Suc n) x) = (x div 256) mod 256 ^ n * 256 + x mod 256"
    using Suc unat_byte_of_nat [of x] by simp
  also have "\<dots> = x mod 256 ^ Suc n"
    by (simp add: mod_mult2_eq [of x 256 "256 ^ n"])
  finally show ?case .
qed

lemma of_be_bytes_less: "of_be_bytes bs < 256 ^ length bs"
proof (induction bs rule: rev_induct)
  case Nil
  then show ?case by simp
next
  case (snoc b bs)
  have "unat b < 256" by (rule unat_byte_less)
  with snoc have "of_be_bytes bs * 256 + unat b < (of_be_bytes bs + 1) * 256" by simp
  also have "\<dots> \<le> 256 ^ length bs * 256" using snoc by (intro mult_le_mono) auto
  finally show ?case by simp
qed

lemma be_bytes_of_be_bytes: "be_bytes (length bs) (of_be_bytes bs) = bs"
proof (induction bs rule: rev_induct)
  case Nil
  then show ?case by simp
next
  case (snoc b bs)
  have lt: "unat b < 256" by (rule unat_byte_less)
  then have "(of_be_bytes bs * 256 + unat b) div 256 = of_be_bytes bs"
    and "(of_be_bytes bs * 256 + unat b) mod 256 = unat b" by auto
  with snoc show ?case by simp
qed

lemma be_bytes_inject:
  "x < 256 ^ n \<Longrightarrow> y < 256 ^ n \<Longrightarrow> be_bytes n x = be_bytes n y \<longleftrightarrow> x = y"
  by (metis mod_less of_be_bytes_be_bytes)

lemma list_less_snoc:
  fixes xs ys :: "'a::linorder list"
  assumes "length xs = length ys"
  shows "xs @ [x] < ys @ [y] \<longleftrightarrow> xs < ys \<or> xs = ys \<and> x < y"
  using assms
proof (induction xs ys rule: list_induct2)
  case Nil
  then show ?case by simp
next
  case (Cons a xs b ys)
  then show ?case by auto
qed

lemma div_mod_less:
  "x div 256 < y div 256 \<or> x div 256 = y div 256 \<and> x mod 256 < y mod 256 \<longleftrightarrow> x < (y::nat)"
proof -
  define a b c d where "a = x div 256" and "b = x mod 256" and "c = y div 256" and "d = y mod 256"
  have "x = 256 * a + b" "y = 256 * c + d" "b < 256" "d < 256"
    by (simp_all add: a_def b_def c_def d_def)
  then have "a < c \<or> a = c \<and> b < d \<longleftrightarrow> x < y" by arith
  then show ?thesis by (simp only: a_def b_def c_def d_def)
qed

text \<open>Unsigned big-endian bytes compare as the numbers they encode.\<close>

lemma be_bytes_less:
  "x < 256 ^ n \<Longrightarrow> y < 256 ^ n \<Longrightarrow> be_bytes n x < be_bytes n y \<longleftrightarrow> x < y"
proof (induction n arbitrary: x y)
  case 0
  then show ?case by simp
next
  case (Suc n)
  have d: "x div 256 < 256 ^ n" "y div 256 < 256 ^ n"
    using Suc.prems by (auto simp: less_mult_imp_div_less)
  have b: "(word_of_nat (x mod 256) :: byte) < word_of_nat (y mod 256) \<longleftrightarrow> x mod 256 < y mod 256"
    by (simp only: word_less_nat_alt unat_byte_of_nat)
  have "be_bytes (Suc n) x < be_bytes (Suc n) y \<longleftrightarrow>
      x div 256 < y div 256 \<or> x div 256 = y div 256 \<and> x mod 256 < y mod 256"
    using Suc.IH [OF d] be_bytes_inject [OF d] b by (simp add: list_less_snoc)
  also have "\<dots> \<longleftrightarrow> x < y"
    by (rule div_mod_less)
  finally show ?case .
qed

lemma list_less_append_same_length:
  fixes xs ys :: "'a::linorder list"
  assumes "length xs = length ys"
  shows "xs @ us < ys @ vs \<longleftrightarrow> xs < ys \<or> xs = ys \<and> us < vs"
  using assms
  by (induction xs ys rule: list_induct2) auto

lemma length_i64_to_be_bytes [simp]: "length (i64_to_be_bytes x) = 8"
  by (simp add: i64_to_be_bytes_def)

lemma i64_roundtrip: "i64_ok x \<Longrightarrow> i64_from_be_bytes (i64_to_be_bytes x) = x"
proof -
  assume ok: "i64_ok x"
  have "of_be_bytes (i64_to_be_bytes x) = nat (x mod 2 ^ 64)"
  proof -
    have "nat (x mod 2 ^ 64) < 256 ^ 8" by (simp add: nat_less_iff)
    then show ?thesis by (simp add: i64_to_be_bytes_def of_be_bytes_be_bytes)
  qed
  moreover have "int (nat (x mod 2 ^ 64)) = (if 0 \<le> x then x else x + 2 ^ 64)"
  proof (cases "0 \<le> x")
    case True
    with ok show ?thesis by (simp add: i64_defs)
  next
    case False
    have "x mod 2 ^ 64 = (x + 2 ^ 64) mod 2 ^ 64" by simp
    also have "\<dots> = x + 2 ^ 64" using False ok by (intro mod_pos_pos_trivial) (auto simp: i64_defs)
    finally show ?thesis using False ok by (simp add: i64_defs)
  qed
  ultimately show ?thesis
    using ok by (auto simp: i64_from_be_bytes_def Let_def i64_defs)
qed


section \<open>Ordered maps\<close>

text \<open>
  A \<^verbatim>\<open>BTreeMap\<close> walked in key order is \<open>sorted_list_of_fmap\<close>. The two
  functions below are that walk after an insert and after a removal; as simp rules they
  evaluate a walk over a closed map.
\<close>

fun al_insert :: "'k::linorder \<Rightarrow> 'v \<Rightarrow> ('k \<times> 'v) list \<Rightarrow> ('k \<times> 'v) list" where
  "al_insert k v [] = [(k, v)]"
| "al_insert k v (p # ps) =
     (if fst p < k then p # al_insert k v ps
      else if fst p = k then (k, v) # ps
      else (k, v) # p # ps)"

definition al_remove :: "'k \<Rightarrow> ('k \<times> 'v) list \<Rightarrow> ('k \<times> 'v) list" where
  "al_remove k ps = filter (\<lambda>p. fst p \<noteq> k) ps"

lemma al_remove_simps [simp]:
  "al_remove k [] = []"
  "al_remove k (p # ps) = (if fst p = k then al_remove k ps else p # al_remove k ps)"
  by (auto simp: al_remove_def)

definition sorted_keys :: "('k::linorder \<times> 'v) list \<Rightarrow> bool" where
  "sorted_keys ps \<longleftrightarrow> sorted_wrt (<) (map fst ps)"

lemma sorted_keys_Nil [simp]: "sorted_keys []"
  by (simp add: sorted_keys_def)

lemma sorted_keys_Cons: "sorted_keys (p # ps) \<longleftrightarrow> (\<forall>q\<in>set ps. fst p < fst q) \<and> sorted_keys ps"
  by (auto simp: sorted_keys_def)

lemma sorted_keys_filter [simp]: "sorted_keys ps \<Longrightarrow> sorted_keys (filter P ps)"
  by (induction ps) (auto simp: sorted_keys_Cons)

lemma sorted_keys_distinct: "sorted_keys ps \<Longrightarrow> distinct (map fst ps)"
  by (simp add: sorted_keys_def strict_sorted_iff)

lemma sorted_keys_sorted: "sorted_keys ps \<Longrightarrow> sorted (map fst ps)"
  by (simp add: sorted_keys_def strict_sorted_iff)

lemma set_al_insert: "fst ` set (al_insert k v ps) = insert k (fst ` set ps)"
  by (induction ps) auto

lemma sorted_keys_al_insert: "sorted_keys ps \<Longrightarrow> sorted_keys (al_insert k v ps)"
proof (induction ps)
  case Nil
  then show ?case by (simp add: sorted_keys_def)
next
  case (Cons p ps)
  have "\<forall>q\<in>set (al_insert k v ps). fst q = k \<or> (\<exists>r\<in>set ps. fst r = fst q)"
    using set_al_insert [of k v ps] by (metis image_iff insert_iff)
  with Cons show ?case by (fastforce simp: sorted_keys_Cons)
qed

lemma sorted_keys_al_remove: "sorted_keys ps \<Longrightarrow> sorted_keys (al_remove k ps)"
  by (simp add: al_remove_def)

lemma map_of_al_insert: "map_of (al_insert k v ps) = (map_of ps)(k \<mapsto> v)"
  by (induction ps) auto

lemma map_of_al_remove: "map_of (al_remove k ps) = (map_of ps)(k := None)"
  by (induction ps) auto

lemma sorted_keys_map_of: "sorted_keys ps \<Longrightarrow> map_of ps k = Some v \<longleftrightarrow> (k, v) \<in> set ps"
  by (simp add: sorted_keys_distinct map_of_eq_Some_iff)

lemma sorted_keys_last:
  "sorted_keys ps \<Longrightarrow>
   ps \<noteq> [] \<and> last ps = (k, v) \<longleftrightarrow> (k, v) \<in> set ps \<and> (\<forall>p\<in>set ps. fst p \<le> k)"
proof (induction ps rule: rev_induct)
  case (snoc p ps)
  then have "\<forall>q\<in>set ps. fst q < fst p" by (auto simp: sorted_keys_def sorted_wrt_append)
  then show ?case by (cases p) (auto dest: order.strict_implies_order leD)
qed simp

text \<open>A map has one ordered walk.\<close>

lemma sorted_keys_unique:
  assumes "sorted_keys xs" "sorted_keys ys" "map_of xs = map_of ys"
  shows "xs = ys"
proof -
  have "dom (map_of xs) = dom (map_of ys)" using assms(3) by simp
  then have "set (map fst xs) = set (map fst ys)" by (simp add: dom_map_of_conv_image_fst)
  with assms(1,2) have keys: "map fst xs = map fst ys"
    by (metis strict_sorted_equal sorted_keys_def)
  have el: "zs = map (\<lambda>k. (k, the (map_of zs k))) (map fst zs)"
    if "sorted_keys zs" for zs :: "('a \<times> 'b) list"
  proof (rule nth_equalityI)
    fix i
    assume i: "i < length zs"
    then have "map_of zs (fst (zs ! i)) = Some (snd (zs ! i))"
      using sorted_keys_distinct [OF that] by (simp add: map_of_eq_Some_iff)
    with i show "zs ! i = map (\<lambda>k. (k, the (map_of zs k))) (map fst zs) ! i" by simp
  qed simp
  show ?thesis using el [OF assms(1)] el [OF assms(2)] keys assms(3) by simp
qed

lemma sorted_keys_sorted_list_of_fmap [simp]: "sorted_keys (sorted_list_of_fmap m)"
  by (simp add: sorted_keys_def sorted_list_of_fmap_def comp_def sorted_list_of_fset.rep_eq)

lemma sorted_list_of_fmap_empty [simp]: "sorted_list_of_fmap fmempty = []"
  by (simp add: sorted_list_of_fmap_def sorted_list_of_fset.rep_eq)

lemma sorted_list_of_fmap_upd [simp]:
  "sorted_list_of_fmap (fmupd k v m) = al_insert k v (sorted_list_of_fmap m)"
  by (rule sorted_keys_unique) (auto simp: sorted_keys_al_insert map_of_al_insert)

lemma sorted_list_of_fmap_drop [simp]:
  "sorted_list_of_fmap (fmdrop k m) = al_remove k (sorted_list_of_fmap m)"
  by (rule sorted_keys_unique) (auto simp: sorted_keys_al_remove map_of_al_remove fun_eq_iff)

lemma in_sorted_list_of_fmap [simp]:
  "(k, v) \<in> set (sorted_list_of_fmap m) \<longleftrightarrow> fmlookup m k = Some v"
  by (metis map_of_eq_Some_iff map_of_sorted_list sorted_keys_distinct sorted_keys_sorted_list_of_fmap)

lemma ball_sorted_list_of_fmap:
  "(\<forall>p\<in>set (sorted_list_of_fmap m). P p) \<longleftrightarrow> (\<forall>k v. fmlookup m k = Some v \<longrightarrow> P (k, v))"
  by (metis in_sorted_list_of_fmap surj_pair)

lemma sorted_list_of_fmap_eq_iff [simp]:
  "sorted_list_of_fmap m = sorted_list_of_fmap m' \<longleftrightarrow> m = m'"
  by (metis fmap_ext map_of_sorted_list)


section \<open>Sums over maps\<close>

definition fmsum :: "('k \<Rightarrow> 'v \<Rightarrow> nat) \<Rightarrow> ('k, 'v) fmap \<Rightarrow> nat" where
  "fmsum f m = (\<Sum>k\<in>fset (fmdom m). f k (the (fmlookup m k)))"

lemma fmsum_empty [simp]: "fmsum f fmempty = 0"
  by (simp add: fmsum_def)

lemma fmdrop_absent: "fmlookup m k = None \<Longrightarrow> fmdrop k m = m"
  by (rule fmap_ext) auto

lemma fmupd_fmdrop [simp]: "fmupd k v (fmdrop k m) = fmupd k v m"
  by (rule fmap_ext) auto

lemma fmsum_drop: "fmlookup m k = Some v \<Longrightarrow> fmsum f m = f k v + fmsum f (fmdrop k m)"
proof -
  assume k: "fmlookup m k = Some v"
  then have "k \<in> fset (fmdom m)" by (simp add: fmlookup_dom_iff)
  then have "fmsum f m = f k (the (fmlookup m k)) + (\<Sum>j\<in>fset (fmdom m) - {k}. f j (the (fmlookup m j)))"
    unfolding fmsum_def by (simp add: sum.remove)
  also have "(\<Sum>j\<in>fset (fmdom m) - {k}. f j (the (fmlookup m j))) = fmsum f (fmdrop k m)"
    unfolding fmsum_def by (rule sum.cong) auto
  finally show ?thesis using k by simp
qed

lemma fmsum_upd: "fmsum f (fmupd k v m) = f k v + fmsum f (fmdrop k m)"
proof -
  have "fmdrop k (fmupd k v m) = fmdrop k m" by (rule fmap_ext) simp
  then show ?thesis using fmsum_drop [of "fmupd k v m" k v f] by simp
qed

lemma fmsum_zero: "fmsum f m = 0" if "fmdom m = {||}"
  using that by (simp add: fmsum_def)

text \<open>Rows with distinct keys, put one after the other.\<close>

lemma fmlookup_add_case:
  "fmlookup (m ++\<^sub>f n) x = (case fmlookup n x of Some v \<Rightarrow> Some v | None \<Rightarrow> fmlookup m x)"
  by (cases "fmlookup n x") (simp_all add: fmlookup_dom_iff fmdom_notI fmdomI)

lemma fmadd_rows_Cons:
  assumes "k \<notin> fst ` set rows"
  shows "fmupd k v m ++\<^sub>f fmap_of_list rows = m ++\<^sub>f fmap_of_list ((k, v) # rows)"
proof (rule fmap_ext)
  fix x
  have "map_of rows k = None" using assms by (simp add: map_of_eq_None_iff)
  then show "fmlookup (fmupd k v m ++\<^sub>f fmap_of_list rows) x = fmlookup (m ++\<^sub>f fmap_of_list ((k, v) # rows)) x"
    unfolding fmlookup_add_case fmlookup_of_list by (simp split: option.splits)
qed

end
