(* ===== verification/Mvcc_Revision.thy ===== *)
theory Mvcc_Revision
  imports Prelude
begin

text \<open>
  Revisions, \<^verbatim>\<open>crates/storage/src/mvcc/revision.rs\<close>: the pair of a main and a
  sub counter, its order (derived, so lexicographic), its 16 big-endian bytes, and the
  composite key of the \<^verbatim>\<open>mvcc_kv\<close> table. The lemmas show that both encodings are
  read back, and how the encoded bytes sort, which is what a range scan of the engine sees.
\<close>

section \<open>Revisions\<close>

datatype revision = Revision (rmain: int) (rsub: int)

instantiation revision :: linorder
begin

definition less_eq_revision :: "revision \<Rightarrow> revision \<Rightarrow> bool" where
  "less_eq_revision a b \<longleftrightarrow> rmain a < rmain b \<or> rmain a = rmain b \<and> rsub a \<le> rsub b"

definition less_revision :: "revision \<Rightarrow> revision \<Rightarrow> bool" where
  "less_revision a b \<longleftrightarrow> rmain a < rmain b \<or> rmain a = rmain b \<and> rsub a < rsub b"

instance
  by standard (auto simp: less_eq_revision_def less_revision_def revision.expand)

end

lemma Revision_le [simp]: "Revision m s \<le> Revision m' s' \<longleftrightarrow> m < m' \<or> m = m' \<and> s \<le> s'"
  by (simp add: less_eq_revision_def)

lemma Revision_less [simp]: "Revision m s < Revision m' s' \<longleftrightarrow> m < m' \<or> m = m' \<and> s < s'"
  by (simp add: less_revision_def)

lemma revision_le_rmain: "a \<le> b \<Longrightarrow> rmain a \<le> rmain b"
  by (auto simp: less_eq_revision_def)

definition rev_zero :: revision where
  "rev_zero = Revision 0 0"

text \<open>Both counters are \<^verbatim>\<open>i64\<close>s; the ones a store assigns are not negative.\<close>

definition rev_ok :: "revision \<Rightarrow> bool" where
  "rev_ok r \<longleftrightarrow> i64_ok (rmain r) \<and> i64_ok (rsub r)"

definition rev_nonneg :: "revision \<Rightarrow> bool" where
  "rev_nonneg r \<longleftrightarrow> rev_ok r \<and> 0 \<le> rmain r \<and> 0 \<le> rsub r"

definition to_bytes :: "revision \<Rightarrow> bytes" where
  "to_bytes r = i64_to_be_bytes (rmain r) @ i64_to_be_bytes (rsub r)"

definition from_bytes :: "bytes \<Rightarrow> revision option" where
  "from_bytes bs =
     (if length bs \<noteq> 16 then None
      else Some (Revision (i64_from_be_bytes (take 8 bs)) (i64_from_be_bytes (drop 8 bs))))"

definition less_or_equal :: "revision \<Rightarrow> revision \<Rightarrow> bool" where
  "less_or_equal a b \<longleftrightarrow> a \<le> b"

section \<open>Keys of the \<^verbatim>\<open>mvcc_kv\<close> table\<close>

definition make_kv_key :: "bytes \<Rightarrow> revision \<Rightarrow> bytes" where
  "make_kv_key user_key r = be_bytes 4 (length user_key) @ user_key @ to_bytes r"

definition parse_kv_key :: "bytes \<Rightarrow> (bytes \<times> revision) option" where
  "parse_kv_key bs =
     (if length bs < 4 + 16 then None
      else let len = of_be_bytes (take 4 bs) in
        if length bs \<noteq> 4 + len + 16 then None
        else case from_bytes (drop (4 + len) bs) of
            None \<Rightarrow> None
          | Some r \<Rightarrow> Some (take len (drop 4 bs), r))"

lemma length_to_bytes [simp]: "length (to_bytes r) = 16"
  by (simp add: to_bytes_def)

lemma from_to_bytes: "rev_ok r \<Longrightarrow> from_bytes (to_bytes r) = Some r"
  by (simp add: from_bytes_def to_bytes_def rev_ok_def i64_roundtrip)

lemma to_bytes_inject: "rev_ok r \<Longrightarrow> rev_ok s \<Longrightarrow> to_bytes r = to_bytes s \<longleftrightarrow> r = s"
  by (metis from_to_bytes option.inject)

lemma i64_to_be_bytes_less:
  assumes "i64_ok x" "i64_ok y" "0 \<le> x" "0 \<le> y"
  shows "i64_to_be_bytes x < i64_to_be_bytes y \<longleftrightarrow> x < y"
proof -
  have "nat (x mod 2 ^ 64) = nat x" "nat (y mod 2 ^ 64) = nat y"
    using assms by (simp_all add: i64_defs)
  moreover have "nat x < 256 ^ 8" "nat y < 256 ^ 8"
    using assms by (simp_all add: i64_defs nat_less_iff)
  ultimately show ?thesis
    using assms by (auto simp: i64_to_be_bytes_def be_bytes_less simp del: be_bytes.simps)
qed

lemma i64_to_be_bytes_inject:
  "i64_ok x \<Longrightarrow> i64_ok y \<Longrightarrow> i64_to_be_bytes x = i64_to_be_bytes y \<longleftrightarrow> x = y"
  by (metis i64_roundtrip)

text \<open>The bytes of two revisions sort as the revisions do, as long as neither counter is negative.\<close>

lemma to_bytes_less:
  assumes "rev_nonneg r" "rev_nonneg s"
  shows "to_bytes r < to_bytes s \<longleftrightarrow> r < s"
  using assms
  by (cases r; cases s)
    (auto simp: to_bytes_def list_less_append_same_length i64_to_be_bytes_less
      i64_to_be_bytes_inject rev_nonneg_def rev_ok_def)

lemma parse_make_kv_key:
  assumes "rev_ok r" "length user_key < 2 ^ 32"
  shows "parse_kv_key (make_kv_key user_key r) = Some (user_key, r)"
proof -
  have "of_be_bytes (be_bytes 4 (length user_key)) = length user_key"
    using assms(2) by (simp add: of_be_bytes_be_bytes del: be_bytes.simps)
  then show ?thesis
    using assms(1)
    by (simp add: parse_kv_key_def make_kv_key_def from_to_bytes Let_def del: be_bytes.simps)
qed

lemma make_kv_key_inject:
  assumes "rev_ok r" "rev_ok s" "length k < 2 ^ 32" "length k' < 2 ^ 32"
  shows "make_kv_key k r = make_kv_key k' s \<longleftrightarrow> k = k' \<and> r = s"
  using assms by (metis parse_make_kv_key option.inject prod.inject)

text \<open>The engine's order of the composite keys: shorter user keys first.\<close>

lemma make_kv_key_less:
  assumes "rev_nonneg r" "rev_nonneg s" "length k < 2 ^ 32" "length k' < 2 ^ 32"
  shows "make_kv_key k r < make_kv_key k' s \<longleftrightarrow>
    length k < length k' \<or> length k = length k' \<and> (k < k' \<or> k = k' \<and> r < s)"
proof -
  have len: "length k < 256 ^ 4" "length k' < 256 ^ 4" using assms(3,4) by simp_all
  show ?thesis
    using be_bytes_less [OF len] be_bytes_inject [OF len] to_bytes_less [OF assms(1,2)]
    by (auto simp: make_kv_key_def list_less_append_same_length simp del: be_bytes.simps)
qed

lemma i64_from_to_be_bytes:
  assumes "length bs = 8"
  shows "i64_to_be_bytes (i64_from_be_bytes bs) = bs"
proof -
  have less: "of_be_bytes bs < 2 ^ 64" using of_be_bytes_less [of bs] assms by simp
  then have "nat (i64_from_be_bytes bs mod 2 ^ 64) = of_be_bytes bs"
    by (auto simp: i64_from_be_bytes_def Let_def)
  then show ?thesis
    using be_bytes_of_be_bytes [of bs] assms by (simp add: i64_to_be_bytes_def del: be_bytes.simps)
qed

lemma to_from_bytes: "from_bytes bs = Some r \<Longrightarrow> to_bytes r = bs"
  by (auto simp: from_bytes_def to_bytes_def i64_from_to_be_bytes split: if_splits)

lemma make_parse_kv_key:
  assumes "parse_kv_key bs = Some (k, r)"
  shows "make_kv_key k r = bs"
proof -
  define n where "n = of_be_bytes (take 4 bs)"
  have len: "length bs = 4 + n + 16" and r: "from_bytes (drop (4 + n) bs) = Some r"
    and k: "k = take n (drop 4 bs)"
    using assms unfolding parse_kv_key_def Let_def n_def [symmetric]
    by (auto split: if_splits option.splits)
  have "length (take 4 bs) = 4" using len by simp
  then have "be_bytes 4 n = take 4 bs"
    using be_bytes_of_be_bytes [of "take 4 bs"] by (simp only: n_def)
  moreover have "length k = n" using len k by simp
  moreover have "k @ drop (4 + n) bs = drop 4 bs"
    using append_take_drop_id [of n "drop 4 bs"] by (simp add: k add.commute)
  ultimately show ?thesis
    using to_from_bytes [OF r] by (simp add: make_kv_key_def del: be_bytes.simps)
qed

text \<open>C26: The composite key of the \<^verbatim>\<open>mvcc_kv\<close> table loses nothing: whatever bytes the user key
  has (zero bytes included), \<^verbatim>\<open>parse_kv_key\<close> gives back the user key and the revision, and
  every byte string it accepts is the encoding of what it returns.\<close>

theorem kv_key_roundtrip:
  assumes "rev_ok r" "length k < 2 ^ 32"
  shows "parse_kv_key bs = Some (k, r) \<longleftrightarrow> bs = make_kv_key k r"
proof
  show "parse_kv_key bs = Some (k, r) \<Longrightarrow> bs = make_kv_key k r"
    by (rule make_parse_kv_key [symmetric])
  show "bs = make_kv_key k r \<Longrightarrow> parse_kv_key bs = Some (k, r)"
    using parse_make_kv_key [OF assms] by (simp only:)
qed

theorem kv_key_roundtrip_witness:
  "parse_kv_key (make_kv_key [0, 1] (Revision 5 (-1))) = Some ([0, 1], Revision 5 (-1))"
  using kv_key_roundtrip [of "Revision 5 (-1)" "[0, 1]" "make_kv_key [0, 1] (Revision 5 (-1))"]
  by (simp add: rev_ok_def i64_defs del: be_bytes.simps)

text \<open>C27: How the engine's byte order sorts the composite keys. The versions of one user key are
  adjacent and in revision order, and keys of one length are in user key order; a shorter user
  key comes before every longer one, whatever their bytes are.\<close>

theorem kv_key_order:
  assumes "rev_nonneg r" "rev_nonneg s" "length k < 2 ^ 32" "length k' < 2 ^ 32"
  shows "make_kv_key k r < make_kv_key k' s \<longleftrightarrow>
    (length k, k, rmain r, rsub r) < (length k', k', rmain s, rsub s)"
  using make_kv_key_less [OF assms] by (auto simp: less_revision_def)

theorem kv_key_order_witness:
  "make_kv_key [98] (Revision 9 0) < make_kv_key [97, 97] (Revision 1 0) \<and>
   make_kv_key [98] (Revision 1 5) < make_kv_key [98] (Revision 2 0)"
  using kv_key_order [of "Revision 9 0" "Revision 1 0" "[98]" "[97, 97]"]
    kv_key_order [of "Revision 1 5" "Revision 2 0" "[98]" "[98]"]
  by (simp add: rev_nonneg_def rev_ok_def i64_defs)

end
