(* ===== verification/Mvcc_Record.thy ===== *)
theory Mvcc_Record
  imports Mvcc_Revision "HOL-Library.Multiset"
begin

text \<open>
  Stored records and the per-key index, \<^verbatim>\<open>crates/storage/src/mvcc/record.rs\<close> (and the
  event types of \<^verbatim>\<open>event.rs\<close>). A key's index is its list of generations, each a run
  of puts closed by at most one tombstone.

  \<open>hist\<close> reads an index as one list of events in revision order; every operation is shown
  to do to that list what a log of events would have done to it: a put and a delete append
  one event, a read at a revision takes the last event not after it, and a compaction
  forgets events without changing any read at or above its revision.
\<close>

section \<open>Records, generations, events\<close>

record kv_record =
  r_key :: bytes
  r_value :: bytes
  r_create_revision :: int
  r_mod_revision :: int
  r_version :: int
  r_lease :: int
  r_deleted :: bool

definition is_tombstone :: "kv_record \<Rightarrow> bool" where
  "is_tombstone r = r_deleted r"

datatype event_kind = EvPut | EvDelete

record mvcc_event =
  ev_kind :: event_kind
  ev_kv :: kv_record
  ev_prev_kv :: "kv_record option"

record event_batch =
  eb_revision :: int
  eb_events :: "mvcc_event list"

record generation =
  g_created :: revision
  g_revs :: "revision list"
  g_tombstone :: "revision option"

definition is_open :: "generation \<Rightarrow> bool" where
  "is_open g \<longleftrightarrow> g_tombstone g = None"

definition version_for_next_put :: "generation \<Rightarrow> int" where
  "version_for_next_put g = int (length (g_revs g)) + 1"

text \<open>The loop over a generation's puts: the best match so far against the next revision.\<close>

definition lab_step ::
  "revision \<Rightarrow> (revision \<times> bool) option \<Rightarrow> revision \<Rightarrow> (revision \<times> bool) option" where
  "lab_step target best r =
     (if r \<le> target then
        (case best of
           Some (b, _) \<Rightarrow> if b \<ge> r then Some (b, False) else Some (r, False)
         | None \<Rightarrow> Some (r, False))
      else best)"

definition latest_at_or_before :: "generation \<Rightarrow> revision \<Rightarrow> (revision \<times> bool) option" where
  "latest_at_or_before g target =
     (let best = foldl (lab_step target) None (g_revs g) in
      case g_tombstone g of
        None \<Rightarrow> best
      | Some t \<Rightarrow>
          if t \<le> target then
            (case best of
               Some (b, tb) \<Rightarrow> if b > t then best else Some (t, True)
             | None \<Rightarrow> Some (t, True))
          else best)"

section \<open>Key index\<close>

record key_index =
  i_key :: bytes
  i_generations :: "generation list"

definition ki_new :: "bytes \<Rightarrow> key_index" where
  "ki_new k = \<lparr>i_key = k, i_generations = []\<rparr>"

definition gens_live :: "generation list \<Rightarrow> bool" where
  "gens_live gs \<longleftrightarrow> gs \<noteq> [] \<and> is_open (last gs)"

definition is_live :: "key_index \<Rightarrow> bool" where
  "is_live ki = gens_live (i_generations ki)"

definition gens_current :: "generation list \<Rightarrow> (revision \<times> int) option" where
  "gens_current gs =
     (if gs = [] then None
      else let g = last gs in
        if \<not> is_open g then None
        else if g_revs g = [] then None
        else Some (last (g_revs g), int (length (g_revs g))))"

definition current :: "key_index \<Rightarrow> (revision \<times> int) option" where
  "current ki = gens_current (i_generations ki)"

definition gens_put :: "generation list \<Rightarrow> revision \<Rightarrow> generation list \<times> int \<times> revision" where
  "gens_put gs rv =
     (let needs_new = (gs = [] \<or> \<not> is_open (last gs)) in
      if needs_new then
        (gs @ [\<lparr>g_created = rv, g_revs = [rv], g_tombstone = None\<rparr>], 1, rv)
      else
        let g = (last gs)\<lparr>g_revs := g_revs (last gs) @ [rv]\<rparr> in
        (butlast gs @ [g], int (length (g_revs g)), g_created g))"

definition record_put :: "key_index \<Rightarrow> revision \<Rightarrow> key_index \<times> int \<times> revision" where
  "record_put ki rv =
     (let (gs, v, c) = gens_put (i_generations ki) rv in (ki\<lparr>i_generations := gs\<rparr>, v, c))"

definition gens_delete :: "generation list \<Rightarrow> revision \<Rightarrow> generation list \<times> bool" where
  "gens_delete gs rv =
     (if gs \<noteq> [] \<and> is_open (last gs)
      then (butlast gs @ [(last gs)\<lparr>g_tombstone := Some rv\<rparr>], True)
      else (gs, False))"

definition record_delete :: "key_index \<Rightarrow> revision \<Rightarrow> key_index \<times> bool" where
  "record_delete ki rv =
     (let (gs, b) = gens_delete (i_generations ki) rv in (ki\<lparr>i_generations := gs\<rparr>, b))"

text \<open>\<open>revision_at\<close> walks the generations newest first.\<close>

fun rev_at_walk :: "generation list \<Rightarrow> revision \<Rightarrow> revision option" where
  "rev_at_walk [] target = None"
| "rev_at_walk (g # older) target =
     (if g_created g > target then rev_at_walk older target
      else case latest_at_or_before g target of
          Some (r, tomb) \<Rightarrow> if tomb then None else Some r
        | None \<Rightarrow> rev_at_walk older target)"

definition revision_at :: "generation list \<Rightarrow> revision \<Rightarrow> revision option" where
  "revision_at gs target = rev_at_walk (rev gs) target"

section \<open>Compaction of one key\<close>

text \<open>The index of the newest put at or below the compacted revision; the loop breaks at the
  first put above it.\<close>

fun floor_idx :: "revision \<Rightarrow> nat \<Rightarrow> nat option \<Rightarrow> revision list \<Rightarrow> nat option" where
  "floor_idx c i acc [] = acc"
| "floor_idx c i acc (r # rs) = (if r \<le> c then floor_idx c (Suc i) (Some i) rs else acc)"

text \<open>One generation: what is dropped, and the generation that is kept (none if it goes).\<close>

definition compact_gen :: "revision \<Rightarrow> generation \<Rightarrow> revision list \<times> generation option" where
  "compact_gen c g =
     (case g_tombstone g of
        Some t \<Rightarrow>
          if t \<le> c then (g_revs g @ [t], None)
          else (case floor_idx c 0 None (g_revs g) of
                  Some fi \<Rightarrow> (take fi (g_revs g), Some (g\<lparr>g_revs := drop fi (g_revs g)\<rparr>))
                | None \<Rightarrow> ([], Some g))
      | None \<Rightarrow>
          (case floor_idx c 0 None (g_revs g) of
             Some fi \<Rightarrow>
               (take fi (g_revs g),
                if drop fi (g_revs g) = [] then None
                else Some (g\<lparr>g_revs := drop fi (g_revs g)\<rparr>))
           | None \<Rightarrow> ([], if g_revs g = [] then None else Some g)))"

fun gens_compact :: "revision \<Rightarrow> generation list \<Rightarrow> revision list \<times> generation list" where
  "gens_compact c [] = ([], [])"
| "gens_compact c (g # gs) =
     (let (d, k) = compact_gen c g; (ds, ks) = gens_compact c gs
      in (d @ ds, (case k of None \<Rightarrow> ks | Some g' \<Rightarrow> g' # ks)))"

definition ki_compact :: "key_index \<Rightarrow> revision \<Rightarrow> key_index \<times> revision list" where
  "ki_compact ki c =
     (let (ds, ks) = gens_compact c (i_generations ki) in (ki\<lparr>i_generations := ks\<rparr>, ds))"

definition compaction_changes :: "generation list \<Rightarrow> revision \<Rightarrow> bool" where
  "compaction_changes gs c \<longleftrightarrow>
     (\<exists>g\<in>set gs.
        (case g_tombstone g of Some t \<Rightarrow> t \<le> c | None \<Rightarrow> False)
        \<or> (length (g_revs g) \<ge> 2 \<and> g_revs g ! 1 \<le> c))"


section \<open>An index as a list of events\<close>

definition gen_events :: "generation \<Rightarrow> (revision \<times> bool) list" where
  "gen_events g =
     map (\<lambda>r. (r, False)) (g_revs g) @
     (case g_tombstone g of None \<Rightarrow> [] | Some t \<Rightarrow> [(t, True)])"

definition hist :: "generation list \<Rightarrow> (revision \<times> bool) list" where
  "hist gs = concat (map gen_events gs)"

text \<open>A read of the event list: the last event at or before \<open>target\<close>, if it is a put.\<close>

definition last_event :: "(revision \<times> bool) list \<Rightarrow> revision \<Rightarrow> (revision \<times> bool) option" where
  "last_event es target = find (\<lambda>e. fst e \<le> target) (rev es)"

definition read_hist :: "(revision \<times> bool) list \<Rightarrow> revision \<Rightarrow> revision option" where
  "read_hist es target =
     (case last_event es target of
        None \<Rightarrow> None
      | Some (r, tomb) \<Rightarrow> if tomb then None else Some r)"

text \<open>Well-formed generations: puts ascend, the tombstone follows them, an open generation has
  a put, and only the last generation may be open.\<close>

definition gen_ok :: "generation \<Rightarrow> bool" where
  "gen_ok g \<longleftrightarrow>
     sorted_wrt (<) (map fst (gen_events g)) \<and>
     (\<forall>e\<in>set (gen_events g). g_created g \<le> fst e) \<and>
     gen_events g \<noteq> []"

definition gens_ok :: "generation list \<Rightarrow> bool" where
  "gens_ok gs \<longleftrightarrow>
     (\<forall>g\<in>set gs. gen_ok g) \<and>
     sorted_wrt (\<lambda>g h. \<exists>t. g_tombstone g = Some t \<and> t < g_created h) gs"

definition gens_below :: "generation list \<Rightarrow> revision \<Rightarrow> bool" where
  "gens_below gs b \<longleftrightarrow> (\<forall>e\<in>set (hist gs). fst e < b)"

text \<open>The life of one key: the calls the store makes on its index, and the event log they stand
  for. A compaction is invisible to the log; \<open>ops_floor\<close> is the highest one.\<close>

datatype ki_op = KiPut revision | KiDelete revision | KiCompact revision

fun ki_step :: "key_index \<Rightarrow> ki_op \<Rightarrow> key_index" where
  "ki_step ki (KiPut r) = fst (record_put ki r)"
| "ki_step ki (KiDelete r) = fst (record_delete ki r)"
| "ki_step ki (KiCompact c) = fst (ki_compact ki c)"

fun log_step :: "(revision \<times> bool) list \<Rightarrow> ki_op \<Rightarrow> (revision \<times> bool) list" where
  "log_step es (KiPut r) = es @ [(r, False)]"
| "log_step es (KiDelete r) = (if es \<noteq> [] \<and> \<not> snd (last es) then es @ [(r, True)] else es)"
| "log_step es (KiCompact c) = es"

fun ops_ascend :: "revision \<Rightarrow> ki_op list \<Rightarrow> bool" where
  "ops_ascend b [] = True"
| "ops_ascend b (KiPut r # ops) = (b < r \<and> ops_ascend r ops)"
| "ops_ascend b (KiDelete r # ops) = (b < r \<and> ops_ascend r ops)"
| "ops_ascend b (KiCompact c # ops) = ops_ascend b ops"

definition ops_floor :: "revision \<Rightarrow> ki_op list \<Rightarrow> revision" where
  "ops_floor f ops = foldl (\<lambda>f op. case op of KiCompact c \<Rightarrow> max f c | _ \<Rightarrow> f) f ops"

lemma hist_Nil [simp]: "hist [] = []"
  by (simp add: hist_def)

lemma hist_append [simp]: "hist (xs @ ys) = hist xs @ hist ys"
  by (simp add: hist_def)

lemma hist_Cons: "hist (g # gs) = gen_events g @ hist gs"
  by (simp add: hist_def)

lemma gens_ok_Nil [simp]: "gens_ok []"
  by (simp add: gens_ok_def)

lemma gens_ok_append:
  "gens_ok (xs @ ys) \<longleftrightarrow> gens_ok xs \<and> gens_ok ys \<and>
     (\<forall>g\<in>set xs. \<forall>h\<in>set ys. \<exists>t. g_tombstone g = Some t \<and> t < g_created h)"
  by (auto simp: gens_ok_def sorted_wrt_append)

lemma gens_ok_single [simp]: "gens_ok [g] \<longleftrightarrow> gen_ok g"
  by (simp add: gens_ok_def)

lemma find_append:
  "find P (xs @ ys) = (case find P xs of None \<Rightarrow> find P ys | Some x \<Rightarrow> Some x)"
  by (induction xs) auto

lemma find_None_all: "find P xs = None \<longleftrightarrow> (\<forall>x\<in>set xs. \<not> P x)"
  by (auto simp: find_None_iff)

lemma find_SomeD: "find P xs = Some x \<Longrightarrow> x \<in> set xs \<and> P x"
  by (induction xs) (auto split: if_splits)

lemma find_map_pair: "find (\<lambda>e. P (fst e)) (map (\<lambda>r. (r, b)) xs) = map_option (\<lambda>r. (r, b)) (find P xs)"
  by (induction xs) auto

lemma last_event_append:
  "last_event (xs @ ys) t = (case last_event ys t of None \<Rightarrow> last_event xs t | Some e \<Rightarrow> Some e)"
  unfolding last_event_def by (simp add: find_append)

lemma last_event_None: "last_event es t = None \<longleftrightarrow> (\<forall>e\<in>set es. \<not> fst e \<le> t)"
  by (simp add: last_event_def find_None_all)

lemma last_event_SomeD: "last_event es t = Some e \<Longrightarrow> e \<in> set es \<and> fst e \<le> t"
  by (auto simp: last_event_def dest: find_SomeD)

lemma lab_step_apply:
  "lab_step t None r = (if r \<le> t then Some (r, False) else None)"
  "lab_step t (Some (b, x)) r =
     (if r \<le> t then Some (if b \<ge> r then b else r, False) else Some (b, x))"
  by (simp_all add: lab_step_def)

lemma foldl_lab_step:
  "sorted_wrt (<) rs \<Longrightarrow>
   foldl (lab_step t) None rs = map_option (\<lambda>r. (r, False)) (find (\<lambda>r. r \<le> t) (rev rs))"
proof (induction rs rule: rev_induct)
  case Nil
  then show ?case by simp
next
  case (snoc r rs)
  then have IH: "foldl (lab_step t) None rs = map_option (\<lambda>r. (r, False)) (find (\<lambda>r. r \<le> t) (rev rs))"
    and lt: "\<forall>q\<in>set rs. q < r" by (auto simp: sorted_wrt_append)
  have "q < r" if "find (\<lambda>r. r \<le> t) (rev rs) = Some q" for q
    using that lt by (auto dest: find_SomeD)
  with IH show ?case
    by (cases "find (\<lambda>r. r \<le> t) (rev rs)") (auto simp: lab_step_apply)
qed

lemma latest_at_or_before_last_event:
  assumes "gen_ok g"
  shows "latest_at_or_before g t = last_event (gen_events g) t"
proof -
  have s: "sorted_wrt (<) (g_revs g)" and
    tl: "\<And>d. g_tombstone g = Some d \<Longrightarrow> \<forall>r\<in>set (g_revs g). r < d"
    using assms by (auto simp: gen_ok_def gen_events_def comp_def sorted_wrt_append)
  have base: "last_event (map (\<lambda>r. (r, False)) (g_revs g)) t =
      map_option (\<lambda>r. (r, False)) (find (\<lambda>r. r \<le> t) (rev (g_revs g)))"
    using find_map_pair [of "\<lambda>r. r \<le> t" False "rev (g_revs g)"]
    by (simp add: last_event_def rev_map)
  have "q < d" if "g_tombstone g = Some d" "find (\<lambda>r. r \<le> t) (rev (g_revs g)) = Some q" for d q
    using that tl [of d] by (auto dest: find_SomeD)
  then show ?thesis
    using base
    by (auto simp: latest_at_or_before_def foldl_lab_step [OF s] gen_events_def last_event_append
        last_event_def split: option.splits dest: less_imp_not_less)
qed

text \<open>A read through the generations is a read of the event list.\<close>

lemma revision_at_read_hist:
  assumes "\<forall>g\<in>set gs. gen_ok g"
  shows "revision_at gs t = read_hist (hist gs) t"
  using assms
proof (induction gs rule: rev_induct)
  case Nil
  then show ?case by (simp add: revision_at_def read_hist_def last_event_def)
next
  case (snoc g gs)
  then have g: "gen_ok g" and IH: "rev_at_walk (rev gs) t = read_hist (hist gs) t"
    by (auto simp: revision_at_def)
  have h: "hist (gs @ [g]) = hist gs @ gen_events g" by (simp add: hist_Cons)
  show ?case
  proof (cases "g_created g > t")
    case True
    then have "last_event (gen_events g) t = None"
      using g by (force simp: last_event_None gen_ok_def)
    with True IH h show ?thesis
      by (simp add: revision_at_def read_hist_def last_event_append)
  next
    case False
    with IH h latest_at_or_before_last_event [OF g, of t] show ?thesis
      by (auto simp: revision_at_def read_hist_def last_event_append split: option.splits)
  qed
qed

lemma sorted_hist: "gens_ok gs \<Longrightarrow> sorted_wrt (<) (map fst (hist gs))"
proof (induction gs)
  case Nil
  then show ?case by simp
next
  case (Cons g gs)
  have lt: "fst e < fst f" if e: "e \<in> set (gen_events g)" and f: "f \<in> set (hist gs)" for e f
  proof -
    from f obtain h where h: "h \<in> set gs" "f \<in> set (gen_events h)" by (auto simp: hist_def)
    with Cons.prems obtain d where d: "g_tombstone g = Some d" "d < g_created h"
      by (auto simp: gens_ok_def)
    have "fst e \<le> d" using e d(1) Cons.prems
      by (auto simp: gens_ok_def gen_ok_def gen_events_def sorted_wrt_append)
    moreover have "g_created h \<le> fst f" using h Cons.prems by (auto simp: gens_ok_def gen_ok_def)
    ultimately show ?thesis using d(2) by order
  qed
  from Cons have "sorted_wrt (<) (map fst (gen_events g))" "sorted_wrt (<) (map fst (hist gs))"
    by (auto simp: gens_ok_def gen_ok_def)
  with lt show ?case by (auto simp: hist_Cons sorted_wrt_append)
qed

lemma distinct_hist: "gens_ok gs \<Longrightarrow> distinct (map fst (hist gs))"
  using sorted_hist [of gs] by (simp add: strict_sorted_iff)


section \<open>Puts and deletes append to the event list\<close>

lemma gen_events_open: "is_open g \<Longrightarrow> gen_events g = map (\<lambda>r. (r, False)) (g_revs g)"
  by (simp add: gen_events_def is_open_def)

lemma hist_butlast: "gs \<noteq> [] \<Longrightarrow> hist gs = hist (butlast gs) @ gen_events (last gs)"
  by (metis append_Nil2 append_butlast_last_id hist_Cons hist_Nil hist_append)

lemma gens_ok_butlast:
  "gs \<noteq> [] \<Longrightarrow> gens_ok gs \<longleftrightarrow> gens_ok (butlast gs) \<and> gen_ok (last gs) \<and>
     (\<forall>g\<in>set (butlast gs). \<exists>t. g_tombstone g = Some t \<and> t < g_created (last gs))"
  using gens_ok_append [of "butlast gs" "[last gs]"] by simp

lemma gen_ok_extend:
  assumes "gen_ok g" "gen_events g' = gen_events g @ [(rv, b)]" "g_created g' = g_created g"
    and lt: "\<forall>e\<in>set (gen_events g). fst e < rv"
  shows "gen_ok g'"
proof -
  obtain e where "e \<in> set (gen_events g)" "g_created g \<le> fst e"
    using assms(1) by (metis gen_ok_def last_in_set)
  with lt have "g_created g \<le> rv" by force
  with assms show ?thesis by (auto simp: gen_ok_def sorted_wrt_append)
qed

lemma hist_gens_put [simp]: "hist (fst (gens_put gs rv)) = hist gs @ [(rv, False)]"
proof (cases "gs = [] \<or> \<not> is_open (last gs)")
  case True
  then show ?thesis by (simp add: gens_put_def hist_Cons gen_events_def Let_def)
next
  case False
  with hist_butlast [of gs] show ?thesis
    by (simp add: gens_put_def hist_Cons gen_events_def Let_def is_open_def)
qed

lemma hist_gens_delete: "gens_live gs \<Longrightarrow> hist (fst (gens_delete gs rv)) = hist gs @ [(rv, True)]"
  using hist_butlast [of gs]
  by (simp add: gens_live_def gens_delete_def hist_Cons gen_events_def is_open_def)

lemma gens_delete_dead: "\<not> gens_live gs \<Longrightarrow> gens_delete gs rv = (gs, False)"
  by (auto simp: gens_delete_def gens_live_def)

lemma gens_delete_live: "snd (gens_delete gs rv) = gens_live gs"
  by (auto simp: gens_delete_def gens_live_def)

lemma gens_put_live [simp]: "gens_live (fst (gens_put gs rv))"
  by (auto simp: gens_put_def gens_live_def Let_def is_open_def)

lemma gens_put_nonempty [simp]: "fst (gens_put gs rv) \<noteq> []"
  by (simp add: gens_put_def Let_def)

lemma gens_delete_not_live [simp]: "\<not> gens_live (fst (gens_delete gs rv))"
  by (auto simp: gens_delete_def gens_live_def is_open_def)

lemma gens_delete_nonempty [simp]: "fst (gens_delete gs rv) = [] \<longleftrightarrow> gs = []"
  by (auto simp: gens_delete_def)

lemma gens_current_put [simp]:
  "gens_current (fst (gens_put gs rv)) = Some (rv, fst (snd (gens_put gs rv)))"
  by (auto simp: gens_put_def gens_current_def Let_def is_open_def)

lemma gens_current_dead: "\<not> gens_live gs \<Longrightarrow> gens_current gs = None"
  by (auto simp: gens_current_def gens_live_def Let_def)

lemma gens_current_live: "gens_ok gs \<Longrightarrow> gens_live gs \<Longrightarrow> \<exists>rv v. gens_current gs = Some (rv, v)"
proof -
  assume ok: "gens_ok gs" and live: "gens_live gs"
  then have "gen_ok (last gs)" by (auto simp: gens_ok_def gens_live_def)
  with live have "g_revs (last gs) \<noteq> []"
    by (auto simp: gens_live_def gen_ok_def gen_events_open)
  with live show ?thesis by (auto simp: gens_current_def gens_live_def Let_def)
qed

lemma last_hist_current:
  "gens_current gs = Some (rv, v) \<Longrightarrow> hist gs \<noteq> [] \<and> last (hist gs) = (rv, False)"
proof -
  assume c: "gens_current gs = Some (rv, v)"
  then have *: "gs \<noteq> []" "is_open (last gs)" "g_revs (last gs) \<noteq> []" "last (g_revs (last gs)) = rv"
    by (auto simp: gens_current_def Let_def split: if_splits)
  with hist_butlast [OF *(1)] show ?thesis by (simp add: gen_events_open last_map)
qed

lemma in_hist_current: "gens_current gs = Some (rv, v) \<Longrightarrow> (rv, False) \<in> set (hist gs)"
  by (metis last_hist_current last_in_set)

lemma gens_live_last: "gs \<noteq> [] \<Longrightarrow> gens_ok gs \<Longrightarrow> hist gs \<noteq> [] \<and> gens_live gs = (\<not> snd (last (hist gs)))"
proof -
  assume ne: "gs \<noteq> []" and ok: "gens_ok gs"
  then have g: "gen_ok (last gs)" by (simp add: gens_ok_def)
  then have "gen_events (last gs) \<noteq> []" by (simp add: gen_ok_def)
  with hist_butlast [OF ne] ne show ?thesis
    by (auto simp: gens_live_def is_open_def gen_events_def last_map split: option.splits)
qed

text \<open>Both keep an index well-formed, as long as the revision is above every one in it.\<close>

lemma gens_below_append [simp]: "gens_below (xs @ ys) b \<longleftrightarrow> gens_below xs b \<and> gens_below ys b"
  by (auto simp: gens_below_def)

lemma gens_put_ok:
  assumes ok: "gens_ok gs" and below: "gens_below gs rv"
  shows "gens_ok (fst (gens_put gs rv))"
proof (cases "gens_live gs")
  case False
  have "\<exists>t. g_tombstone g = Some t \<and> t < rv" if g: "g \<in> set gs" for g
  proof -
    from g have "gs \<noteq> []" by auto
    with False ok g have "g_tombstone g \<noteq> None"
      by (cases gs rule: rev_cases) (auto simp: gens_live_def is_open_def gens_ok_append)
    then obtain t where t: "g_tombstone g = Some t" by blast
    then have "(t, True) \<in> set (gen_events g)" by (simp add: gen_events_def)
    then have "(t, True) \<in> set (hist gs)" using g by (auto simp: hist_def)
    with below t show ?thesis by (force simp: gens_below_def)
  qed
  moreover have "gen_ok \<lparr>g_created = rv, g_revs = [rv], g_tombstone = None\<rparr>"
    by (simp add: gen_ok_def gen_events_def)
  ultimately show ?thesis using False ok
    by (auto simp: gens_put_def gens_ok_append gens_live_def Let_def)
next
  case True
  then have ne: "gs \<noteq> []" and op: "is_open (last gs)" by (auto simp: gens_live_def)
  have last: "gen_ok (last gs)" "\<forall>e\<in>set (gen_events (last gs)). fst e < rv"
    using ok below hist_butlast [OF ne] by (auto simp: gens_ok_def ne gens_below_def)
  have "gen_ok ((last gs)\<lparr>g_revs := g_revs (last gs) @ [rv]\<rparr>)"
    by (rule gen_ok_extend [where b = False, OF last(1) _ _ last(2)])
      (use op in \<open>simp_all add: gen_events_def is_open_def\<close>)
  with ok op ne show ?thesis
    by (auto simp: gens_put_def gens_ok_butlast [OF ne] gens_ok_append Let_def)
qed

lemma gens_delete_ok:
  assumes ok: "gens_ok gs" and below: "gens_below gs rv"
  shows "gens_ok (fst (gens_delete gs rv))"
proof (cases "gens_live gs")
  case False
  with ok show ?thesis by (simp add: gens_delete_dead)
next
  case True
  then have ne: "gs \<noteq> []" and op: "is_open (last gs)" by (auto simp: gens_live_def)
  have last: "gen_ok (last gs)" "\<forall>e\<in>set (gen_events (last gs)). fst e < rv"
    using ok below hist_butlast [OF ne] by (auto simp: gens_ok_def ne gens_below_def)
  have "gen_ok ((last gs)\<lparr>g_tombstone := Some rv\<rparr>)"
    by (rule gen_ok_extend [where b = True, OF last(1) _ _ last(2)])
      (use op in \<open>simp_all add: gen_events_def is_open_def\<close>)
  with ok op ne show ?thesis
    by (auto simp: gens_delete_def gens_ok_butlast [OF ne] gens_ok_append)
qed


section \<open>Compaction\<close>

lemma floor_idx_takeWhile:
  "floor_idx c i acc rs =
     (let n = length (takeWhile (\<lambda>r. r \<le> c) rs) in if n = 0 then acc else Some (i + n - 1))"
  by (induction rs arbitrary: i acc) (auto simp: Let_def)

lemma gens_compact_Cons [simp]:
  "fst (gens_compact c (g # gs)) = fst (compact_gen c g) @ fst (gens_compact c gs)"
  "snd (gens_compact c (g # gs)) =
     (case snd (compact_gen c g) of
        None \<Rightarrow> snd (gens_compact c gs)
      | Some g' \<Rightarrow> g' # snd (gens_compact c gs))"
  by (simp_all add: split_def Let_def)

declare gens_compact.simps(2) [simp del]

lemma gens_compact_append:
  "gens_compact c (xs @ ys) =
     (fst (gens_compact c xs) @ fst (gens_compact c ys),
      snd (gens_compact c xs) @ snd (gens_compact c ys))"
  by (induction xs) (auto simp: prod_eq_iff split: option.splits)

text \<open>What becomes of one well-formed generation: it goes, all of it, or it keeps its creation
  and its tombstone and loses a prefix of its puts.\<close>

lemma compact_gen_cases:
  assumes "gen_ok g"
  obtains (gone) t where "g_tombstone g = Some t" "t \<le> c"
      "compact_gen c g = (map fst (gen_events g), None)"
    | (kept) g' n where "compact_gen c g = (take n (g_revs g), Some g')"
      "g' = g\<lparr>g_revs := drop n (g_revs g)\<rparr>"
      "\<forall>t. g_tombstone g = Some t \<longrightarrow> c < t"
      "gen_events g' = drop n (gen_events g)" "gen_ok g'"
      "n = length (takeWhile (\<lambda>r. r \<le> c) (g_revs g)) - 1"
proof (cases "\<exists>t. g_tombstone g = Some t \<and> t \<le> c")
  case True
  then show ?thesis using gone by (auto simp: compact_gen_def gen_events_def comp_def)
next
  case False
  define m where "m = length (takeWhile (\<lambda>r. r \<le> c) (g_revs g))"
  define n where "n = m - 1"
  let ?g' = "g\<lparr>g_revs := drop n (g_revs g)\<rparr>"
  have m: "m \<le> length (g_revs g)" by (simp add: m_def length_takeWhile_le)
  then have n: "g_revs g \<noteq> [] \<Longrightarrow> n < length (g_revs g)" "n \<le> length (g_revs g)"
    by (auto simp: n_def simp flip: length_greater_0_conv)
  have op: "g_tombstone g = None \<Longrightarrow> g_revs g \<noteq> []"
    using assms by (auto simp: gen_ok_def gen_events_def)
  have ev: "gen_events ?g' = drop n (gen_events g)"
    using n(2) by (simp add: gen_events_def drop_map)
  have cg: "compact_gen c g = (take n (g_revs g), Some ?g')"
  proof (cases "g_tombstone g")
    case None
    with n(1) op have "drop n (g_revs g) \<noteq> []" "g_revs g \<noteq> []" by auto
    with None show ?thesis
      by (auto simp: compact_gen_def floor_idx_takeWhile m_def [symmetric] n_def Let_def)
  next
    case (Some t)
    with False show ?thesis
      by (auto simp: compact_gen_def floor_idx_takeWhile m_def [symmetric] n_def Let_def)
  qed
  have "drop n (gen_events g) \<noteq> []"
    using n op by (cases "g_tombstone g") (auto simp: gen_events_def not_le)
  then have "gen_ok ?g'"
    using assms by (auto simp: gen_ok_def ev drop_map [symmetric] sorted_wrt_drop dest: in_set_dropD)
  with cg ev False show ?thesis using kept [of n ?g'] by (auto simp: m_def n_def not_le)
qed

lemma gens_compact_ok:
  assumes "gens_ok gs"
  shows "gens_ok (snd (gens_compact c gs))"
    and "\<forall>h\<in>set (snd (gens_compact c gs)). \<exists>g\<in>set gs.
           g_created h = g_created g \<and> g_tombstone h = g_tombstone g"
  using assms
proof (induction gs)
  case Nil
  { case 1 show ?case by simp next case 2 show ?case by simp }
next
  case (Cons g gs)
  have ok: "gens_ok gs" "gen_ok g" and
    sep: "\<forall>h\<in>set gs. \<exists>t. g_tombstone g = Some t \<and> t < g_created h"
    if "gens_ok (g # gs)"
    using that by (auto simp: gens_ok_def)
  {
    case 1
    from ok(2) [OF 1] show ?case
    proof (cases rule: compact_gen_cases [where c = c])
      case gone
      with Cons.IH(1) [OF ok(1) [OF 1]] show ?thesis by simp
    next
      case (kept g' n)
      have "\<forall>h\<in>set (snd (gens_compact c gs)). \<exists>t. g_tombstone g' = Some t \<and> t < g_created h"
        using Cons.IH(2) [OF ok(1) [OF 1]] sep [OF 1] kept(2) by fastforce
      with kept Cons.IH(1) [OF ok(1) [OF 1]] show ?thesis by (auto simp: gens_ok_def)
    qed
  next
    case 2
    from ok(2) [OF 2] show ?case
    proof (cases rule: compact_gen_cases [where c = c])
      case gone
      with Cons.IH(2) [OF ok(1) [OF 2]] show ?thesis by auto
    next
      case (kept g' n)
      with Cons.IH(2) [OF ok(1) [OF 2]] show ?thesis by auto
    qed
  }
qed

text \<open>Nothing is lost but what is reported dropped, and nothing is reported twice.\<close>

lemma gens_compact_partition:
  "mset (map fst (hist gs)) =
     mset (fst (gens_compact c gs)) + mset (map fst (hist (snd (gens_compact c gs))))"
proof (induction gs)
  case Nil
  then show ?case by simp
next
  case (Cons g gs)
  have "mset (map fst (gen_events g)) =
      mset (fst (compact_gen c g)) +
      (case snd (compact_gen c g) of None \<Rightarrow> {#} | Some g' \<Rightarrow> mset (map fst (gen_events g')))"
  proof -
    have *: "mset xs = mset (take n xs) + mset (drop n xs)" for n and xs :: "revision list"
      by (metis append_take_drop_id mset_append)
    show ?thesis
      using * by (auto simp: compact_gen_def gen_events_def comp_def split: option.splits)
  qed
  with Cons show ?case
    by (auto simp: hist_Cons split: option.splits)
qed


text \<open>A generation that is kept answers every read at or above the compacted revision as before,
  and of its events at or below that revision at most one is left, a put.\<close>

lemma dropWhile_above:
  "sorted_wrt (<) rs \<Longrightarrow> q \<in> set (dropWhile (\<lambda>r. r \<le> c) rs) \<Longrightarrow> c < (q::'a::linorder)"
  by (induction rs) (auto split: if_splits)

lemma kept_puts:
  fixes rs :: "'a::linorder list"
  assumes "sorted_wrt (<) rs" "n = length (takeWhile (\<lambda>r. r \<le> c) rs) - 1"
  obtains (none) "n = 0" "\<forall>q\<in>set rs. c < q"
    | (some) r where "drop n rs = r # dropWhile (\<lambda>r. r \<le> c) rs" "r \<le> c"
      "\<forall>q\<in>set (dropWhile (\<lambda>r. r \<le> c) rs). c < q"
proof (cases "takeWhile (\<lambda>r. r \<le> c) rs" rule: rev_cases)
  case Nil
  then have "dropWhile (\<lambda>r. r \<le> c) rs = rs" by (cases rs) (auto split: if_splits)
  with Nil assms dropWhile_above [OF assms(1)] show ?thesis by (intro none) auto
next
  case (snoc ys r)
  then have "rs = ys @ r # dropWhile (\<lambda>r. r \<le> c) rs"
    by (metis append.assoc append_Cons append_Nil takeWhile_dropWhile_id)
  moreover have "n = length ys" using snoc assms(2) by simp
  ultimately have "drop n rs = r # dropWhile (\<lambda>r. r \<le> c) rs" by (metis append_eq_conv_conj)
  moreover have "r \<le> c" using snoc by (metis in_set_conv_decomp set_takeWhileD)
  ultimately show ?thesis using some dropWhile_above [OF assms(1)] by blast
qed

lemma kept_reads:
  assumes "gen_ok g" "n = length (takeWhile (\<lambda>r. r \<le> c) (g_revs g)) - 1"
    and tomb: "\<forall>t. g_tombstone g = Some t \<longrightarrow> c < t"
  shows "c \<le> t \<Longrightarrow> last_event (drop n (gen_events g)) t = last_event (gen_events g) t"
    and "e \<in> set (drop n (gen_events g)) \<Longrightarrow> fst e \<le> c \<Longrightarrow>
      last_event (drop n (gen_events g)) c = Some e \<and> \<not> snd e"
proof -
  have sorted: "sorted_wrt (<) (g_revs g)"
    using assms(1) by (auto simp: gen_ok_def gen_events_def comp_def sorted_wrt_append)
  have "n \<le> length (g_revs g)"
    using assms(2) length_takeWhile_le [of "\<lambda>r. r \<le> c" "g_revs g"] by simp
  then have ev: "drop n (gen_events g) = map (\<lambda>r. (r, False)) (drop n (g_revs g)) @
      (case g_tombstone g of None \<Rightarrow> [] | Some t \<Rightarrow> [(t, True)])"
    by (simp add: gen_events_def drop_map)
  show "last_event (drop n (gen_events g)) t = last_event (gen_events g) t" if "c \<le> t"
    using sorted assms(2)
  proof (cases rule: kept_puts)
    case none
    then show ?thesis by simp
  next
    case (some r)
    then have "(r, False) \<in> set (drop n (gen_events g))" "r \<le> t"
      using that by (auto simp: ev)
    then have "last_event (drop n (gen_events g)) t \<noteq> None"
      by (metis fst_conv last_event_None)
    then show ?thesis
      using last_event_append [of "take n (gen_events g)" "drop n (gen_events g)" t] by auto
  qed
  show "last_event (drop n (gen_events g)) c = Some e \<and> \<not> snd e"
    if e: "e \<in> set (drop n (gen_events g))" "fst e \<le> c"
    using sorted assms(2)
  proof (cases rule: kept_puts)
    case none
    with e tomb show ?thesis by (cases "g_tombstone g") (auto simp: gen_events_def)
  next
    case (some r)
    with e tomb have "e = (r, False)" by (cases "g_tombstone g") (auto simp: ev)
    moreover have "find (\<lambda>e. fst e \<le> c)
        (rev (map (\<lambda>r. (r, False)) (dropWhile (\<lambda>r. r \<le> c) (g_revs g)))) = None"
      using some(3) by (auto simp: find_None_all)
    ultimately show ?thesis
      using some(1,2) tomb by (cases "g_tombstone g") (auto simp: ev last_event_def find_append)
  qed
qed

lemma gens_compact_gone:
  assumes "gens_ok gs" "\<forall>g\<in>set gs. \<exists>t. g_tombstone g = Some t \<and> t \<le> c"
  shows "snd (gens_compact c gs) = []"
  using assms
proof (induction gs)
  case (Cons g gs)
  then have "gen_ok g" "gens_ok gs" by (auto simp: gens_ok_def)
  from this(1) show ?case
    by (cases rule: compact_gen_cases [where c = c]) (use Cons \<open>gens_ok gs\<close> in \<open>auto simp: not_le\<close>)
qed simp

text \<open>Compaction answers every read at or above its revision as before.\<close>

lemma gens_compact_read:
  assumes "gens_ok gs" "c \<le> t"
  shows "revision_at (snd (gens_compact c gs)) t = revision_at gs t"
  using assms(1)
proof (induction gs rule: rev_induct)
  case Nil
  then show ?case by simp
next
  case (snoc g gs)
  then have ok: "gens_ok gs" "gen_ok g"
    and sep: "\<forall>h\<in>set gs. \<exists>d. g_tombstone h = Some d \<and> d < g_created g"
    by (auto simp: gens_ok_append)
  from ok(2) show ?case
  proof (cases rule: compact_gen_cases [where c = c])
    case (gone d)
    have "g_created g \<le> d" using ok(2) gone(1) by (auto simp: gen_ok_def gen_events_def)
    moreover from this have "\<forall>h\<in>set gs. \<exists>d. g_tombstone h = Some d \<and> d \<le> c"
      using sep gone(2) by force
    moreover have "latest_at_or_before g t = Some (d, True)"
      using gone assms(2) by (auto simp: latest_at_or_before_last_event [OF ok(2)] gen_events_def
          last_event_def)
    ultimately show ?thesis
      using gone assms(2) ok(1)
      by (auto simp: gens_compact_append gens_compact_gone revision_at_def)
  next
    case (kept g' n)
    have "latest_at_or_before g' t = latest_at_or_before g t"
      using kept assms(2) ok(2) kept_reads(1) [OF ok(2) kept(6,3)]
      by (simp add: latest_at_or_before_last_event)
    moreover have "g_created g' = g_created g" using kept(2) by simp
    ultimately show ?thesis
      using snoc.IH [OF ok(1)] kept(1)
      by (simp add: gens_compact_append revision_at_def split: option.splits)
  qed
qed


lemma gens_compact_tombstone:
  "gens_ok gs \<Longrightarrow> k \<in> set (snd (gens_compact c gs)) \<Longrightarrow> g_tombstone k = Some d \<Longrightarrow> c < d"
proof (induction gs)
  case (Cons g gs)
  then have "gen_ok g" "gens_ok gs" by (auto simp: gens_ok_def)
  from this(1) show ?case
    by (cases rule: compact_gen_cases [where c = c]) (use Cons \<open>gens_ok gs\<close> in auto)
qed simp

text \<open>An event that is kept although it is not above the compacted revision is the one a read at
  that revision finds.\<close>

lemma gens_compact_kept_below:
  assumes "gens_ok gs" "e \<in> set (hist (snd (gens_compact c gs)))" "fst e \<le> c"
  shows "read_hist (hist (snd (gens_compact c gs))) c = Some (fst e)"
  using assms(1,2)
proof (induction gs rule: rev_induct)
  case Nil
  then show ?case by simp
next
  case (snoc g gs)
  then have ok: "gens_ok gs" "gen_ok g"
    and sep: "\<forall>h\<in>set gs. \<exists>d. g_tombstone h = Some d \<and> d < g_created g"
    by (auto simp: gens_ok_append)
  from ok(2) show ?case
  proof (cases rule: compact_gen_cases [where c = c])
    case (gone d)
    have "g_created g \<le> d" using ok(2) gone(1) by (auto simp: gen_ok_def gen_events_def)
    then have "\<forall>h\<in>set gs. \<exists>d. g_tombstone h = Some d \<and> d \<le> c" using sep gone(2) by force
    with ok(1) snoc.prems(2) gone show ?thesis by (simp add: gens_compact_append gens_compact_gone)
  next
    case (kept g' n)
    have h: "hist (snd (gens_compact c (gs @ [g]))) = hist (snd (gens_compact c gs)) @ gen_events g'"
      by (simp add: gens_compact_append kept(1) hist_Cons)
    show ?thesis
    proof (cases "e \<in> set (gen_events g')")
      case True
      then have "last_event (gen_events g') c = Some e \<and> \<not> snd e"
        using kept_reads(2) [OF ok(2) kept(6,3)] kept(4) assms(3) by (metis prod.collapse)
      then show ?thesis by (cases e) (auto simp: h read_hist_def last_event_append)
    next
      case False
      with snoc.prems(2) h have e: "e \<in> set (hist (snd (gens_compact c gs)))" by simp
      then obtain k where k: "k \<in> set (snd (gens_compact c gs))" "e \<in> set (gen_events k)"
        by (auto simp: hist_def)
      then obtain d where d: "g_tombstone k = Some d" "d < g_created g"
        using gens_compact_ok(2) [OF ok(1)] sep by metis
      have "c < d" using gens_compact_tombstone [OF ok(1) k(1) d(1)] .
      then have "\<forall>f\<in>set (gen_events g'). c < fst f"
        using d(2) kept(2,5) by (force simp: gen_ok_def)
      then have "last_event (gen_events g') c = None" by (auto simp: last_event_None)
      with snoc.IH [OF ok(1) e] show ?thesis by (simp add: h read_hist_def last_event_append)
    qed
  qed
qed


lemma gens_compact_dropped_le:
  "gens_ok gs \<Longrightarrow> r \<in> set (fst (gens_compact c gs)) \<Longrightarrow> r \<le> c"
proof (induction gs)
  case (Cons g gs)
  then have ok: "gen_ok g" "gens_ok gs" by (auto simp: gens_ok_def)
  from ok(1) have "r \<le> c" if "r \<in> set (fst (compact_gen c g))"
  proof (cases rule: compact_gen_cases [where c = c])
    case (gone d)
    then have "\<forall>e\<in>set (gen_events g). fst e \<le> d"
      using ok(1) by (auto simp: gen_ok_def gen_events_def sorted_wrt_append)
    with that gone show ?thesis by force
  next
    case (kept g' n)
    with that have "r \<in> set (takeWhile (\<lambda>r. r \<le> c) (g_revs g))"
      by (metis diff_le_self fst_conv set_take_subset_set_take subsetD takeWhile_eq_take)
    then show ?thesis by (auto dest: set_takeWhileD)
  qed
  with Cons ok(2) show ?case by auto
qed simp

text \<open>What a compaction drops is what no read it still allows can reach.\<close>

lemma gens_compact_dropped:
  assumes ok: "gens_ok gs"
  shows "r \<in> set (fst (gens_compact c gs)) \<longleftrightarrow>
    r \<in> fst ` set (hist gs) \<and> r \<le> c \<and> (\<forall>t\<ge>c. revision_at gs t \<noteq> Some r)"
proof -
  let ?d = "fst (gens_compact c gs)" and ?k = "snd (gens_compact c gs)"
  have ok': "gens_ok ?k" using ok by (rule gens_compact_ok)
  then have rd: "revision_at gs t = read_hist (hist ?k) t" if "c \<le> t" for t
    using gens_compact_read [OF ok that] by (simp add: revision_at_read_hist gens_ok_def)
  have part: "set ?d \<union> fst ` set (hist ?k) = fst ` set (hist gs)"
    using gens_compact_partition [of gs c] by (metis list.set_map set_mset_mset set_mset_union)
  have "distinct (?d @ map fst (hist ?k))"
    using gens_compact_partition [of gs c] distinct_hist [OF ok]
    by (metis mset_append mset_eq_imp_distinct_iff)
  then have disj: "set ?d \<inter> fst ` set (hist ?k) = {}" by simp
  have read_kept: "r \<in> fst ` set (hist ?k)" if "read_hist (hist ?k) t = Some r" for t r
    using that by (force simp: read_hist_def split: option.splits if_splits dest: last_event_SomeD)
  have le: "r \<le> c" if "r \<in> set ?d"
    using gens_compact_dropped_le [OF ok that] .
  show ?thesis
  proof
    assume r: "r \<in> set ?d"
    then have "revision_at gs t \<noteq> Some r" if "c \<le> t" for t
      using rd [OF that] read_kept disj by auto
    with r part le [OF r] show "r \<in> fst ` set (hist gs) \<and> r \<le> c \<and> (\<forall>t\<ge>c. revision_at gs t \<noteq> Some r)"
      by blast
  next
    assume r: "r \<in> fst ` set (hist gs) \<and> r \<le> c \<and> (\<forall>t\<ge>c. revision_at gs t \<noteq> Some r)"
    then have "revision_at gs c \<noteq> Some r" by simp
    then have "r \<notin> fst ` set (hist ?k)"
      using r rd [of c] gens_compact_kept_below [OF ok] by auto
    with r part show "r \<in> set ?d" by blast
  qed
qed

text \<open>The quick test agrees with what the compaction does.\<close>

lemma compaction_changes_gen:
  assumes "gen_ok g"
  shows "((case g_tombstone g of Some t \<Rightarrow> t \<le> c | None \<Rightarrow> False) \<or>
      length (g_revs g) \<ge> 2 \<and> g_revs g ! 1 \<le> c) \<longleftrightarrow> fst (compact_gen c g) \<noteq> []"
    and "fst (compact_gen c g) = [] \<Longrightarrow> snd (compact_gen c g) = Some g"
proof -
  have sorted: "sorted_wrt (<) (g_revs g)"
    using assms by (auto simp: gen_ok_def gen_events_def comp_def sorted_wrt_append)
  have two: "length xs \<ge> 2 \<and> xs ! 1 \<le> c \<longleftrightarrow> length (takeWhile (\<lambda>r. r \<le> c) xs) \<ge> 2"
    if "sorted_wrt (<) xs" for xs :: "revision list"
    using that by (cases xs; cases "tl xs") (auto dest: order.strict_trans1)
  from assms show
    "((case g_tombstone g of Some t \<Rightarrow> t \<le> c | None \<Rightarrow> False) \<or>
      length (g_revs g) \<ge> 2 \<and> g_revs g ! 1 \<le> c) \<longleftrightarrow> fst (compact_gen c g) \<noteq> []"
  proof (cases rule: compact_gen_cases [where c = c])
    case gone
    then show ?thesis by (auto simp: gen_events_def)
  next
    case (kept g' n)
    then show ?thesis
      using two [OF sorted] by (auto simp: not_le split: option.splits)
  qed
  from assms show "fst (compact_gen c g) = [] \<Longrightarrow> snd (compact_gen c g) = Some g"
    by (cases rule: compact_gen_cases [where c = c]) (auto simp: gen_events_def)
qed

lemma compaction_changes_Cons:
  assumes "gen_ok g"
  shows "compaction_changes (g # gs) c \<longleftrightarrow> fst (compact_gen c g) \<noteq> [] \<or> compaction_changes gs c"
  using compaction_changes_gen(1) [OF assms] by (simp add: compaction_changes_def)

lemma compaction_changes_iff:
  assumes "gens_ok gs"
  shows "compaction_changes gs c \<longleftrightarrow> fst (gens_compact c gs) \<noteq> []"
    and "\<not> compaction_changes gs c \<Longrightarrow> gens_compact c gs = ([], gs)"
proof -
  have "\<forall>g\<in>set gs. gen_ok g" using assms by (simp add: gens_ok_def)
  then have "(compaction_changes gs c \<longleftrightarrow> fst (gens_compact c gs) \<noteq> []) \<and>
    (\<not> compaction_changes gs c \<longrightarrow> gens_compact c gs = ([], gs))"
  proof (induction gs)
    case Nil
    then show ?case by (simp add: compaction_changes_def)
  next
    case (Cons g gs)
    then have "gen_ok g" by simp
    note this [THEN compaction_changes_Cons] compaction_changes_gen(2) [OF this, of c]
    with Cons show ?case by (cases "compact_gen c g"; cases "gens_compact c gs") (auto simp: gens_compact.simps)
  qed
  then show "compaction_changes gs c \<longleftrightarrow> fst (gens_compact c gs) \<noteq> []"
    and "\<not> compaction_changes gs c \<Longrightarrow> gens_compact c gs = ([], gs)"
    by simp_all
qed

text \<open>The latest revision of a live key survives, so does its being live.\<close>

lemma gens_compact_current:
  assumes "gens_ok gs"
  shows "gens_live (snd (gens_compact c gs)) = gens_live gs"
    and "map_option fst (gens_current (snd (gens_compact c gs))) = map_option fst (gens_current gs)"
proof -
  have *: "gens_live (snd (gens_compact c gs)) = gens_live gs \<and>
    map_option fst (gens_current (snd (gens_compact c gs))) = map_option fst (gens_current gs)"
  proof (cases gs rule: rev_cases)
    case Nil
    then show ?thesis by simp
  next
    case (snoc ys g)
    with assms have ok: "gens_ok ys" "gen_ok g"
      and sep: "\<forall>h\<in>set ys. \<exists>d. g_tombstone h = Some d \<and> d < g_created g"
      by (auto simp: gens_ok_append)
    from ok(2) show ?thesis
    proof (cases rule: compact_gen_cases [where c = c])
      case (gone d)
      have "g_created g \<le> d" using ok(2) gone(1) by (auto simp: gen_ok_def gen_events_def)
      then have "\<forall>h\<in>set ys. \<exists>d. g_tombstone h = Some d \<and> d \<le> c" using sep gone(2) by force
      with ok(1) gone snoc show ?thesis
        by (simp add: gens_compact_append gens_compact_gone gens_live_def gens_current_def is_open_def)
    next
      case (kept g' n)
      have "is_open g \<longrightarrow> drop n (g_revs g) \<noteq> []"
        using kept(2,5) by (auto simp: gen_ok_def gen_events_def is_open_def)
      then show ?thesis
        using snoc kept(1,2)
        by (cases "g_tombstone g")
          (auto simp: gens_compact_append gens_live_def gens_current_def is_open_def last_drop)
    qed
  qed
  then show "gens_live (snd (gens_compact c gs)) = gens_live gs"
    and "map_option fst (gens_current (snd (gens_compact c gs))) = map_option fst (gens_current gs)"
    by simp_all
qed


section \<open>The index implements the event log\<close>

text \<open>The simulation: the index is well-formed and below the next revision, agrees with the log
  on every read from the floor up, and is live exactly when the log ends in a put.\<close>

definition ki_sim :: "revision \<Rightarrow> revision \<Rightarrow> key_index \<Rightarrow> (revision \<times> bool) list \<Rightarrow> bool" where
  "ki_sim b f ki es \<longleftrightarrow>
     gens_ok (i_generations ki) \<and> (\<forall>e\<in>set (hist (i_generations ki)). fst e \<le> b) \<and>
     (\<forall>t\<ge>f. revision_at (i_generations ki) t = read_hist es t) \<and>
     is_live ki = (es \<noteq> [] \<and> \<not> snd (last es))"

lemma read_hist_snoc:
  "read_hist (es @ [(r, d)]) t = (if r \<le> t then (if d then None else Some r) else read_hist es t)"
  by (simp add: read_hist_def last_event_append) (simp add: last_event_def)

lemma record_put_gens: "i_generations (fst (record_put ki r)) = fst (gens_put (i_generations ki) r)"
  by (simp add: record_put_def split_def Let_def)

lemma record_delete_gens:
  "i_generations (fst (record_delete ki r)) = fst (gens_delete (i_generations ki) r)"
  by (simp add: record_delete_def split_def Let_def)

lemma ki_compact_gens:
  "i_generations (fst (ki_compact ki c)) = snd (gens_compact c (i_generations ki))"
  "snd (ki_compact ki c) = fst (gens_compact c (i_generations ki))"
  by (simp_all add: ki_compact_def split_def Let_def)

lemma gens_ok_read: "gens_ok gs \<Longrightarrow> revision_at gs t = read_hist (hist gs) t"
  by (simp add: revision_at_read_hist gens_ok_def)

lemma ki_sim_put:
  assumes "ki_sim b f ki es" "b < r"
  shows "ki_sim r f (fst (record_put ki r)) (es @ [(r, False)])"
proof -
  let ?gs = "i_generations ki"
  have below: "gens_below ?gs r" using assms by (auto simp: ki_sim_def gens_below_def)
  then have ok: "gens_ok (fst (gens_put ?gs r))" using assms(1) by (simp add: ki_sim_def gens_put_ok)
  then show ?thesis
    using assms below
    by (auto simp: ki_sim_def record_put_gens is_live_def gens_ok_read read_hist_snoc gens_below_def)
qed

lemma ki_sim_delete:
  assumes "ki_sim b f ki es" "b < r"
  shows "ki_sim r f (fst (record_delete ki r)) (log_step es (KiDelete r))"
proof (cases "gens_live (i_generations ki)")
  case True
  let ?gs = "i_generations ki"
  have below: "gens_below ?gs r" using assms by (auto simp: ki_sim_def gens_below_def)
  then have ok: "gens_ok (fst (gens_delete ?gs r))" using assms(1) by (simp add: ki_sim_def gens_delete_ok)
  then show ?thesis
    using assms below True
    by (auto simp: ki_sim_def record_delete_gens is_live_def gens_ok_read read_hist_snoc
        gens_below_def hist_gens_delete)
next
  case False
  then show ?thesis
    using assms by (auto simp: ki_sim_def record_delete_gens gens_delete_dead is_live_def)
qed

lemma ki_sim_compact:
  assumes "ki_sim b f ki es"
  shows "ki_sim b (max f c) (fst (ki_compact ki c)) es"
proof -
  let ?gs = "i_generations ki"
  have ok: "gens_ok ?gs" using assms by (simp add: ki_sim_def)
  have "fst ` set (hist (snd (gens_compact c ?gs))) \<subseteq> fst ` set (hist ?gs)"
    using gens_compact_partition [of ?gs c] by (metis list.set_map mset_subset_eq_add_right set_mset_mono set_mset_mset)
  then show ?thesis
    using assms gens_compact_ok(1) [OF ok] gens_compact_read [OF ok] gens_compact_current(1) [OF ok]
    by (fastforce simp: ki_sim_def ki_compact_gens is_live_def)
qed

lemma ki_sim_run:
  "ki_sim b f ki es \<Longrightarrow> ops_ascend b ops \<Longrightarrow>
   \<exists>b'. ki_sim b' (ops_floor f ops) (foldl ki_step ki ops) (foldl log_step es ops)"
proof (induction ops arbitrary: b f ki es)
  case Nil
  then show ?case by (auto simp: ops_floor_def)
next
  case (Cons op ops)
  then show ?case
  proof (cases op)
    case (KiPut r)
    with Cons.prems Cons.IH [OF ki_sim_put] show ?thesis by (simp add: ops_floor_def)
  next
    case (KiDelete r)
    with Cons.prems Cons.IH [OF ki_sim_delete] show ?thesis by (simp add: ops_floor_def)
  next
    case (KiCompact c)
    with Cons.prems Cons.IH [OF ki_sim_compact] show ?thesis by (simp add: ops_floor_def)
  qed
qed

text \<open>C16: Start from the empty index of a key and run any sequence of puts, deletes (of a live
  or of an absent key) and compactions, the writes at ascending revisions. Then a read at any
  revision not below the highest compaction returns what the plain log of the key's events
  says: the last event at or before it if that is a put, and nothing otherwise; and the index
  calls the key live exactly when the log ends in a put.\<close>

theorem index_refines_log:
  assumes "ops_ascend b ops" "ki = foldl ki_step (ki_new k) ops" "es = foldl log_step [] ops"
    and "ops_floor f ops \<le> t"
  shows "revision_at (i_generations ki) t = read_hist es t \<and>
    is_live ki = (es \<noteq> [] \<and> \<not> snd (last es))"
proof -
  have "ki_sim b f (ki_new k) []"
    by (simp add: ki_sim_def ki_new_def revision_at_def read_hist_def last_event_def is_live_def gens_live_def)
  then obtain b' where "ki_sim b' (ops_floor f ops) ki es"
    using ki_sim_run assms by blast
  with assms(4) show ?thesis by (simp add: ki_sim_def)
qed

theorem index_refines_log_witness:
  "let ops = [KiPut (Revision 2 0), KiPut (Revision 3 0), KiCompact (Revision 3 0),
              KiDelete (Revision 4 0), KiPut (Revision 5 0)];
       ki = foldl ki_step (ki_new [97]) ops
   in revision_at (i_generations ki) (Revision 3 0) = Some (Revision 3 0) \<and>
      revision_at (i_generations ki) (Revision 4 0) = None \<and>
      revision_at (i_generations ki) (Revision 5 7) = Some (Revision 5 0) \<and> is_live ki"
  using index_refines_log [of "Revision 0 0"
      "[KiPut (Revision 2 0), KiPut (Revision 3 0), KiCompact (Revision 3 0),
        KiDelete (Revision 4 0), KiPut (Revision 5 0)]" _ "[97]" _ "Revision 0 0" "Revision 3 0"]
    index_refines_log [of "Revision 0 0"
      "[KiPut (Revision 2 0), KiPut (Revision 3 0), KiCompact (Revision 3 0),
        KiDelete (Revision 4 0), KiPut (Revision 5 0)]" _ "[97]" _ "Revision 0 0" "Revision 4 0"]
    index_refines_log [of "Revision 0 0"
      "[KiPut (Revision 2 0), KiPut (Revision 3 0), KiCompact (Revision 3 0),
        KiDelete (Revision 4 0), KiPut (Revision 5 0)]" _ "[97]" _ "Revision 0 0" "Revision 5 7"]
  by (simp add: Let_def ops_floor_def max_def less_eq_revision_def less_revision_def read_hist_def last_event_def)

text \<open>C17: Compacting a key at \<open>c\<close> drops exactly the revisions no permitted read can still reach:
  the key's own puts and tombstones at or below \<open>c\<close> that no read at \<open>c\<close> or above returns.
  Reads at or above \<open>c\<close> are unchanged, so are the latest revision and whether the key is live,
  and what remains is well-formed.\<close>

theorem compaction_exact:
  assumes "gens_ok (i_generations ki)" "ki_compact ki c = (ki', dropped)"
  shows "gens_ok (i_generations ki') \<and> i_key ki' = i_key ki \<and> is_live ki' = is_live ki \<and>
    map_option fst (current ki') = map_option fst (current ki) \<and>
    (\<forall>t\<ge>c. revision_at (i_generations ki') t = revision_at (i_generations ki) t) \<and>
    set dropped = {r \<in> fst ` set (hist (i_generations ki)). r \<le> c \<and>
      (\<forall>t\<ge>c. revision_at (i_generations ki) t \<noteq> Some r)} \<and>
    distinct (dropped @ map fst (hist (i_generations ki')))"
proof -
  let ?gs = "i_generations ki"
  have eq: "i_generations ki' = snd (gens_compact c ?gs)" "dropped = fst (gens_compact c ?gs)"
    and key: "i_key ki' = i_key ki"
    using assms(2) by (auto simp: ki_compact_def split: prod.splits)
  have "distinct (dropped @ map fst (hist (i_generations ki')))"
    using gens_compact_partition [of ?gs c] distinct_hist [OF assms(1)]
    by (metis eq mset_append mset_eq_imp_distinct_iff)
  moreover have "set dropped = {r \<in> fst ` set (hist ?gs). r \<le> c \<and>
      (\<forall>t\<ge>c. revision_at ?gs t \<noteq> Some r)}"
    unfolding eq by (rule set_eqI) (simp only: gens_compact_dropped [OF assms(1)] mem_Collect_eq)
  ultimately show ?thesis
    using gens_compact_ok(1) [OF assms(1)] gens_compact_current [OF assms(1)]
      gens_compact_read [OF assms(1)]
    by (simp add: eq key is_live_def current_def del: distinct_append)
qed

text \<open>The index the witnesses below use: three puts, a delete, and a new generation.\<close>

definition sample_index :: key_index where
  "sample_index = \<lparr>i_key = [97], i_generations =
     [\<lparr>g_created = Revision 1 0, g_revs = [Revision 1 0, Revision 2 0, Revision 3 0],
       g_tombstone = Some (Revision 6 0)\<rparr>,
      \<lparr>g_created = Revision 8 0, g_revs = [Revision 8 0], g_tombstone = None\<rparr>]\<rparr>"

lemma sample_index_ok: "gens_ok (i_generations sample_index)"
  by (simp add: sample_index_def gens_ok_def gen_ok_def gen_events_def)

theorem compaction_exact_witness:
  "set (snd (ki_compact sample_index (Revision 3 9))) = {Revision 1 0, Revision 2 0} \<and>
   Revision 3 0 \<notin> {r \<in> fst ` set (hist (i_generations sample_index)). r \<le> Revision 3 9 \<and>
      (\<forall>t\<ge>Revision 3 9. revision_at (i_generations sample_index) t \<noteq> Some r)}"
proof -
  obtain ki' d where *: "ki_compact sample_index (Revision 3 9) = (ki', d)" by fastforce
  then have d: "set d = {Revision 1 0, Revision 2 0}"
    by (auto simp: ki_compact_def sample_index_def compact_gen_def gens_compact.simps)
  note compaction_exact [OF sample_index_ok *, THEN conjunct2, THEN conjunct2, THEN conjunct2,
      THEN conjunct2, THEN conjunct2, THEN conjunct1]
  from this [symmetric] show ?thesis by (simp add: * d)
qed

text \<open>C18: The quick test the store runs before it rewrites a key's index agrees with the compaction
  itself: it answers yes exactly when the compaction drops a revision, and when it answers no
  the compaction would have left the index as it is.\<close>

theorem compaction_changes_exact:
  assumes "gens_ok (i_generations ki)"
  shows "(compaction_changes (i_generations ki) c \<longleftrightarrow> snd (ki_compact ki c) \<noteq> []) \<and>
    (snd (ki_compact ki c) = [] \<longleftrightarrow> ki_compact ki c = (ki, []))"
  using compaction_changes_iff [OF assms, of c]
  by (auto simp: ki_compact_def split: prod.splits)

theorem compaction_changes_exact_witness:
  "compaction_changes (i_generations sample_index) (Revision 2 0) \<and>
   ki_compact sample_index (Revision 2 0) \<noteq> (sample_index, []) \<and>
   ki_compact sample_index (Revision 1 7) = (sample_index, [])"
  using compaction_changes_exact [OF sample_index_ok, of "Revision 2 0"]
    compaction_changes_exact [OF sample_index_ok, of "Revision 1 7"]
  by (auto simp: compaction_changes_def sample_index_def)

lemma takeWhile_filter_sorted:
  fixes c :: "'a::linorder"
  shows "sorted_wrt (<) rs \<Longrightarrow> takeWhile (\<lambda>r. r \<le> c) rs = filter (\<lambda>r. r \<le> c) rs"
  by (induction rs) (fastforce intro!: filter_False [symmetric])+

text \<open>What a compaction makes of the open generation: it keeps its creation and loses the puts at or
  below the compacted revision but for the newest of them.\<close>

lemma gens_compact_last_open:
  assumes "gens_ok gs" "gens_live gs"
  shows "gens_live (snd (gens_compact c gs)) \<and>
    last (snd (gens_compact c gs)) =
      (last gs)\<lparr>g_revs := drop (length (filter (\<lambda>r. r \<le> c) (g_revs (last gs))) - 1) (g_revs (last gs))\<rparr>"
proof -
  obtain gs0 g where gs: "gs = gs0 @ [g]" "g_tombstone g = None" "gen_ok g"
    using assms by (cases gs rule: rev_cases) (auto simp: gens_live_def is_open_def gens_ok_def)
  have sorted: "sorted_wrt (<) (g_revs g)" using gs(2,3) by (simp add: gen_ok_def gen_events_def comp_def)
  from gs(3) show ?thesis
  proof (cases rule: compact_gen_cases [where c = c])
    case (gone t)
    then show ?thesis using gs(2) by simp
  next
    case (kept g' n)
    then show ?thesis
      using gs takeWhile_filter_sorted [OF sorted] by (simp add: gens_compact_append gens_live_def is_open_def)
  qed
qed

text \<open>C32: The version a put reports counts the puts of the open generation that the index still
  holds, so a compaction sets it back: after a compaction, the next put of a live key reports a
  version smaller by the number of puts the compaction dropped from the open generation, those at
  or below the compacted revision but the newest, while the creation revision it reports is the
  same. As soon as one is dropped, the put repeats a version its generation has had.\<close>

theorem version_restarts_after_compaction:
  assumes "gens_ok (i_generations ki)" "is_live ki"
    and "n = length (filter (\<lambda>r. r \<le> c) (g_revs (last (i_generations ki)))) - 1"
  shows "fst (snd (record_put (fst (ki_compact ki c)) rv)) = fst (snd (record_put ki rv)) - int n \<and>
    snd (snd (record_put (fst (ki_compact ki c)) rv)) = snd (snd (record_put ki rv)) \<and>
    (0 < n \<longrightarrow> fst (snd (record_put (fst (ki_compact ki c)) rv)) \<le> int (length (g_revs (last (i_generations ki)))))"
proof -
  let ?gs = "i_generations ki"
  have live: "?gs \<noteq> []" "is_open (last ?gs)" using assms(2) by (auto simp: is_live_def gens_live_def)
  note last = gens_compact_last_open [OF assms(1) assms(2) [unfolded is_live_def], of c]
  have "n \<le> length (g_revs (last ?gs))"
    using assms(3) length_filter_le [of "\<lambda>r. r \<le> c" "g_revs (last ?gs)"] by linarith
  with live last assms(3) show ?thesis
    by (auto simp: record_put_def gens_put_def ki_compact_gens gens_live_def Let_def split_def)
qed

theorem version_restarts_after_compaction_witness:
  "let ki = \<lparr>i_key = [97], i_generations =
     [\<lparr>g_created = Revision 1 0, g_revs = [Revision 1 0, Revision 2 0, Revision 3 0], g_tombstone = None\<rparr>]\<rparr> in
   fst (snd (record_put ki (Revision 4 0))) = 4 \<and>
   fst (snd (record_put (fst (ki_compact ki (Revision 3 0))) (Revision 4 0))) = 2"
proof -
  let ?ki = "\<lparr>i_key = [97], i_generations =
     [\<lparr>g_created = Revision 1 0, g_revs = [Revision 1 0, Revision 2 0, Revision 3 0], g_tombstone = None\<rparr>]\<rparr>"
  have "gens_ok (i_generations ?ki)" "is_live ?ki"
    by (simp_all add: gens_ok_def gen_ok_def gen_events_def is_live_def gens_live_def is_open_def)
  note v = version_restarts_after_compaction [OF this refl, of "Revision 3 0" "Revision 4 0"]
  have "fst (snd (record_put ?ki (Revision 4 0))) = 4" by (simp add: record_put_def gens_put_def is_open_def)
  with v show ?thesis by (simp add: Let_def)
qed

end
