(* ===== verification/Kv_Store.thy ===== *)
theory Kv_Store
  imports Prelude
begin

text \<open>
  The storage engine interface, \<^verbatim>\<open>crates/storage/src/kvstore.rs\<close>: write batches, range bounds,
  and what a snapshot answers. \<open>apply_ops\<close> is the meaning of a batch on the tables (the
  operations of \<^verbatim>\<open>redb_engine.rs\<close>'s \<^verbatim>\<open>apply_op\<close>). The locale \<open>kv_store\<close> is the contract of
  the \<^verbatim>\<open>KvStore\<close> and \<^verbatim>\<open>Snapshot\<close> traits that the layers above rely on.
\<close>

section \<open>Bounds and batches\<close>

datatype 'a bound = Included 'a | Excluded 'a | Unbounded

fun above :: "'a::linorder bound \<Rightarrow> 'a \<Rightarrow> bool" where
  "above (Included s) k \<longleftrightarrow> s \<le> k"
| "above (Excluded s) k \<longleftrightarrow> s < k"
| "above Unbounded k \<longleftrightarrow> True"

fun below :: "'a::linorder bound \<Rightarrow> 'a \<Rightarrow> bool" where
  "below (Included e) k \<longleftrightarrow> k \<le> e"
| "below (Excluded e) k \<longleftrightarrow> k < e"
| "below Unbounded k \<longleftrightarrow> True"

definition in_bounds :: "'a::linorder \<Rightarrow> 'a bound \<Rightarrow> 'a bound \<Rightarrow> bool" where
  "in_bounds k lo hi \<longleftrightarrow> above lo k \<and> below hi k"

datatype batch_op =
    Put string bytes bytes
  | Delete string bytes
  | DeleteRange string bytes bytes

type_synonym write_batch = "batch_op list"

text \<open>A table that was never written is an empty one.\<close>

type_synonym tables = "string \<Rightarrow> (bytes, bytes) fmap"

definition in_span :: "bytes \<Rightarrow> bytes \<Rightarrow> bytes \<Rightarrow> bool" where
  "in_span s e k \<longleftrightarrow> s \<le> k \<and> k < e"

fun apply_op :: "tables \<Rightarrow> batch_op \<Rightarrow> tables" where
  "apply_op T (Put t k v) = T(t := fmupd k v (T t))"
| "apply_op T (Delete t k) = T(t := fmdrop k (T t))"
| "apply_op T (DeleteRange t s e) = T(t := fmfilter (\<lambda>k. \<not> in_span s e k) (T t))"

definition apply_ops :: "tables \<Rightarrow> write_batch \<Rightarrow> tables" where
  "apply_ops T b = foldl apply_op T b"

definition no_tables :: tables where
  "no_tables = (\<lambda>_. fmempty)"

section \<open>Snapshots\<close>

definition limited :: "nat \<Rightarrow> 'a list \<Rightarrow> 'a list" where
  "limited n xs = (if n = 0 then xs else take n xs)"

definition snap_get :: "tables \<Rightarrow> string \<Rightarrow> bytes \<Rightarrow> bytes option" where
  "snap_get T t k = fmlookup (T t) k"

definition rows_in :: "('k::linorder, 'v) fmap \<Rightarrow> 'k bound \<Rightarrow> 'k bound \<Rightarrow> ('k \<times> 'v) list" where
  "rows_in m lo hi = filter (\<lambda>p. in_bounds (fst p) lo hi) (sorted_list_of_fmap m)"

definition snap_range ::
  "tables \<Rightarrow> string \<Rightarrow> bytes bound \<Rightarrow> bytes bound \<Rightarrow> nat \<Rightarrow> (bytes \<times> bytes) list" where
  "snap_range T t lo hi limit = limited limit (rows_in (T t) lo hi)"

definition snap_count :: "tables \<Rightarrow> string \<Rightarrow> bytes bound \<Rightarrow> bytes bound \<Rightarrow> nat" where
  "snap_count T t lo hi = length (rows_in (T t) lo hi)"

definition last_opt :: "'a list \<Rightarrow> 'a option" where
  "last_opt xs = (if xs = [] then None else Some (last xs))"

definition snap_last :: "tables \<Rightarrow> string \<Rightarrow> (bytes \<times> bytes) option" where
  "snap_last T t = last_opt (snap_range T t Unbounded Unbounded 0)"

text \<open>How much a defragment could return, \<^verbatim>\<open>StoreUsage::reclaimable_bytes\<close>.\<close>

record store_usage =
  file_bytes :: nat
  in_use_bytes :: nat
  fragmented_bytes :: nat

definition reclaimable_bytes :: "store_usage \<Rightarrow> nat" where
  "reclaimable_bytes u = file_bytes u - in_use_bytes u"

section \<open>Laws of batches and rows\<close>

lemma apply_ops_Nil [simp]: "apply_ops T [] = T"
  by (simp add: apply_ops_def)

lemma apply_ops_Cons [simp]: "apply_ops T (op # b) = apply_ops (apply_op T op) b"
  by (simp add: apply_ops_def)

lemma apply_ops_append [simp]: "apply_ops T (a @ b) = apply_ops (apply_ops T a) b"
  by (simp add: apply_ops_def)

lemma rows_in_lookup [simp]:
  "(k, v) \<in> set (rows_in m lo hi) \<longleftrightarrow> fmlookup m k = Some v \<and> in_bounds k lo hi"
  by (auto simp: rows_in_def)

lemma sorted_keys_rows_in [simp]: "sorted_keys (rows_in m lo hi)"
  by (simp add: rows_in_def)

lemma rows_in_unbounded [simp]: "rows_in m Unbounded Unbounded = sorted_list_of_fmap m"
  by (simp add: rows_in_def in_bounds_def)

text \<open>Rows are determined by their lookups.\<close>

lemma map_of_rows_in:
  "map_of (rows_in m lo hi) k = (if in_bounds k lo hi then fmlookup m k else None)"
proof -
  have "map_of (rows_in m lo hi) k = Some v \<longleftrightarrow> fmlookup m k = Some v \<and> in_bounds k lo hi" for v
    by (simp add: sorted_keys_map_of)
  then show ?thesis by (metis option.exhaust)
qed

lemma rows_in_eqI:
  assumes "sorted_keys ps"
    and "\<And>k v. (k, v) \<in> set ps \<longleftrightarrow> fmlookup m k = Some v \<and> in_bounds k lo hi"
  shows "rows_in m lo hi = ps"
proof (rule sorted_keys_unique)
  show "map_of (rows_in m lo hi) = map_of ps"
  proof
    fix k
    have "map_of ps k = Some v \<longleftrightarrow> map_of (rows_in m lo hi) k = Some v" for v
      using assms by (simp add: sorted_keys_map_of)
    then show "map_of (rows_in m lo hi) k = map_of ps k" by (metis option.exhaust)
  qed
qed (simp_all add: assms(1))

lemma rows_in_cong:
  "(\<And>k. in_bounds k lo hi \<Longrightarrow> fmlookup m k = fmlookup m' k) \<Longrightarrow> rows_in m lo hi = rows_in m' lo hi"
  by (rule rows_in_eqI) auto

text \<open>Reading on after the last key of a page reads the rest.\<close>

lemma rows_after:
  assumes "rows_in m lo hi = pre @ (k, x) # post"
  shows "rows_in m (Excluded k) hi = post"
proof (rule rows_in_eqI)
  have sorted: "sorted_keys (pre @ (k, x) # post)" using sorted_keys_rows_in [of m lo hi] assms by simp
  then show "sorted_keys post" by (simp add: sorted_keys_def sorted_wrt_append)
  fix j v
  have lo: "above lo k" using assms rows_in_lookup [of k x m lo hi] by (simp add: in_bounds_def)
  have "(j, v) \<in> set post \<longleftrightarrow> (j, v) \<in> set (rows_in m lo hi) \<and> k < j"
    using sorted unfolding assms by (auto simp: sorted_keys_def sorted_wrt_append)
  also have "\<dots> \<longleftrightarrow> fmlookup m j = Some v \<and> in_bounds j (Excluded k) hi"
    using lo by (cases lo) (auto simp: in_bounds_def)
  finally show "(j, v) \<in> set post \<longleftrightarrow> fmlookup m j = Some v \<and> in_bounds j (Excluded k) hi" .
qed

lemma next_page:
  assumes "rows = limited page (rows_in m lo hi)" "page > 0" "page \<le> length rows"
  shows "rows_in m lo hi = rows @ rows_in m (Excluded (fst (last rows))) hi" "rows \<noteq> []"
proof -
  show ne: "rows \<noteq> []" using assms(2,3) by auto
  have r: "rows = take page (rows_in m lo hi)" using assms by (simp add: limited_def)
  have "rows_in m lo hi = butlast rows @ (fst (last rows), snd (last rows)) # drop page (rows_in m lo hi)"
    using append_take_drop_id [of page "rows_in m lo hi"] append_butlast_last_id [OF ne] r
    by (metis append.assoc append_Cons append_Nil prod.collapse)
  from rows_after [OF this] show "rows_in m lo hi = rows @ rows_in m (Excluded (fst (last rows))) hi"
    using append_take_drop_id [of page "rows_in m lo hi"] r by simp
qed

lemma snap_last_max:
  "snap_last T t = Some (k, v) \<longleftrightarrow> fmlookup (T t) k = Some v \<and> (\<forall>k'\<in>fset (fmdom (T t)). k' \<le> k)"
  using sorted_keys_last [OF sorted_keys_sorted_list_of_fmap, of "T t" k v]
  by (auto simp: snap_last_def snap_range_def limited_def last_opt_def fmlookup_dom_iff
      ball_sorted_list_of_fmap)

section \<open>The contract of an engine\<close>

text \<open>\<open>tables_of\<close> is what a snapshot taken now would see; \<open>commit b True\<close> is a durable
  commit. The reads are those of a snapshot taken of the given state, so a snapshot is the
  state it was taken of: what is committed later cannot show in it.\<close>

locale kv_store =
  fixes inv :: "'s \<Rightarrow> bool"
    and tables_of :: "'s \<Rightarrow> tables"
    and commit :: "write_batch \<Rightarrow> bool \<Rightarrow> 's \<Rightarrow> 's"
    and sync :: "'s \<Rightarrow> 's"
    and get :: "'s \<Rightarrow> string \<Rightarrow> bytes \<Rightarrow> bytes option"
    and range :: "'s \<Rightarrow> string \<Rightarrow> bytes bound \<Rightarrow> bytes bound \<Rightarrow> nat \<Rightarrow> (bytes \<times> bytes) list"
    and count :: "'s \<Rightarrow> string \<Rightarrow> bytes bound \<Rightarrow> bytes bound \<Rightarrow> nat"
    and last_row :: "'s \<Rightarrow> string \<Rightarrow> (bytes \<times> bytes) option"
  assumes commit_inv: "inv s \<Longrightarrow> inv (commit b d s)"
    and sync_inv: "inv s \<Longrightarrow> inv (sync s)"
    and commit_tables: "inv s \<Longrightarrow> tables_of (commit b d s) = apply_ops (tables_of s) b"
    and sync_tables: "inv s \<Longrightarrow> tables_of (sync s) = tables_of s"
    and get_tables: "inv s \<Longrightarrow> get s t k = snap_get (tables_of s) t k"
    and range_tables: "inv s \<Longrightarrow> range s t lo hi n = snap_range (tables_of s) t lo hi n"
    and count_tables: "inv s \<Longrightarrow> count s t lo hi = snap_count (tables_of s) t lo hi"
    and last_tables: "inv s \<Longrightarrow> last_row s t = snap_last (tables_of s) t"
begin

text \<open>A run of commits is one commit of the concatenated batches.\<close>

lemma commits_inv: "inv s \<Longrightarrow> inv (fold (\<lambda>(b, d). commit b d) bs s)"
  by (induction bs arbitrary: s) (auto simp: commit_inv)

lemma commits_tables:
  "inv s \<Longrightarrow> tables_of (fold (\<lambda>(b, d). commit b d) bs s) =
     apply_ops (tables_of s) (concat (map fst bs))"
  by (induction bs arbitrary: s) (auto simp: commit_inv commit_tables)

lemma get_after_put:
  "inv s \<Longrightarrow> get (commit (b @ [Put t k v]) d s) t k = Some v"
  by (simp add: get_tables commit_inv commit_tables snap_get_def)

lemma get_after_delete_range:
  "inv s \<Longrightarrow> get (commit (b @ [DeleteRange t lo hi]) d s) t k =
     (if in_span lo hi k then None else get (commit b d s) t k)"
  by (simp add: get_tables commit_inv commit_tables snap_get_def)

text \<open>A paged scan reads what one scan reads: the next page starts after the last key.\<close>

lemma range_get:
  "inv s \<Longrightarrow> (k, v) \<in> set (range s t lo hi 0) \<longleftrightarrow> get s t k = Some v \<and> in_bounds k lo hi"
  by (simp add: range_tables get_tables snap_range_def snap_get_def limited_def)

lemma count_range: "inv s \<Longrightarrow> count s t lo hi = length (range s t lo hi 0)"
  by (simp add: range_tables count_tables snap_range_def snap_count_def limited_def)

lemma last_range: "inv s \<Longrightarrow> last_row s t = last_opt (range s t Unbounded Unbounded 0)"
  by (simp add: range_tables last_tables snap_last_def)

end

end
