(* ===== verification/Redb_Engine.thy ===== *)
theory Redb_Engine
  imports Kv_Store
begin

text \<open>
  The redb engine, \<^verbatim>\<open>crates/storage/src/redb_engine.rs\<close>. redb itself is not part of the
  repository; what the engine relies on of it is written out: a write transaction applies its
  operations atomically, a durable commit makes every commit before it durable, and a crash
  reopens the file at the last durable commit.

  The online rewrite (copy the tables into a new file while commits go on, apply the captured
  commits to it, switch) is a step relation; the switch is shown to lose and to invent nothing.
\<close>

section \<open>Commits\<close>

record capture =
  c_ops :: write_batch
  c_bytes :: nat
  c_abandoned :: "string option"

definition capture_default :: capture where
  "capture_default = \<lparr>c_ops = [], c_bytes = 0, c_abandoned = None\<rparr>"

definition CAPTURE_MAX_BYTES :: nat where
  "CAPTURE_MAX_BYTES = 256 * 2 ^ 20"

definition REWRITE_CHUNK_BYTES :: nat where
  "REWRITE_CHUNK_BYTES = 4 * 2 ^ 20"

fun op_bytes :: "batch_op \<Rightarrow> nat" where
  "op_bytes (Put t k v) = length t + length k + length v"
| "op_bytes (Delete t k) = length t + length k"
| "op_bytes (DeleteRange t s e) = length t + length s + length e"

definition capture_abandon :: "string \<Rightarrow> capture \<Rightarrow> capture" where
  "capture_abandon why c =
     c\<lparr>c_abandoned := (case c_abandoned c of None \<Rightarrow> Some why | Some w \<Rightarrow> Some w), c_ops := []\<rparr>"

definition capture_push :: "write_batch \<Rightarrow> capture \<Rightarrow> capture" where
  "capture_push ops c =
     (if c_abandoned c \<noteq> None then c
      else let c = c\<lparr>c_bytes := c_bytes c + sum_list (map op_bytes ops)\<rparr> in
        if c_bytes c > CAPTURE_MAX_BYTES
        then capture_abandon ''more than 256 MiB written during the copy'' c
        else c\<lparr>c_ops := c_ops c @ ops\<rparr>)"

text \<open>The engine: what is committed, what a crash would come back to, and the capture of a
  rewrite in progress.\<close>

record redb =
  rb_db :: tables
  rb_disk :: tables
  rb_capture :: "capture option"

definition redb_commit :: "write_batch \<Rightarrow> bool \<Rightarrow> redb \<Rightarrow> redb" where
  "redb_commit b durable r =
     (let T = apply_ops (rb_db r) b in
      r\<lparr>rb_db := T, rb_disk := (if durable then T else rb_disk r),
        rb_capture := map_option (capture_push b) (rb_capture r)\<rparr>)"

text \<open>A streamed commit: an error in the stream drops the transaction.\<close>

fun stream_ops :: "('e + batch_op) list \<Rightarrow> 'e + write_batch" where
  "stream_ops [] = Inr []"
| "stream_ops (Inl e # _) = Inl e"
| "stream_ops (Inr op # rest) = bind_res (stream_ops rest) (\<lambda>ops. Inr (op # ops))"

definition redb_commit_stream ::
  "('e + batch_op) list \<Rightarrow> bool \<Rightarrow> redb \<Rightarrow> ('e + unit) \<times> redb" where
  "redb_commit_stream str durable r =
     (case stream_ops str of
        Inl e \<Rightarrow> (Inl e, r)
      | Inr b \<Rightarrow>
          let T = apply_ops (rb_db r) b in
          (Inr (), r\<lparr>rb_db := T, rb_disk := (if durable then T else rb_disk r),
             rb_capture := map_option
               (capture_abandon ''a raft snapshot was installed during the copy'') (rb_capture r)\<rparr>))"

definition redb_sync :: "redb \<Rightarrow> redb" where
  "redb_sync r = r\<lparr>rb_disk := rb_db r\<rparr>"

definition redb_crash :: "redb \<Rightarrow> redb" where
  "redb_crash r = r\<lparr>rb_db := rb_disk r, rb_capture := None\<rparr>"

definition redb_get :: "redb \<Rightarrow> string \<Rightarrow> bytes \<Rightarrow> bytes option" where
  "redb_get r = snap_get (rb_db r)"

definition redb_range ::
  "redb \<Rightarrow> string \<Rightarrow> bytes bound \<Rightarrow> bytes bound \<Rightarrow> nat \<Rightarrow> (bytes \<times> bytes) list" where
  "redb_range r = snap_range (rb_db r)"

definition redb_count :: "redb \<Rightarrow> string \<Rightarrow> bytes bound \<Rightarrow> bytes bound \<Rightarrow> nat" where
  "redb_count r = snap_count (rb_db r)"

definition redb_last :: "redb \<Rightarrow> string \<Rightarrow> (bytes \<times> bytes) option" where
  "redb_last r = snap_last (rb_db r)"

section \<open>The online rewrite\<close>

text \<open>A rewrite in progress: the live engine, the rows of the read transaction still to be
  copied (table by table, in key order), and the new file.\<close>

record rewrite =
  rw_redb :: redb
  rw_todo :: "(string \<times> (bytes \<times> bytes) list) list"
  rw_new :: tables

definition rewrite_start :: "string list \<Rightarrow> redb \<Rightarrow> rewrite" where
  "rewrite_start names r =
     \<lparr>rw_redb = r\<lparr>rb_capture := Some capture_default\<rparr>,
      rw_todo = map (\<lambda>n. (n, sorted_list_of_fmap (rb_db r n))) names,
      rw_new = no_tables\<rparr>"

text \<open>The rows of one chunk: rows are taken until they reach the chunk size, the row that
  reaches it included.\<close>

fun take_chunk :: "nat \<Rightarrow> (bytes \<times> bytes) list \<Rightarrow> (bytes \<times> bytes) list \<times> (bytes \<times> bytes) list" where
  "take_chunk n [] = ([], [])"
| "take_chunk n ((k, v) # rows) =
     (let n = n + (length k + length v) in
      if n \<ge> REWRITE_CHUNK_BYTES then ([(k, v)], rows)
      else let (c, rest) = take_chunk n rows in ((k, v) # c, rest))"

definition insert_rows :: "string \<Rightarrow> (bytes \<times> bytes) list \<Rightarrow> tables \<Rightarrow> tables" where
  "insert_rows t rows T = apply_ops T (map (\<lambda>(k, v). Put t k v) rows)"

definition copy_chunk :: "rewrite \<Rightarrow> string + rewrite" where
  "copy_chunk w =
     (case rw_todo w of
        [] \<Rightarrow> Inr w
      | (t, rows) # others \<Rightarrow>
          let (c, rest) = take_chunk 0 rows;
              w' = w\<lparr>rw_new := insert_rows t c (rw_new w),
                     rw_todo := (if rest = [] then others else (t, rest) # others)\<rparr>
          in (case Option.bind (rb_capture (rw_redb w)) c_abandoned of
                Some why \<Rightarrow> Inl (''rewrite abandoned: '' @ why)
              | None \<Rightarrow> Inr w'))"

definition take_capture :: "redb \<Rightarrow> string + (write_batch \<times> nat \<times> redb)" where
  "take_capture r =
     (case rb_capture r of
        None \<Rightarrow> Inl ''rewrite: no capture''
      | Some c \<Rightarrow>
          (case c_abandoned c of
             Some why \<Rightarrow> Inl (''rewrite abandoned: '' @ why)
           | None \<Rightarrow> Inr (c_ops c, c_bytes c, r\<lparr>rb_capture := Some (c\<lparr>c_ops := [], c_bytes := 0\<rparr>)\<rparr>)))"

definition catch_up :: "rewrite \<Rightarrow> string + rewrite" where
  "catch_up w =
     bind_res (take_capture (rw_redb w)) (\<lambda>(ops, _, r).
       Inr (w\<lparr>rw_redb := r, rw_new := apply_ops (rw_new w) ops\<rparr>))"

text \<open>The switch: the rest of the capture, a durable commit of the new file, and the new file
  is the engine's.\<close>

definition switch_file :: "rewrite \<Rightarrow> string + redb" where
  "switch_file w =
     bind_res (take_capture (rw_redb w)) (\<lambda>(ops, _, r).
       let T = apply_ops (rw_new w) ops in
       Inr (r\<lparr>rb_capture := None, rb_db := T, rb_disk := T\<rparr>))"

text \<open>Commits go on while the rewrite copies and catches up.\<close>

inductive rewrite_step :: "rewrite \<Rightarrow> rewrite \<Rightarrow> bool" where
  rw_commit: "rewrite_step w (w\<lparr>rw_redb := redb_commit b d (rw_redb w)\<rparr>)"
| rw_stream: "rewrite_step w (w\<lparr>rw_redb := snd (redb_commit_stream (str :: (string + batch_op) list) d (rw_redb w))\<rparr>)"
| rw_sync: "rewrite_step w (w\<lparr>rw_redb := redb_sync (rw_redb w)\<rparr>)"
| rw_copy: "copy_chunk w = Inr w' \<Longrightarrow> rewrite_step w w'"
| rw_catch_up: "rw_todo w = [] \<Longrightarrow> catch_up w = Inr w' \<Longrightarrow> rewrite_step w w'"

inductive rewriting :: "string list \<Rightarrow> redb \<Rightarrow> rewrite \<Rightarrow> bool" for names r where
  rewriting_start: "rewriting names r (rewrite_start names r)"
| rewriting_step: "rewriting names r w \<Longrightarrow> rewrite_step w w' \<Longrightarrow> rewriting names r w'"

section \<open>The engine meets the contract\<close>

interpretation redb: kv_store "\<lambda>_. True" rb_db redb_commit redb_sync redb_get redb_range redb_count redb_last
  by unfold_locales
    (simp_all add: redb_commit_def redb_sync_def redb_get_def redb_range_def redb_count_def
      redb_last_def Let_def)

section \<open>The rewrite loses nothing\<close>

fun copied :: "(string \<times> (bytes \<times> bytes) list) list \<Rightarrow> tables \<Rightarrow> tables" where
  "copied [] T = T"
| "copied ((t, rows) # others) T = copied others (insert_rows t rows T)"

definition rewrite_inv :: "rewrite \<Rightarrow> bool" where
  "rewrite_inv w \<longleftrightarrow>
     (\<exists>c. rb_capture (rw_redb w) = Some c \<and>
        (c_abandoned c = None \<longrightarrow>
           rb_db (rw_redb w) = apply_ops (copied (rw_todo w) (rw_new w)) (c_ops c)))"

lemma insert_rows_append: "insert_rows t (a @ b) T = insert_rows t b (insert_rows t a T)"
  by (simp add: insert_rows_def)

lemma insert_rows_lookup:
  "sorted_keys rows \<Longrightarrow>
   fmlookup (insert_rows t rows T t') k =
     (if t' = t then (case map_of rows k of Some v \<Rightarrow> Some v | None \<Rightarrow> fmlookup (T t) k)
      else fmlookup (T t') k)"
proof (induction rows arbitrary: T)
  case (Cons p rows)
  then have "map_of rows (fst p) = None"
    by (auto simp: sorted_keys_Cons map_of_eq_None_iff)
  with Cons show ?case
    by (cases p) (auto simp: insert_rows_def sorted_keys_Cons split: option.splits)
qed (simp add: insert_rows_def)



lemma copied_append: "copied (xs @ ys) T = copied ys (copied xs T)"
  by (induction xs arbitrary: T) auto

text \<open>Copying every table of a database into an empty file gives that database.\<close>

lemma copied_tables:
  "distinct names \<Longrightarrow> \<forall>t\<in>set names. T t = fmempty \<Longrightarrow>
   copied (map (\<lambda>n. (n, sorted_list_of_fmap (D n))) names) T t = (if t \<in> set names then D t else T t)"
proof (induction names arbitrary: T)
  case (Cons n names)
  let ?T = "insert_rows n (sorted_list_of_fmap (D n)) T"
  have look: "fmlookup (?T t') k = (if t' = n then fmlookup (D n) k else fmlookup (T t') k)" for t' k
    using Cons.prems by (simp add: insert_rows_lookup split: option.splits)
  have "?T n = D n" by (rule fmap_ext) (simp add: look)
  moreover have other: "?T t' = T t'" if "t' \<noteq> n" for t'
    by (rule fmap_ext) (simp add: look that)
  moreover have "\<forall>t\<in>set names. ?T t = fmempty" using Cons.prems other by (metis distinct.simps(2) list.set_intros(2))
  ultimately show ?case using Cons by auto
qed simp

lemma take_chunk_append: "take_chunk n rows = (c, rest) \<Longrightarrow> rows = c @ rest"
  by (induction n rows arbitrary: c rest rule: take_chunk.induct)
    (auto simp: Let_def split: if_splits prod.splits)

lemma copy_chunk_copied:
  assumes "copy_chunk w = Inr w'"
  shows "copied (rw_todo w') (rw_new w') = copied (rw_todo w) (rw_new w)" "rw_redb w' = rw_redb w"
  using assms
  by (auto simp: copy_chunk_def insert_rows_append [symmetric] Let_def
      split: list.splits prod.splits option.splits if_splits dest!: take_chunk_append)

lemma capture_push_kept:
  "c_abandoned (capture_push b c) = None \<Longrightarrow>
     c_abandoned c = None \<and> c_ops (capture_push b c) = c_ops c @ b"
  by (auto simp: capture_push_def capture_abandon_def Let_def split: if_splits option.splits)

lemma capture_abandon_abandoned [simp]: "c_abandoned (capture_abandon why c) \<noteq> None"
  by (simp add: capture_abandon_def split: option.splits)

lemma rewrite_step_inv:
  assumes "rewrite_step w w'" "rewrite_inv w"
  shows "rewrite_inv w'"
  using assms
proof cases
  case (rw_commit b d)
  then show ?thesis
    using assms(2)
    by (auto simp: rewrite_inv_def redb_commit_def Let_def dest!: capture_push_kept)
next
  case (rw_stream str d)
  then show ?thesis
    using assms(2)
    by (auto simp: rewrite_inv_def redb_commit_stream_def Let_def simp del: not_None_eq split: sum.splits)
next
  case rw_sync
  then show ?thesis using assms(2) by (simp add: rewrite_inv_def redb_sync_def)
next
  case rw_copy
  from copy_chunk_copied [OF this] assms(2) show ?thesis by (simp add: rewrite_inv_def)
next
  case rw_catch_up
  then show ?thesis
    using assms(2)
    by (auto simp: rewrite_inv_def catch_up_def take_capture_def split: option.splits)
qed

lemma rewriting_inv:
  assumes "distinct names" "\<forall>t. t \<notin> set names \<longrightarrow> rb_db r t = fmempty" "rewriting names r w"
  shows "rewrite_inv w"
  using assms(3)
proof induction
  case rewriting_start
  have "copied (map (\<lambda>n. (n, sorted_list_of_fmap (rb_db r n))) names) no_tables = rb_db r"
    using copied_tables [OF assms(1), of no_tables "rb_db r"] assms(2)
    by (auto simp: no_tables_def fun_eq_iff)
  then show ?case by (simp add: rewrite_inv_def rewrite_start_def capture_default_def)
qed (rule rewrite_step_inv)

text \<open>C15: Rewriting the data file online: whatever commits (plain, streamed, durable or not) land
  while the tables are copied chunk by chunk and the captured commits are applied, if the switch
  succeeds, the new file holds exactly what the engine held just before it, durably; in
  particular no commit made during the copy is lost and none is applied to stale rows.\<close>

theorem rewrite_preserves_tables:
  assumes "distinct names" "\<forall>t. t \<notin> set names \<longrightarrow> rb_db r t = fmempty"
    and "rewriting names r w" "rw_todo w = []" "switch_file w = Inr r'"
  shows "rb_db r' = rb_db (rw_redb w) \<and> rb_disk r' = rb_db (rw_redb w) \<and> rb_capture r' = None"
  using rewriting_inv [OF assms(1-3)] assms(4,5)
  by (auto simp: rewrite_inv_def switch_file_def take_capture_def Let_def split: option.splits)

text \<open>A rewrite of one table with a commit landing after its rows were copied.\<close>

definition sample_redb :: redb where
  "sample_redb = \<lparr>rb_db = no_tables(''t'' := fmupd [1] [10] (fmupd [2] [20] fmempty)),
     rb_disk = no_tables, rb_capture = None\<rparr>"

definition sample_rewrite :: rewrite where
  "sample_rewrite =
     (let w = rewrite_start [''t''] sample_redb;
          w = w\<lparr>rw_redb := redb_commit [Put ''t'' [1] [11], Delete ''t'' [2]] False (rw_redb w)\<rparr>
      in w\<lparr>rw_new := insert_rows ''t'' [([1], [10]), ([2], [20])] (rw_new w), rw_todo := []\<rparr>)"

lemma sample_rewriting: "rewriting [''t''] sample_redb sample_rewrite"
proof -
  let ?w = "rewrite_start [''t''] sample_redb"
  let ?v = "?w\<lparr>rw_redb := redb_commit [Put ''t'' [1] [11], Delete ''t'' [2]] False (rw_redb ?w)\<rparr>"
  have "rewriting [''t''] sample_redb ?v"
    by (intro rewriting_step [OF rewriting_start] rw_commit)
  moreover have "copy_chunk ?v = Inr sample_rewrite"
    by (simp add: copy_chunk_def sample_rewrite_def rewrite_start_def sample_redb_def Let_def
        redb_commit_def capture_push_def capture_default_def CAPTURE_MAX_BYTES_def REWRITE_CHUNK_BYTES_def)
  ultimately show ?thesis by (rule rewriting_step [OF _ rw_copy])
qed

theorem rewrite_preserves_tables_witness:
  "\<exists>r'. switch_file sample_rewrite = Inr r' \<and> rb_db r' = rb_db (rw_redb sample_rewrite) \<and>
     snap_get (rb_db r') ''t'' [1] = Some [11] \<and> snap_get (rb_db r') ''t'' [2] = None"
proof -
  obtain r' where r': "switch_file sample_rewrite = Inr r'"
    by (simp add: switch_file_def take_capture_def sample_rewrite_def rewrite_start_def Let_def
        redb_commit_def capture_push_def capture_default_def CAPTURE_MAX_BYTES_def)
  have "rb_db r' = rb_db (rw_redb sample_rewrite)"
    using rewrite_preserves_tables [OF _ _ sample_rewriting _ r']
    by (simp add: sample_redb_def no_tables_def sample_rewrite_def Let_def)
  with r' show ?thesis
    by (simp add: sample_rewrite_def rewrite_start_def redb_commit_def sample_redb_def Let_def snap_get_def)
qed

end
