(* ===== verification/Write_Behind.thy ===== *)
theory Write_Behind
  imports Redb_Engine "HOL-Library.Sublist"
begin

text \<open>
  The write-behind layer in front of the engine, \<^verbatim>\<open>crates/storage/src/write_behind.rs\<close>. A
  commit that need not be durable becomes a layer in RAM; reads merge the layers over the
  engine; a flush writes the layers into the engine as one commit and drops them.

  \<open>lay_look\<close> is what one layer says of a key over what lies below it. Every read path (the
  point lookup, the paged merge of a range, the count and the last row) is shown to answer
  from the tables all the committed batches give, whatever has been flushed, and a crash to
  lose only a suffix of the batches after the last durable one.
\<close>

section \<open>Layers\<close>

record table_layer =
  tl_entries :: "(bytes, bytes option) fmap"
  tl_range_dels :: "(bytes \<times> bytes) list"

record layer =
  l_tables :: "(string, table_layer) fmap"
  l_bytes :: nat

definition tl_default :: table_layer where
  "tl_default = \<lparr>tl_entries = fmempty, tl_range_dels = []\<rparr>"

definition layer_default :: layer where
  "layer_default = \<lparr>l_tables = fmempty, l_bytes = 0\<rparr>"

definition covered_by :: "(bytes \<times> bytes) list \<Rightarrow> bytes \<Rightarrow> bool" where
  "covered_by dels k \<longleftrightarrow> (\<exists>(s, e)\<in>set dels. s \<le> k \<and> k < e)"

definition covered :: "table_layer \<Rightarrow> bytes \<Rightarrow> bool" where
  "covered t k = covered_by (tl_range_dels t) k"

definition entry_or_default :: "layer \<Rightarrow> string \<Rightarrow> table_layer" where
  "entry_or_default l t = (case fmlookup (l_tables l) t of None \<Rightarrow> tl_default | Some lt \<Rightarrow> lt)"

fun layer_op :: "layer \<Rightarrow> batch_op \<Rightarrow> layer" where
  "layer_op l (Put t k v) =
     (let lt = entry_or_default l t in
      l\<lparr>l_bytes := l_bytes l + (length k + length v + 64),
        l_tables := fmupd t (lt\<lparr>tl_entries := fmupd k (Some v) (tl_entries lt)\<rparr>) (l_tables l)\<rparr>)"
| "layer_op l (Delete t k) =
     (let lt = entry_or_default l t in
      l\<lparr>l_bytes := l_bytes l + (length k + 64),
        l_tables := fmupd t (lt\<lparr>tl_entries := fmupd k None (tl_entries lt)\<rparr>) (l_tables l)\<rparr>)"
| "layer_op l (DeleteRange t s e) =
     (let lt = entry_or_default l t in
      l\<lparr>l_bytes := l_bytes l + (length s + length e + 64),
        l_tables := fmupd t
          (if s < e
           then lt\<lparr>tl_entries := fmfilter (\<lambda>k. \<not> in_span s e k) (tl_entries lt),
                  tl_range_dels := tl_range_dels lt @ [(s, e)]\<rparr>
           else lt) (l_tables l)\<rparr>)"

definition from_batch :: "write_batch \<Rightarrow> layer" where
  "from_batch b = foldl layer_op layer_default b"

definition entry_op :: "string \<Rightarrow> bytes \<times> bytes option \<Rightarrow> batch_op" where
  "entry_op t kv = (case snd kv of Some v \<Rightarrow> Put t (fst kv) v | None \<Rightarrow> Delete t (fst kv))"

definition table_ops :: "string \<times> table_layer \<Rightarrow> write_batch" where
  "table_ops ttl =
     map (\<lambda>(s, e). DeleteRange (fst ttl) s e) (tl_range_dels (snd ttl)) @
     map (entry_op (fst ttl)) (sorted_list_of_fmap (tl_entries (snd ttl)))"

definition to_ops :: "layer \<Rightarrow> write_batch" where
  "to_ops l = concat (map table_ops (sorted_list_of_fmap (l_tables l)))"

section \<open>The store\<close>

definition MAX_LAYERS :: nat where
  "MAX_LAYERS = 1024"

record write_behind =
  wb_base :: redb
  wb_list :: "layer list"
  wb_bytes :: nat
  wb_max_bytes :: nat

definition wb_new :: "redb \<Rightarrow> nat \<Rightarrow> write_behind" where
  "wb_new base max_bytes = \<lparr>wb_base = base, wb_list = [], wb_bytes = 0, wb_max_bytes = max_bytes\<rparr>"

text \<open>A flush in its two steps: the engine commit of the layers seen, then dropping as many.\<close>

definition flush_commit :: "layer list \<Rightarrow> write_behind \<Rightarrow> write_behind" where
  "flush_commit list w = w\<lparr>wb_base := redb_commit (concat (map to_ops list)) False (wb_base w)\<rparr>"

definition flush_drop :: "layer list \<Rightarrow> write_behind \<Rightarrow> write_behind" where
  "flush_drop list w =
     w\<lparr>wb_list := drop (length list) (wb_list w),
       wb_bytes := wb_bytes w - sum_list (map l_bytes list)\<rparr>"

definition flush_locked :: "write_behind \<Rightarrow> write_behind" where
  "flush_locked w =
     (let list = wb_list w in if list = [] then w else flush_drop list (flush_commit list w))"

definition wb_push :: "write_batch \<Rightarrow> write_behind \<Rightarrow> write_behind" where
  "wb_push b w =
     (let l = from_batch b in w\<lparr>wb_bytes := wb_bytes w + l_bytes l, wb_list := wb_list w @ [l]\<rparr>)"

definition wb_over :: "write_behind \<Rightarrow> bool" where
  "wb_over w \<longleftrightarrow> wb_bytes w > wb_max_bytes w \<or> length (wb_list w) > MAX_LAYERS"

definition wb_commit :: "write_batch \<Rightarrow> bool \<Rightarrow> write_behind \<Rightarrow> write_behind" where
  "wb_commit b sync w =
     (if sync then (let w = flush_locked w in w\<lparr>wb_base := redb_commit b True (wb_base w)\<rparr>)
      else let w = wb_push b w in if wb_over w then flush_locked w else w)"

definition wb_commit_stream ::
  "(string + batch_op) list \<Rightarrow> bool \<Rightarrow> write_behind \<Rightarrow> (string + unit) \<times> write_behind" where
  "wb_commit_stream str sync w =
     (if sync
      then (let w = flush_locked w; (r, base) = redb_commit_stream str True (wb_base w)
            in (r, w\<lparr>wb_base := base\<rparr>))
      else (case stream_ops str of
              Inl e \<Rightarrow> (Inl e, w)
            | Inr b \<Rightarrow> (Inr (), wb_commit b False w)))"

definition wb_sync :: "write_behind \<Rightarrow> write_behind" where
  "wb_sync w = (let w = flush_locked (flush_locked w) in w\<lparr>wb_base := redb_sync (wb_base w)\<rparr>)"

text \<open>A crash: the layers were only in RAM.\<close>

definition wb_crash :: "write_behind \<Rightarrow> write_behind" where
  "wb_crash w = w\<lparr>wb_base := redb_crash (wb_base w), wb_list := [], wb_bytes := 0\<rparr>"

section \<open>Reads of a snapshot\<close>

text \<open>A snapshot is the engine's tables and the layers, taken together.\<close>

fun overlay_get :: "tables \<Rightarrow> layer list \<Rightarrow> string \<Rightarrow> bytes \<Rightarrow> bytes option" where
  "overlay_get T [] t k = snap_get T t k"
| "overlay_get T (l # older) t k =
     (case fmlookup (l_tables l) t of
        Some lt \<Rightarrow>
          (case fmlookup (tl_entries lt) k of
             Some v \<Rightarrow> v
           | None \<Rightarrow> if covered lt k then None else overlay_get T older t k)
      | None \<Rightarrow> overlay_get T older t k)"

definition wb_get :: "write_behind \<Rightarrow> string \<Rightarrow> bytes \<Rightarrow> bytes option" where
  "wb_get w t k = overlay_get (rb_db (wb_base w)) (rev (wb_list w)) t k"

definition touches :: "layer list \<Rightarrow> string \<Rightarrow> bool" where
  "touches ls t \<longleftrightarrow> (\<exists>l\<in>set ls. fmlookup (l_tables l) t \<noteq> None)"

record table_view =
  tv_entries :: "(bytes, bytes option) fmap"
  tv_dels :: "(bytes \<times> bytes) list"

definition hides :: "table_view \<Rightarrow> bytes \<Rightarrow> bool" where
  "hides v k \<longleftrightarrow> fmlookup (tv_entries v) k \<noteq> None \<or> covered_by (tv_dels v) k"

definition view_del :: "table_view \<Rightarrow> bytes \<times> bytes \<Rightarrow> table_view" where
  "view_del v d =
     v\<lparr>tv_entries := fmmap_keys (\<lambda>k x. if in_span (fst d) (snd d) k then None else x) (tv_entries v),
       tv_dels := tv_dels v @ [d]\<rparr>"

definition view_entry :: "bytes bound \<Rightarrow> bytes bound \<Rightarrow> table_view \<Rightarrow> bytes \<times> bytes option \<Rightarrow> table_view" where
  "view_entry lo hi v kx =
     (if in_bounds (fst kx) lo hi then v\<lparr>tv_entries := fmupd (fst kx) (snd kx) (tv_entries v)\<rparr> else v)"

definition view_layer :: "string \<Rightarrow> bytes bound \<Rightarrow> bytes bound \<Rightarrow> table_view \<Rightarrow> layer \<Rightarrow> table_view" where
  "view_layer t lo hi v l =
     (case fmlookup (l_tables l) t of
        None \<Rightarrow> v
      | Some lt \<Rightarrow>
          foldl (view_entry lo hi) (foldl view_del v (tl_range_dels lt))
            (sorted_list_of_fmap (tl_entries lt)))"

definition view_of :: "layer list \<Rightarrow> string \<Rightarrow> bytes bound \<Rightarrow> bytes bound \<Rightarrow> table_view" where
  "view_of ls t lo hi = foldl (view_layer t lo hi) \<lparr>tv_entries = fmempty, tv_dels = []\<rparr> ls"

text \<open>The merge of a range. \<open>emit_while\<close> is the inner loop that pushes the layers' rows while
  they come before the engine's next row; the flag says that the limit was reached.\<close>

type_synonym rows = "(bytes \<times> bytes) list"

definition full :: "nat \<Rightarrow> 'a list \<Rightarrow> bool" where
  "full limit out \<longleftrightarrow> limit > 0 \<and> length out \<ge> limit"

fun emit_while :: "(bytes \<Rightarrow> bool) \<Rightarrow> nat \<Rightarrow> rows \<Rightarrow> rows \<Rightarrow> rows \<times> rows \<times> bool" where
  "emit_while P limit [] out = (out, [], False)"
| "emit_while P limit (p # ps) out =
     (if P (fst p)
      then (let out = out @ [p] in
            if full limit out then (out, ps, True) else emit_while P limit ps out)
      else (out, p # ps, False))"

fun merge_rows :: "table_view \<Rightarrow> nat \<Rightarrow> rows \<Rightarrow> rows \<Rightarrow> rows \<Rightarrow> rows \<times> rows \<times> bool" where
  "merge_rows v limit [] pending out = (out, pending, False)"
| "merge_rows v limit ((k, x) # rows) pending out =
     (case emit_while (\<lambda>j. j < k) limit pending out of
        (out, pending, stop) \<Rightarrow>
          if stop then (out, pending, True)
          else if \<not> hides v k
          then (let out = out @ [(k, x)] in
                if full limit out then (out, pending, True) else merge_rows v limit rows pending out)
          else merge_rows v limit rows pending out)"

function merge_pages ::
  "(bytes, bytes) fmap \<Rightarrow> table_view \<Rightarrow> nat \<Rightarrow> nat \<Rightarrow> bytes bound \<Rightarrow> bytes bound \<Rightarrow> rows \<Rightarrow> rows \<Rightarrow> rows"
where
  "merge_pages m v limit page cursor hi pending out =
     (let rows = limited page (rows_in m cursor hi);
          exhausted = (page = 0 \<or> length rows < page)
      in case merge_rows v limit rows pending out of
           (out, pending, stop) \<Rightarrow>
             if stop then out
             else if exhausted then fst (emit_while (\<lambda>_. True) limit pending out)
             else (let h = fst (last rows) in
                   case emit_while (\<lambda>j. j \<le> h) limit pending out of
                     (out, pending, stop) \<Rightarrow>
                       if stop then out
                       else merge_pages m v limit page (Excluded h) hi pending out))"
  by pat_completeness auto
termination
proof (relation "measure (\<lambda>(m, v, limit, page, cursor, hi, pending, out). length (rows_in m cursor hi))")
  fix m :: "(bytes, bytes) fmap" and page :: nat and cursor hi :: "bytes bound" and rows exhausted h
  assume rows: "rows = limited page (rows_in m cursor hi)"
    and ex: "exhausted = (page = 0 \<or> length rows < page)" "\<not> exhausted"
    and h: "h = fst (last rows)"
  have "rows_in m cursor hi = rows @ rows_in m (Excluded h) hi" "rows \<noteq> []"
    using next_page [OF rows] ex h by simp_all
  then have "length (rows_in m (Excluded h) hi) < length (rows_in m cursor hi)" by simp
  then show "((m, v, limit, page, Excluded h, hi, pending', out'), m, v, limit, page, cursor, hi, pending, out)
      \<in> measure (\<lambda>(m, v, limit, page, cursor, hi, pending, out). length (rows_in m cursor hi))"
    for v limit pending out pending' out' by simp
qed simp

declare merge_pages.simps [simp del]

fun some_rows :: "(bytes \<times> bytes option) list \<Rightarrow> rows" where
  "some_rows [] = []"
| "some_rows ((k, Some x) # es) = (k, x) # some_rows es"
| "some_rows ((k, None) # es) = some_rows es"

definition pending_rows :: "table_view \<Rightarrow> rows" where
  "pending_rows v = some_rows (sorted_list_of_fmap (tv_entries v))"

definition merged :: "tables \<Rightarrow> layer list \<Rightarrow> string \<Rightarrow> bytes bound \<Rightarrow> bytes bound \<Rightarrow> nat \<Rightarrow> rows" where
  "merged T ls t lo hi limit =
     (if \<not> touches ls t then snap_range T t lo hi limit
      else let v = view_of ls t lo hi;
               page = (if limit = 0 then 0 else max (limit * 2) 256)
           in merge_pages (T t) v limit page lo hi (pending_rows v) [])"

definition wb_range :: "write_behind \<Rightarrow> string \<Rightarrow> bytes bound \<Rightarrow> bytes bound \<Rightarrow> nat \<Rightarrow> rows" where
  "wb_range w = merged (rb_db (wb_base w)) (wb_list w)"

definition wb_count :: "write_behind \<Rightarrow> string \<Rightarrow> bytes bound \<Rightarrow> bytes bound \<Rightarrow> nat" where
  "wb_count w t lo hi =
     (if \<not> touches (wb_list w) t then redb_count (wb_base w) t lo hi
      else length (merged (rb_db (wb_base w)) (wb_list w) t lo hi 0))"

definition wb_last :: "write_behind \<Rightarrow> string \<Rightarrow> (bytes \<times> bytes) option" where
  "wb_last w t =
     (if \<not> touches (wb_list w) t then redb_last (wb_base w) t
      else let v = view_of (wb_list w) t Unbounded Unbounded;
               top = last_opt (pending_rows v)
           in case redb_last (wb_base w) t of
                Some (k, x) \<Rightarrow>
                  if \<not> hides v k
                  then (case top of
                          Some p \<Rightarrow> if fst p > k then Some p else Some (k, x)
                        | None \<Rightarrow> Some (k, x))
                  else last_opt (merged (rb_db (wb_base w)) (wb_list w) t Unbounded Unbounded 0)
              | None \<Rightarrow> top)"


section \<open>Flushes among commits\<close>

text \<open>What everything that writes to the engine does under the flush lock: a flush, and after it
  nothing more, the engine's durable commit of a batch, or the engine's sync. A commit that need
  not be durable takes no flush lock, so it lands between any two of these steps; in particular
  a layer pushed after the flush and before the durable commit that follows it stays a layer
  above the durable batch.\<close>

datatype wb_after = ThenRelease | ThenCommit write_batch | ThenSync

datatype wb_phase = Unlocked | Locked | Flushing "layer list" bool | Flushed

text \<open>The state adds where the holder of the lock is (\<open>Flushing list c\<close>: the layers it saw, and
  whether the engine has them yet) and what it does next. For the statements, it also keeps the
  batches committed so far in the order they lie in the store (\<open>ws_hist\<close>: a durable batch goes
  into the engine, below the layers there are at that moment), the history when the lock was
  taken (\<open>ws_begun\<close>), and, of the last durable commit or sync that returned, the history when it
  took the lock (\<open>ws_safe\<close>) and the batches it made durable, its own one last (\<open>ws_durable\<close>).\<close>

record wb_state =
  ws_wb :: write_behind
  ws_phase :: wb_phase
  ws_after :: wb_after
  ws_hist :: "write_batch list"
  ws_begun :: "write_batch list"
  ws_safe :: "write_batch list"
  ws_durable :: "write_batch list"

definition in_engine :: "wb_state \<Rightarrow> nat" where
  "in_engine s = length (ws_hist s) - length (wb_list (ws_wb s))"

inductive wb_step :: "wb_state \<Rightarrow> wb_state \<Rightarrow> bool" where
  step_commit:
    "wb_step s (s\<lparr>ws_wb := wb_push b (ws_wb s), ws_hist := ws_hist s @ [b]\<rparr>)"
| step_lock:
    "ws_phase s = Unlocked \<Longrightarrow>
     wb_step s (s\<lparr>ws_phase := Locked, ws_after := a, ws_begun := ws_hist s\<rparr>)"
| step_flush_begin:
    "ws_phase s = Locked \<Longrightarrow>
     wb_step s (s\<lparr>ws_phase := (if wb_list (ws_wb s) = [] then Flushed else Flushing (wb_list (ws_wb s)) False)\<rparr>)"
| step_flush_commit:
    "ws_phase s = Flushing list False \<Longrightarrow>
     wb_step s (s\<lparr>ws_wb := flush_commit list (ws_wb s), ws_phase := Flushing list True\<rparr>)"
| step_flush_drop:
    "ws_phase s = Flushing list True \<Longrightarrow>
     wb_step s (s\<lparr>ws_wb := flush_drop list (ws_wb s), ws_phase := Flushed\<rparr>)"
| step_release:
    "ws_phase s = Flushed \<Longrightarrow> ws_after s = ThenRelease \<Longrightarrow> wb_step s (s\<lparr>ws_phase := Unlocked\<rparr>)"
| step_durable_commit:
    "ws_phase s = Flushed \<Longrightarrow> ws_after s = ThenCommit b \<Longrightarrow>
     wb_step s (s\<lparr>ws_wb := (ws_wb s)\<lparr>wb_base := redb_commit b True (wb_base (ws_wb s))\<rparr>,
       ws_phase := Unlocked,
       ws_hist := take (in_engine s) (ws_hist s) @ b # drop (in_engine s) (ws_hist s),
       ws_safe := ws_begun s, ws_durable := take (in_engine s) (ws_hist s) @ [b]\<rparr>)"
| step_sync:
    "ws_phase s = Flushed \<Longrightarrow> ws_after s = ThenSync \<Longrightarrow>
     wb_step s (s\<lparr>ws_wb := (ws_wb s)\<lparr>wb_base := redb_sync (wb_base (ws_wb s))\<rparr>,
       ws_phase := Unlocked, ws_safe := ws_begun s, ws_durable := take (in_engine s) (ws_hist s)\<rparr>)"

definition wb_init :: "redb \<Rightarrow> nat \<Rightarrow> wb_state" where
  "wb_init base max_bytes = \<lparr>ws_wb = wb_new base max_bytes, ws_phase = Unlocked, ws_after = ThenRelease,
     ws_hist = [], ws_begun = [], ws_safe = [], ws_durable = []\<rparr>"

inductive wb_reach :: "redb \<Rightarrow> nat \<Rightarrow> wb_state \<Rightarrow> bool" for base max_bytes where
  wb_start: "rb_disk base = rb_db base \<Longrightarrow> wb_reach base max_bytes (wb_init base max_bytes)"
| wb_next: "wb_reach base max_bytes s \<Longrightarrow> wb_step s s' \<Longrightarrow> wb_reach base max_bytes s'"

section \<open>What a layer says of a key\<close>

definition tl_look :: "table_layer \<Rightarrow> bytes option \<Rightarrow> bytes \<Rightarrow> bytes option" where
  "tl_look lt x k =
     (case fmlookup (tl_entries lt) k of
        Some v \<Rightarrow> v
      | None \<Rightarrow> if covered lt k then None else x)"

definition lay_look :: "layer \<Rightarrow> string \<Rightarrow> bytes \<Rightarrow> bytes option \<Rightarrow> bytes option" where
  "lay_look l t k x =
     (case fmlookup (l_tables l) t of
        None \<Rightarrow> x
      | Some lt \<Rightarrow> tl_look lt x k)"

definition lays_look :: "layer list \<Rightarrow> string \<Rightarrow> bytes \<Rightarrow> bytes option \<Rightarrow> bytes option" where
  "lays_look ls t k x = foldl (\<lambda>x l. lay_look l t k x) x ls"

lemma tables_eqI: "(\<And>t k. fmlookup (T t) k = fmlookup (T' t) k) \<Longrightarrow> T = T'"
  by (rule ext, rule fmap_ext) simp

lemma covered_by_simps [simp]:
  "\<not> covered_by [] k"
  "covered_by (ds @ es) k \<longleftrightarrow> covered_by ds k \<or> covered_by es k"
  "covered_by [d] k \<longleftrightarrow> in_span (fst d) (snd d) k"
  by (auto simp: covered_by_def in_span_def)

lemma apply_range_dels:
  "fmlookup (apply_ops T (map (\<lambda>(s, e). DeleteRange t s e) ds) t') k =
     (if t' = t \<and> covered_by ds k then None else fmlookup (T t') k)"
proof (induction ds rule: rev_induct)
  case (snoc d ds)
  then show ?case by (cases d) auto
qed simp

lemma apply_entries:
  "sorted_keys es \<Longrightarrow>
   fmlookup (apply_ops T (map (entry_op t) es) t') k =
     (if t' = t then (case map_of es k of Some x \<Rightarrow> x | None \<Rightarrow> fmlookup (T t) k)
      else fmlookup (T t') k)"
proof (induction es arbitrary: T)
  case (Cons e es)
  then have "map_of es (fst e) = None" by (auto simp: sorted_keys_Cons map_of_eq_None_iff)
  with Cons show ?case
    by (cases e; cases "snd e") (auto simp: sorted_keys_Cons entry_op_def split: option.splits)
qed simp

lemma apply_table_ops:
  "fmlookup (apply_ops T (table_ops (t, lt)) t') k =
     (if t' = t then tl_look lt (fmlookup (T t) k) k else fmlookup (T t') k)"
  by (simp add: table_ops_def apply_entries apply_range_dels tl_look_def covered_def split: option.splits)

lemma apply_all_table_ops:
  "sorted_keys ts \<Longrightarrow>
   fmlookup (apply_ops T (concat (map table_ops ts)) t) k =
     (case map_of ts t of None \<Rightarrow> fmlookup (T t) k | Some lt \<Rightarrow> tl_look lt (fmlookup (T t) k) k)"
proof (induction ts arbitrary: T)
  case (Cons p ts)
  then have "map_of ts (fst p) = None" by (auto simp: sorted_keys_Cons map_of_eq_None_iff)
  with Cons show ?case
    by (cases p) (auto simp: sorted_keys_Cons apply_table_ops split: option.splits)
qed simp

text \<open>Writing a layer into the engine has the layer's effect.\<close>

lemma apply_to_ops: "fmlookup (apply_ops T (to_ops l) t) k = lay_look l t k (fmlookup (T t) k)"
  by (simp add: to_ops_def apply_all_table_ops lay_look_def)

text \<open>Normalizing a batch keeps its effect, also where a range delete swallows earlier writes.\<close>

lemma tl_look_default [simp]: "tl_look tl_default x k = x"
  by (simp add: tl_look_def tl_default_def covered_def)

lemma lay_look_entry: "lay_look l t k x = tl_look (entry_or_default l t) x k"
  by (simp add: lay_look_def entry_or_default_def split: option.splits)

lemma entry_or_default_upd [simp]:
  "entry_or_default (l\<lparr>l_bytes := b, l_tables := fmupd t x ts\<rparr>) t' =
     (if t' = t then x else entry_or_default (l\<lparr>l_tables := ts\<rparr>) t')"
  by (simp add: entry_or_default_def)

lemma in_span_empty: "\<not> s < e \<Longrightarrow> \<not> in_span s e k"
  by (auto simp: in_span_def)

lemma layer_op_look:
  "lay_look (layer_op l op) t k (fmlookup (T t) k) = fmlookup (apply_op (apply_ops T (to_ops l)) op t) k"
proof -
  have "entry_or_default (l\<lparr>l_tables := l_tables l\<rparr>) t' = entry_or_default l t'" for t'
    by (simp add: entry_or_default_def)
  then show ?thesis
    by (cases op)
      (auto simp: apply_to_ops lay_look_entry Let_def tl_look_def covered_def in_span_empty
        split: option.splits)
qed

lemma apply_from_batch: "apply_ops T (to_ops (from_batch b)) = apply_ops T b"
proof (rule tables_eqI)
  have "apply_ops T (to_ops (foldl layer_op layer_default b)) = apply_ops T b"
  proof (induction b rule: rev_induct)
    case Nil
    then show ?case by (simp add: to_ops_def layer_default_def)
  next
    case (snoc op b)
    then show ?case by (intro tables_eqI) (simp add: apply_to_ops layer_op_look)
  qed
  then show "fmlookup (apply_ops T (to_ops (from_batch b)) t) k = fmlookup (apply_ops T b t) k" for t k
    by (simp add: from_batch_def)
qed

lemma apply_layers:
  "fmlookup (apply_ops T (concat (map to_ops ls)) t) k = lays_look ls t k (fmlookup (T t) k)"
  by (induction ls arbitrary: T) (simp_all add: lays_look_def apply_to_ops)

text \<open>Layers either decide a key or pass it on, so writing them again over an engine that has
  them already changes nothing: a snapshot may pair the engine after a flush's commit with the
  layers from before it.\<close>

lemma lay_look_const: "(\<exists>c. \<forall>x. lay_look l t k x = c) \<or> (\<forall>x. lay_look l t k x = x)"
  by (auto simp: lay_look_def tl_look_def split: option.splits)

lemma lays_look_const: "(\<exists>c. \<forall>x. lays_look ls t k x = c) \<or> (\<forall>x. lays_look ls t k x = x)"
proof (induction ls rule: rev_induct)
  case (snoc l ls)
  have "lays_look (ls @ [l]) t k x = lay_look l t k (lays_look ls t k x)" for x
    by (simp add: lays_look_def)
  with snoc lay_look_const [of l t k] show ?case by metis
qed (simp add: lays_look_def)

lemma lays_look_append: "lays_look (a @ b) t k x = lays_look b t k (lays_look a t k x)"
  by (simp add: lays_look_def)

lemma lays_look_again: "lays_look ls t k (lays_look ls t k x) = lays_look ls t k x"
  using lays_look_const [of ls t k] by metis

section \<open>Point lookups\<close>

lemma overlay_get_look: "overlay_get T (rev ls) t k = lays_look ls t k (fmlookup (T t) k)"
proof (induction ls rule: rev_induct)
  case (snoc l ls)
  then show ?case
    by (simp add: lays_look_append)
      (simp add: lays_look_def lay_look_def tl_look_def split: option.splits)
qed (simp add: lays_look_def snap_get_def)

section \<open>The view of a range\<close>

definition tv_look :: "table_view \<Rightarrow> bytes option \<Rightarrow> bytes \<Rightarrow> bytes option" where
  "tv_look v x k =
     (case fmlookup (tv_entries v) k of
        Some y \<Rightarrow> y
      | None \<Rightarrow> if covered_by (tv_dels v) k then None else x)"

lemma view_del_look [simp]:
  "tv_look (view_del v d) x k = (if in_span (fst d) (snd d) k then None else tv_look v x k)"
  "fmlookup (tv_entries (view_del v d)) k = None \<longleftrightarrow> fmlookup (tv_entries v) k = None"
  by (auto simp: view_del_def tv_look_def split: option.splits)

lemma view_entry_look [simp]:
  "tv_look (view_entry lo hi v e) x k =
     (if fst e = k \<and> in_bounds k lo hi then snd e else tv_look v x k)"
  "\<not> in_bounds k lo hi \<Longrightarrow>
     fmlookup (tv_entries (view_entry lo hi v e)) k = fmlookup (tv_entries v) k"
  by (auto simp: view_entry_def tv_look_def)

lemma fold_view_del:
  "tv_look (foldl view_del v ds) x k = (if covered_by ds k then None else tv_look v x k)"
  "fmlookup (tv_entries (foldl view_del v ds)) k = None \<longleftrightarrow> fmlookup (tv_entries v) k = None"
  by (induction ds rule: rev_induct) simp_all

lemma fold_view_entry:
  "sorted_keys es \<Longrightarrow> tv_look (foldl (view_entry lo hi) v es) x k =
     (case map_of es k of
        Some y \<Rightarrow> if in_bounds k lo hi then y else tv_look v x k
      | None \<Rightarrow> tv_look v x k)"
proof (induction es arbitrary: v)
  case (Cons e es)
  then have "map_of es (fst e) = None" by (auto simp: sorted_keys_Cons map_of_eq_None_iff)
  with Cons show ?case by (auto simp: sorted_keys_Cons split: option.splits)
qed simp

lemma fold_view_entry_out:
  "\<not> in_bounds k lo hi \<Longrightarrow>
   fmlookup (tv_entries (foldl (view_entry lo hi) v es)) k = fmlookup (tv_entries v) k"
  by (induction es arbitrary: v) simp_all

lemma view_layer_look:
  "in_bounds k lo hi \<Longrightarrow> tv_look (view_layer t lo hi v l) x k = lay_look l t k (tv_look v x k)"
  by (simp add: view_layer_def lay_look_def tl_look_def fold_view_entry fold_view_del(1) covered_def
      split: option.splits)

lemma view_layer_out:
  "\<not> in_bounds k lo hi \<Longrightarrow> fmlookup (tv_entries v) k = None \<Longrightarrow>
   fmlookup (tv_entries (view_layer t lo hi v l)) k = None"
  by (simp add: view_layer_def fold_view_entry_out fold_view_del(2) split: option.splits)

lemma view_of_look: "in_bounds k lo hi \<Longrightarrow> tv_look (view_of ls t lo hi) x k = lays_look ls t k x"
proof (induction ls rule: rev_induct)
  case (snoc l ls)
  then show ?case by (simp add: view_of_def view_layer_look lays_look_def)
qed (simp add: view_of_def lays_look_def tv_look_def)

lemma view_of_out: "\<not> in_bounds k lo hi \<Longrightarrow> fmlookup (tv_entries (view_of ls t lo hi)) k = None"
  unfolding view_of_def by (induction ls rule: rev_induct) (simp_all add: view_layer_out)


section \<open>The merge of a range\<close>

text \<open>The merge without its limit: the pending rows before each engine row, and the engine row
  unless the view hides it.\<close>

fun merge2 :: "table_view \<Rightarrow> rows \<Rightarrow> rows \<Rightarrow> rows" where
  "merge2 v ps [] = ps"
| "merge2 v ps ((k, x) # rows) =
     takeWhile (\<lambda>p. fst p < k) ps @ (if hides v k then [] else [(k, x)]) @
     merge2 v (dropWhile (\<lambda>p. fst p < k) ps) rows"

definition room :: "nat \<Rightarrow> 'a list \<Rightarrow> bool" where
  "room limit out \<longleftrightarrow> limit = 0 \<or> length out < limit"

lemma limited_full: "full limit out \<Longrightarrow> limited limit (out @ xs) = limited limit out"
  by (simp add: full_def limited_def)

lemma limited_exact: "full limit (out @ [p]) \<Longrightarrow> room limit out \<Longrightarrow> limited limit ((out @ [p]) @ xs) = out @ [p]"
  by (auto simp: full_def limited_def room_def take_Cons' le_Suc_eq)

lemma not_full_room: "room limit out \<or> full limit out"
  by (auto simp: room_def full_def)

lemma emit_while_result:
  assumes "emit_while P limit ps out = (out', ps', stop)" "room limit out"
  shows "if stop then out' = limited limit (out @ takeWhile (\<lambda>p. P (fst p)) ps @ xs)
    else out' = out @ takeWhile (\<lambda>p. P (fst p)) ps \<and> ps' = dropWhile (\<lambda>p. P (fst p)) ps \<and> room limit out'"
  using assms
proof (induction ps arbitrary: out)
  case Nil
  then show ?case by simp
next
  case (Cons p ps)
  show ?case
  proof (cases "P (fst p)")
    case False
    with Cons.prems show ?thesis by auto
  next
    case True
    show ?thesis
    proof (cases "full limit (out @ [p])")
      case full: True
      with True Cons.prems limited_exact [OF full Cons.prems(2), of "takeWhile (\<lambda>p. P (fst p)) ps @ xs"]
      show ?thesis by auto
    next
      case False
      then have "room limit (out @ [p])" using not_full_room by blast
      from Cons.IH [OF _ this] Cons.prems True False show ?thesis by (auto split: if_splits)
    qed
  qed
qed

lemma merge_rows_result:
  assumes "merge_rows v limit rows ps out = (out', ps', stop)" "room limit out"
  shows "if stop then out' = limited limit (out @ merge2 v ps (rows @ rest))
    else out @ merge2 v ps (rows @ rest) = out' @ merge2 v ps' rest \<and> room limit out'"
  using assms
proof (induction rows arbitrary: ps out)
  case Nil
  then show ?case by simp
next
  case (Cons r rows)
  obtain k x where r: "r = (k, x)" by fastforce
  obtain o1 p1 s1 where e: "emit_while (\<lambda>j. j < k) limit ps out = (o1, p1, s1)"
    by (metis prod_cases3)
  let ?tw = "takeWhile (\<lambda>p. fst p < k) ps" and ?dw = "dropWhile (\<lambda>p. fst p < k) ps"
  let ?row = "if hides v k then [] else [(k, x)]"
  note emit = emit_while_result [OF e Cons.prems(2), of "?row @ merge2 v ?dw (rows @ rest)"]
  show ?case
  proof (cases s1)
    case True
    with Cons.prems(1) e emit show ?thesis by (auto simp: r)
  next
    case False
    with emit have o1: "o1 = out @ ?tw" "p1 = ?dw" "room limit o1" by auto
    consider "hides v k" | "\<not> hides v k" "full limit (o1 @ [(k, x)])"
      | "\<not> hides v k" "\<not> full limit (o1 @ [(k, x)])" "room limit (o1 @ [(k, x)])"
      using not_full_room by blast
    then show ?thesis
    proof cases
      case 1
      with Cons.IH [OF _ o1(3), of p1] Cons.prems(1) e False o1 show ?thesis
        by (auto simp: r split: if_splits)
    next
      case 2
      with limited_exact [OF 2(2) o1(3), of "merge2 v ?dw (rows @ rest)"] Cons.prems(1) e False o1
      show ?thesis by (auto simp: r)
    next
      case 3
      with Cons.IH [OF _ 3(3), of p1] Cons.prems(1) e False o1 show ?thesis
        by (auto simp: r split: if_splits)
    qed
  qed
qed


lemma takeWhile_weaker:
  "(\<And>x. P x \<Longrightarrow> Q x) \<Longrightarrow>
   takeWhile Q xs = takeWhile P xs @ takeWhile Q (dropWhile P xs) \<and>
   dropWhile Q xs = dropWhile Q (dropWhile P xs)"
  by (induction xs) auto

lemma merge2_emit_le:
  assumes "\<forall>r\<in>set rest. h < fst r"
  shows "merge2 v ps rest =
    takeWhile (\<lambda>p. fst p \<le> h) ps @ merge2 v (dropWhile (\<lambda>p. fst p \<le> h) ps) rest"
proof (cases rest)
  case Nil
  then show ?thesis by simp
next
  case (Cons r rows)
  obtain k x where r: "r = (k, x)" by fastforce
  have hk: "h < k" using assms Cons r by simp
  have "fst p \<le> h \<Longrightarrow> fst p < k" for p :: "bytes \<times> bytes" using hk by (rule order.strict_trans1 [rotated])
  note takeWhile_weaker [of "\<lambda>p. fst p \<le> h" "\<lambda>p. fst p < k" ps, OF this]
  then show ?thesis using Cons r by simp
qed

lemma takeWhile_always [simp]: "takeWhile (\<lambda>p. True) ps = ps"
  by (induction ps) auto

lemma emit_all:
  assumes "room limit out"
  shows "fst (emit_while (\<lambda>_. True) limit ps out) = limited limit (out @ ps)"
proof -
  obtain o' p' st where e: "emit_while (\<lambda>_. True) limit ps out = (o', p', st)" by (metis prod_cases3)
  have "room limit (out @ ps) \<Longrightarrow> limited limit (out @ ps) = out @ ps"
    by (auto simp: room_def limited_def)
  with emit_while_result [OF e assms, of "[]"] e show ?thesis by (auto split: if_splits)
qed

lemma merge_pages_result:
  assumes "room limit out"
  shows "merge_pages m v limit page cursor hi ps out = limited limit (out @ merge2 v ps (rows_in m cursor hi))"
  using assms
proof (induction m v limit page cursor hi ps out rule: merge_pages.induct)
  case (1 m v limit page cursor hi ps out)
  define rows where "rows = limited page (rows_in m cursor hi)"
  define ex where "ex \<longleftrightarrow> page = 0 \<or> length rows < page"
  define h where "h = fst (last rows)"
  obtain o1 p1 s1 where mr: "merge_rows v limit rows ps out = (o1, p1, s1)" by (metis prod_cases3)
  obtain o2 p2 s2 where em: "emit_while (\<lambda>j. j \<le> h) limit p1 o1 = (o2, p2, s2)" by (metis prod_cases3)
  have unf: "merge_pages m v limit page cursor hi ps out =
    (if s1 then o1 else if ex then fst (emit_while (\<lambda>_. True) limit p1 o1)
     else if s2 then o2 else merge_pages m v limit page (Excluded h) hi p2 o2)"
    using mr em
    by (subst merge_pages.simps)
      (simp add: rows_def [symmetric] ex_def h_def [symmetric] Let_def)
  show ?case
  proof (cases ex)
    case True
    then have "rows_in m cursor hi = rows @ []"
      by (cases "page = 0") (auto simp: ex_def rows_def limited_def min_def split: if_splits)
    with merge_rows_result [OF mr 1(2), of "[]"] True unf emit_all [of limit o1 p1] show ?thesis
      by (auto split: if_splits)
  next
    case False
    have page: "rows_in m cursor hi = rows @ rows_in m (Excluded h) hi"
      using next_page(1) [OF rows_def] False by (simp add: ex_def h_def)
    note mr' = merge_rows_result [OF mr 1(2), of "rows_in m (Excluded h) hi"]
    have rest: "\<forall>r\<in>set (rows_in m (Excluded h) hi). h < fst r" by (auto simp: in_bounds_def)
    show ?thesis
    proof (cases s1)
      case True
      with mr' unf page show ?thesis by simp
    next
      case s1: False
      with mr' have o1: "out @ merge2 v ps (rows_in m cursor hi) = o1 @ merge2 v p1 (rows_in m (Excluded h) hi)"
        "room limit o1" by (simp_all add: page)
      note em' = emit_while_result [OF em o1(2), of "merge2 v (dropWhile (\<lambda>p. fst p \<le> h) p1) (rows_in m (Excluded h) hi)"]
      show ?thesis
        using 1(1) [OF rows_def ex_def mr [symmetric] refl _ False h_def em [symmetric] refl] s1 em' unf False o1
          merge2_emit_le [OF rest, of v p1]
        by (auto split: if_splits)
    qed
  qed
qed

text \<open>The merge is the ordered list of what is visible.\<close>

lemma merge2_set:
  "set (merge2 v ps rows) = set ps \<union> {r \<in> set rows. \<not> hides v (fst r)}"
proof (induction v ps rows rule: merge2.induct)
  case (2 v ps k x rows)
  have "set ps = set (takeWhile (\<lambda>p. fst p < k) ps) \<union> set (dropWhile (\<lambda>p. fst p < k) ps)"
    by (metis set_append takeWhile_dropWhile_id)
  with 2 show ?case by auto
qed simp

lemma sorted_keys_append:
  "sorted_keys (xs @ ys) \<longleftrightarrow> sorted_keys xs \<and> sorted_keys ys \<and> (\<forall>x\<in>set xs. \<forall>y\<in>set ys. fst x < fst y)"
  by (auto simp: sorted_keys_def sorted_wrt_append)

lemma merge2_sorted:
  "sorted_keys ps \<Longrightarrow> sorted_keys rows \<Longrightarrow> \<forall>p\<in>set ps. hides v (fst p) \<Longrightarrow> sorted_keys (merge2 v ps rows)"
proof (induction v ps rows rule: merge2.induct)
  case (2 v ps k x rows)
  let ?tw = "takeWhile (\<lambda>p. fst p < k) ps" and ?dw = "dropWhile (\<lambda>p. fst p < k) ps"
  have split: "sorted_keys ?tw" "sorted_keys ?dw" "\<forall>x\<in>set ?tw. \<forall>y\<in>set ?dw. fst x < fst y"
    using 2(2) sorted_keys_append [of ?tw ?dw] by simp_all
  have dw: "\<forall>p\<in>set ?dw. k \<le> fst p"
  proof (cases ?dw)
    case (Cons d ds)
    then have "\<not> fst d < k" by (metis hd_dropWhile list.sel(1) list.simps(3))
    with Cons split(2) show ?thesis by (auto simp: sorted_keys_Cons)
  qed (simp only: list.set ball_empty)
  have dw': "\<forall>p\<in>set ?dw. hides v (fst p)" using 2(4) by (meson set_dropWhileD)
  have tw: "\<forall>p\<in>set ?tw. fst p < k" by (auto dest: set_takeWhileD)
  have rows: "\<forall>r\<in>set rows. k < fst r" "sorted_keys rows" using 2(3) by (auto simp: sorted_keys_Cons)
  note IH = 2(1) [OF split(2) rows(2) dw']
  have m: "k \<le> fst p \<and> (\<not> hides v k \<longrightarrow> k < fst p)" if "p \<in> set (merge2 v ?dw rows)" for p
    using that dw dw' rows by (auto simp: merge2_set order.strict_iff_order)
  then have "\<forall>x\<in>set ?tw. \<forall>y\<in>set (merge2 v ?dw rows). fst x < fst y"
    using tw by (meson order.strict_trans2)
  then show ?case
    using split(1) IH tw m by (simp add: sorted_keys_append sorted_keys_Cons)
qed simp


lemma in_some_rows: "(k, x) \<in> set (some_rows es) \<longleftrightarrow> (k, Some x) \<in> set es"
  by (induction es rule: some_rows.induct) auto

lemma sorted_some_rows: "sorted_keys es \<Longrightarrow> sorted_keys (some_rows es)"
proof (induction es rule: some_rows.induct)
  case (2 k x es)
  then have "k < fst q" if "q \<in> set (some_rows es)" for q
    using that in_some_rows [of "fst q" "snd q" es] by (auto simp: sorted_keys_Cons)
  with 2 show ?case by (simp add: sorted_keys_Cons)
qed (simp_all add: sorted_keys_Cons)

lemma in_pending_rows [simp]:
  "(k, x) \<in> set (pending_rows v) \<longleftrightarrow> fmlookup (tv_entries v) k = Some (Some x)"
  by (simp add: pending_rows_def in_some_rows)

lemma sorted_pending_rows [simp]: "sorted_keys (pending_rows v)"
  by (simp add: pending_rows_def sorted_some_rows)

definition overlay :: "tables \<Rightarrow> layer list \<Rightarrow> tables" where
  "overlay T ls = apply_ops T (concat (map to_ops ls))"

lemma overlay_look: "fmlookup (overlay T ls t) k = lays_look ls t k (fmlookup (T t) k)"
  by (simp add: overlay_def apply_layers)

lemma rows_in_overlay:
  "rows_in (overlay T ls t) lo hi =
     merge2 (view_of ls t lo hi) (pending_rows (view_of ls t lo hi)) (rows_in (T t) lo hi)"
proof (rule rows_in_eqI)
  let ?v = "view_of ls t lo hi"
  have "\<forall>p\<in>set (pending_rows ?v). hides ?v (fst p)"
    by (auto simp: hides_def)
  then show "sorted_keys (merge2 ?v (pending_rows ?v) (rows_in (T t) lo hi))"
    by (intro merge2_sorted) simp_all
  fix k x
  show "(k, x) \<in> set (merge2 ?v (pending_rows ?v) (rows_in (T t) lo hi)) \<longleftrightarrow>
    fmlookup (overlay T ls t) k = Some x \<and> in_bounds k lo hi"
  proof (cases "in_bounds k lo hi")
    case True
    have "fmlookup (overlay T ls t) k = tv_look ?v (fmlookup (T t) k) k"
      by (simp add: overlay_look view_of_look [OF True])
    then show ?thesis
      using True by (cases "fmlookup (tv_entries ?v) k") (auto simp: merge2_set hides_def tv_look_def)
  next
    case False
    then show ?thesis by (simp add: merge2_set view_of_out)
  qed
qed

lemma untouched_look: "\<not> touches ls t \<Longrightarrow> lays_look ls t k x = x"
proof (induction ls rule: rev_induct)
  case (snoc l ls)
  then have "fmlookup (l_tables l) t = None" "\<not> touches ls t"
    by (auto simp: touches_def)
  with snoc show ?case by (simp add: lays_look_append) (simp add: lays_look_def lay_look_def)
qed (simp add: lays_look_def)

lemma untouched_rows: "\<not> touches ls t \<Longrightarrow> rows_in (overlay T ls t) lo hi = rows_in (T t) lo hi"
  by (rule rows_in_cong) (simp add: overlay_look untouched_look)

lemma merged_overlay: "merged T ls t lo hi limit = snap_range (overlay T ls) t lo hi limit"
proof (cases "touches ls t")
  case True
  then show ?thesis
    by (simp add: merged_def snap_range_def rows_in_overlay Let_def merge_pages_result room_def)
qed (simp add: merged_def snap_range_def untouched_rows)

lemma last_opt_Some:
  "sorted_keys ps \<Longrightarrow> last_opt ps = Some (k, v) \<longleftrightarrow> (k, v) \<in> set ps \<and> (\<forall>p\<in>set ps. fst p \<le> k)"
  using sorted_keys_last [of ps k v] by (auto simp: last_opt_def)


lemma last_overlay:
  assumes "last_opt (sorted_list_of_fmap (T t)) = Some (k, x)" "\<not> hides v k"
    and v: "v = view_of ls t Unbounded Unbounded"
  shows "snap_last (overlay T ls) t =
    (case last_opt (pending_rows v) of
       Some p \<Rightarrow> if fst p > k then Some p else Some (k, x) | None \<Rightarrow> Some (k, x))"
proof -
  let ?M = "merge2 v (pending_rows v) (sorted_list_of_fmap (T t))"
  have M: "snap_last (overlay T ls) t = last_opt ?M" "sorted_keys ?M"
    using rows_in_overlay [of T ls t Unbounded Unbounded]
    by (simp_all add: snap_last_def snap_range_def limited_def v)
      (metis sorted_keys_sorted_list_of_fmap)
  have k: "(k, x) \<in> set (sorted_list_of_fmap (T t))" "\<forall>p\<in>set (sorted_list_of_fmap (T t)). fst p \<le> k"
    using assms(1) by (simp_all add: last_opt_Some)
  show ?thesis
  proof (cases "last_opt (pending_rows v)")
    case None
    then have "pending_rows v = []" by (simp add: last_opt_def split: if_splits)
    then have "last_opt ?M = Some (k, x)"
      using k assms(2) by (subst last_opt_Some [OF M(2)]) (auto simp: merge2_set)
    with M None show ?thesis by simp
  next
    case (Some p)
    then have p: "p \<in> set (pending_rows v)" "\<forall>q\<in>set (pending_rows v). fst q \<le> fst p"
      using last_opt_Some [of "pending_rows v" "fst p" "snd p"] by simp_all
    have "last_opt ?M = Some (if fst p > k then p else (k, x))"
    proof (cases "fst p > k")
      case True
      then have "last_opt ?M = Some (fst p, snd p)"
        using k p by (subst last_opt_Some [OF M(2)]) (auto simp: merge2_set)
      with True show ?thesis by simp
    next
      case False
      then have "last_opt ?M = Some (k, x)"
        using k p assms(2) by (subst last_opt_Some [OF M(2)]) (auto simp: merge2_set)
      with False show ?thesis by simp
    qed
    with M Some show ?thesis by simp
  qed
qed

definition wb_tables :: "write_behind \<Rightarrow> tables" where
  "wb_tables w = overlay (rb_db (wb_base w)) (wb_list w)"

lemma wb_get_tables: "wb_get w t k = snap_get (wb_tables w) t k"
  by (simp add: wb_get_def wb_tables_def overlay_get_look overlay_look snap_get_def)

lemma wb_range_tables: "wb_range w t lo hi n = snap_range (wb_tables w) t lo hi n"
  by (simp add: wb_range_def wb_tables_def merged_overlay)

lemma wb_count_tables: "wb_count w t lo hi = snap_count (wb_tables w) t lo hi"
  by (simp add: wb_count_def wb_tables_def redb_count_def snap_count_def untouched_rows
      merged_overlay snap_range_def limited_def)

lemma wb_last_tables: "wb_last w t = snap_last (wb_tables w) t"
proof (cases "touches (wb_list w) t")
  case False
  then show ?thesis
    using untouched_rows [OF False, of "rb_db (wb_base w)" Unbounded Unbounded]
    by (simp add: wb_last_def redb_last_def snap_last_def snap_range_def limited_def wb_tables_def)
next
  case True
  let ?T = "rb_db (wb_base w)" and ?v = "view_of (wb_list w) t Unbounded Unbounded"
  show ?thesis
  proof (cases "redb_last (wb_base w) t")
    case None
    then have "sorted_list_of_fmap (?T t) = []"
      by (simp add: redb_last_def snap_last_def snap_range_def limited_def last_opt_def split: if_splits)
    then have "snap_last (wb_tables w) t = last_opt (pending_rows ?v)"
      using rows_in_overlay [of ?T "wb_list w" t Unbounded Unbounded]
      by (simp add: snap_last_def snap_range_def limited_def wb_tables_def)
    with None True show ?thesis by (simp add: wb_last_def Let_def)
  next
    case (Some p)
    obtain k x where p: "p = (k, x)" by fastforce
    with Some have "last_opt (sorted_list_of_fmap (?T t)) = Some (k, x)"
      by (simp add: redb_last_def snap_last_def snap_range_def limited_def)
    from last_overlay [where T = ?T and t = t and v = ?v and ls = "wb_list w", OF this _ refl] Some True
    show ?thesis
      by (simp add: p wb_last_def Let_def wb_tables_def merged_overlay snap_last_def)
  qed
qed

section \<open>The store meets the engine's contract\<close>

definition wb_inv :: "write_behind \<Rightarrow> bool" where
  "wb_inv w \<longleftrightarrow> wb_bytes w = sum_list (map l_bytes (wb_list w))"

lemma overlay_append: "overlay T (a @ b) = overlay (overlay T a) b"
  by (simp add: overlay_def)

lemma overlay_Nil [simp]: "overlay T [] = T"
  by (simp add: overlay_def)

lemma overlay_push [simp]: "overlay T [from_batch b] = apply_ops T b"
  by (simp add: overlay_def apply_from_batch)

lemma redb_commit_db [simp]: "rb_db (redb_commit b d r) = apply_ops (rb_db r) b"
  by (simp add: redb_commit_def Let_def)

lemma flush_locked_tables [simp]: "wb_tables (flush_locked w) = wb_tables w"
  by (simp add: wb_tables_def flush_locked_def flush_drop_def flush_commit_def Let_def overlay_def)

lemma flush_locked_inv: "wb_inv w \<Longrightarrow> wb_inv (flush_locked w)"
  by (simp add: wb_inv_def flush_locked_def flush_drop_def flush_commit_def Let_def)

lemma flush_locked_list [simp]: "wb_list (flush_locked w) = []"
  by (simp add: flush_locked_def flush_drop_def flush_commit_def Let_def)

lemma wb_push_tables [simp]: "wb_tables (wb_push b w) = apply_ops (wb_tables w) b"
  by (simp add: wb_tables_def wb_push_def Let_def overlay_append)

lemma wb_push_inv: "wb_inv w \<Longrightarrow> wb_inv (wb_push b w)"
  by (simp add: wb_inv_def wb_push_def Let_def)

lemma wb_commit_tables [simp]: "wb_tables (wb_commit b d w) = apply_ops (wb_tables w) b"
proof -
  have "wb_tables ((flush_locked w)\<lparr>wb_base := redb_commit b True (wb_base (flush_locked w))\<rparr>) =
      apply_ops (wb_tables (flush_locked w)) b"
    by (simp add: wb_tables_def del: flush_locked_tables)
  then show ?thesis by (simp add: wb_commit_def Let_def)
qed

lemma wb_commit_inv: "wb_inv w \<Longrightarrow> wb_inv (wb_commit b d w)"
proof -
  assume "wb_inv w"
  then have "wb_inv (flush_locked w)" "wb_inv (flush_locked (wb_push b w))" "wb_inv (wb_push b w)"
    by (simp_all add: flush_locked_inv wb_push_inv)
  then show ?thesis by (simp add: wb_commit_def Let_def wb_inv_def)
qed

lemma wb_sync_tables: "wb_tables (wb_sync w) = wb_tables w"
proof -
  have "wb_tables (w'\<lparr>wb_base := redb_sync (wb_base w')\<rparr>) = wb_tables w'" for w'
    by (simp add: wb_tables_def redb_sync_def)
  then show ?thesis by (simp add: wb_sync_def Let_def)
qed

lemma wb_sync_inv: "wb_inv w \<Longrightarrow> wb_inv (wb_sync w)"
  using flush_locked_inv [of "flush_locked w"] flush_locked_inv [of w]
  by (simp add: wb_sync_def Let_def wb_inv_def)

interpretation wb: kv_store wb_inv wb_tables wb_commit wb_sync wb_get wb_range wb_count wb_last
  by unfold_locales
    (simp_all add: wb_commit_inv wb_sync_inv wb_sync_tables wb_get_tables wb_range_tables
      wb_count_tables wb_last_tables)


section \<open>Reads among flushes, and what a crash keeps\<close>

text \<open>The batches split in three: \<open>A\<close> is in the engine and dropped from the layers, \<open>B\<close> is
  the flush in progress, \<open>C\<close> came since. The disk has a prefix of what the engine has.\<close>

definition flushing_of :: "wb_phase \<Rightarrow> layer list" where
  "flushing_of p = (case p of Flushing list c \<Rightarrow> list | _ \<Rightarrow> [])"

definition flush_done :: "wb_phase \<Rightarrow> bool" where
  "flush_done p \<longleftrightarrow> (case p of Flushing list c \<Rightarrow> c | _ \<Rightarrow> False)"

lemma phase_simps [simp]:
  "flushing_of Unlocked = []" "flushing_of Locked = []" "flushing_of Flushed = []" "flushing_of (Flushing list c) = list"
  "\<not> flush_done Unlocked" "\<not> flush_done Locked" "\<not> flush_done Flushed" "flush_done (Flushing list c) = c"
  by (simp_all add: flushing_of_def flush_done_def)

definition wb_split ::
  "redb \<Rightarrow> wb_state \<Rightarrow> write_batch list \<Rightarrow> write_batch list \<Rightarrow> write_batch list \<Rightarrow> nat \<Rightarrow> bool" where
  "wb_split base s A B C d \<longleftrightarrow>
     ws_hist s = A @ B @ C \<and>
     wb_list (ws_wb s) = map from_batch (B @ C) \<and>
     flushing_of (ws_phase s) = map from_batch B \<and>
     rb_db (wb_base (ws_wb s)) = apply_ops (rb_db base) (concat (A @ (if flush_done (ws_phase s) then B else []))) \<and>
     rb_disk (wb_base (ws_wb s)) = apply_ops (rb_db base) (concat (take d (ws_hist s))) \<and>
     d \<le> length A + (if flush_done (ws_phase s) then length B else 0) \<and>
     prefix (ws_durable s) A \<and> length (ws_durable s) \<le> d"

text \<open>What is promised: the history when the last durable call took the lock is a prefix of what it
  promised; and the history when the present holder took the lock is in the engine once it has
  flushed.\<close>

definition wb_promise :: "wb_state \<Rightarrow> write_batch list \<Rightarrow> write_batch list \<Rightarrow> bool" where
  "wb_promise s A B \<longleftrightarrow>
     prefix (ws_safe s) (ws_durable s) \<and>
     (ws_phase s = Locked \<longrightarrow> prefix (ws_begun s) (ws_hist s)) \<and>
     (ws_phase s \<noteq> Unlocked \<and> ws_phase s \<noteq> Locked \<longrightarrow> prefix (ws_begun s) (A @ B))"

lemma apply_from_batches: "apply_ops T (concat (map to_ops (map from_batch bs))) = apply_ops T (concat bs)"
  by (induction bs arbitrary: T) (simp_all add: apply_from_batch)

lemma wb_split_engine: "wb_split base s A B C d \<Longrightarrow> in_engine s = length A"
  by (auto simp: wb_split_def in_engine_def)

lemma prefix_snocI: "prefix p (A @ B @ C) \<Longrightarrow> prefix p (A @ B @ C @ [b])"
  by (metis append.assoc prefix_prefix)

lemma wb_split_step:
  assumes "wb_step s s'" "wb_split base s A B C d" "wb_promise s A B"
  shows "\<exists>A B C d. wb_split base s' A B C d \<and> wb_promise s' A B"
  using assms(1)
proof cases
  case (step_commit b)
  then have "wb_split base s' A B (C @ [b]) d \<and> wb_promise s' A B"
    using assms(2,3) by (simp add: wb_split_def wb_promise_def wb_push_def Let_def prefix_snocI split: if_splits)
  then show ?thesis by blast
next
  case (step_lock a)
  then have "wb_split base s' A B C d \<and> wb_promise s' A B"
    using assms(2,3) by (auto simp: wb_split_def wb_promise_def)
  then show ?thesis by blast
next
  case step_flush_begin
  then have "wb_split base s' A C [] d \<and> wb_promise s' A C"
    using assms(2,3) by (auto simp: wb_split_def wb_promise_def)
  then show ?thesis by blast
next
  case (step_flush_commit list)
  then have "wb_split base s' A B C d \<and> wb_promise s' A B"
    using assms(2,3) apply_from_batches [of _ B]
    by (auto simp: wb_split_def wb_promise_def flush_commit_def redb_commit_def Let_def)
  then show ?thesis by blast
next
  case (step_flush_drop list)
  then have "wb_split base s' (A @ B) [] C d \<and> wb_promise s' (A @ B) []"
    using assms(2,3) by (auto simp: wb_split_def wb_promise_def flush_drop_def)
  then show ?thesis by blast
next
  case step_release
  then have "wb_split base s' A B C d \<and> wb_promise s' A B"
    using assms(2,3) by (auto simp: wb_split_def wb_promise_def)
  then show ?thesis by blast
next
  case (step_durable_commit b)
  then have "wb_split base s' (A @ [b]) [] C (length A + 1) \<and> wb_promise s' (A @ [b]) []"
    using assms(2,3) wb_split_engine [OF assms(2)]
    by (auto simp: wb_split_def wb_promise_def redb_commit_def Let_def)
  then show ?thesis by blast
next
  case step_sync
  then have "wb_split base s' A [] C (length A) \<and> wb_promise s' A []"
    using assms(2,3) wb_split_engine [OF assms(2)] by (auto simp: wb_split_def wb_promise_def redb_sync_def)
  then show ?thesis by blast
qed

lemma wb_reach_split: "wb_reach base max_bytes s \<Longrightarrow> \<exists>A B C d. wb_split base s A B C d \<and> wb_promise s A B"
proof (induction rule: wb_reach.induct)
  case wb_start
  then have "wb_split base (wb_init base max_bytes) [] [] [] 0 \<and> wb_promise (wb_init base max_bytes) [] []"
    by (simp add: wb_split_def wb_promise_def wb_init_def wb_new_def)
  then show ?case by blast
qed (blast dest: wb_split_step)

lemma overlay_again: "overlay (overlay T (a @ b)) a = overlay T (a @ b)" if "b = []"
  using that by (intro tables_eqI) (simp add: overlay_look lays_look_again)

text \<open>In every reachable state, mid-flush ones included, the layers over the engine are all the
  batches committed so far.\<close>

lemma wb_split_tables:
  assumes "wb_split base s A B C d"
  shows "wb_tables (ws_wb s) = apply_ops (rb_db base) (concat (ws_hist s))"
proof -
  have look: "overlay T (map from_batch bs) = apply_ops T (concat bs)" for T bs
    unfolding overlay_def by (rule apply_from_batches)
  have twice: "apply_ops (apply_ops T (concat B)) (concat B) = apply_ops T (concat B)" for T
    using overlay_again [of "[]" T "map from_batch B"] look [of _ B] by simp
  show ?thesis
    using assms twice
    by (auto simp: wb_split_def wb_tables_def overlay_append look split: option.splits prod.splits if_splits)
qed

text \<open>The code's own flush, commit and sync are runs of these steps.\<close>

lemma flush_locked_steps:
  assumes "ws_phase s = Unlocked"
  shows "wb_step\<^sup>*\<^sup>* s (s\<lparr>ws_wb := flush_locked (ws_wb s), ws_phase := Flushed, ws_after := a, ws_begun := ws_hist s\<rparr>)"
proof -
  let ?l = "wb_list (ws_wb s)"
  let ?s0 = "s\<lparr>ws_phase := Locked, ws_after := a, ws_begun := ws_hist s\<rparr>"
  have 0: "wb_step s ?s0" by (rule step_lock [OF assms])
  show ?thesis
  proof (cases "?l = []")
    case True
    have "wb_step ?s0 (?s0\<lparr>ws_phase := (if wb_list (ws_wb ?s0) = [] then Flushed else Flushing (wb_list (ws_wb ?s0)) False)\<rparr>)"
      by (rule step_flush_begin) simp
    with 0 have "wb_step\<^sup>*\<^sup>* s (?s0\<lparr>ws_phase := Flushed\<rparr>)" using True by (auto intro: rtranclp.rtrancl_into_rtrancl)
    moreover have "?s0\<lparr>ws_phase := Flushed\<rparr> =
        s\<lparr>ws_wb := flush_locked (ws_wb s), ws_phase := Flushed, ws_after := a, ws_begun := ws_hist s\<rparr>"
      using True by (cases s) (simp add: flush_locked_def)
    ultimately show ?thesis by simp
  next
    case False
    let ?s1 = "?s0\<lparr>ws_phase := Flushing ?l False\<rparr>"
    let ?s2 = "?s1\<lparr>ws_wb := flush_commit ?l (ws_wb ?s1), ws_phase := Flushing ?l True\<rparr>"
    let ?s3 = "?s2\<lparr>ws_wb := flush_drop ?l (ws_wb ?s2), ws_phase := Flushed\<rparr>"
    have "wb_step ?s0 ?s1" using step_flush_begin [of ?s0] False by simp
    moreover have "wb_step ?s1 ?s2" by (rule step_flush_commit) simp
    moreover have "wb_step ?s2 ?s3" by (rule step_flush_drop) simp
    ultimately have "wb_step\<^sup>*\<^sup>* s ?s3" using 0 by (meson converse_rtranclp_into_rtranclp rtranclp.rtrancl_refl)
    moreover have "?s3 = s\<lparr>ws_wb := flush_locked (ws_wb s), ws_phase := Flushed, ws_after := a, ws_begun := ws_hist s\<rparr>"
      using False by (cases s) (simp add: flush_locked_def Let_def)
    ultimately show ?thesis by simp
  qed
qed

lemma wb_commit_steps:
  assumes "ws_phase s = Unlocked"
  shows "\<exists>s'. wb_step\<^sup>*\<^sup>* s s' \<and> ws_wb s' = wb_commit b sync (ws_wb s) \<and>
    ws_hist s' = ws_hist s @ [b] \<and> ws_phase s' = Unlocked"
proof (cases sync)
  case True
  note run = flush_locked_steps [OF assms, of "ThenCommit b"]
  let ?s = "s\<lparr>ws_wb := flush_locked (ws_wb s), ws_phase := Flushed, ws_after := ThenCommit b, ws_begun := ws_hist s\<rparr>"
  have "in_engine ?s = length (ws_hist s)" by (simp add: in_engine_def)
  with step_durable_commit [of ?s b] run True show ?thesis
    by (intro exI conjI) (erule rtranclp.rtrancl_into_rtrancl, simp, simp_all add: wb_commit_def Let_def)
next
  case False
  let ?s = "s\<lparr>ws_wb := wb_push b (ws_wb s), ws_hist := ws_hist s @ [b]\<rparr>"
  have push: "wb_step s ?s" by (rule step_commit)
  show ?thesis
  proof (cases "wb_over (wb_push b (ws_wb s))")
    case True
    have "ws_phase ?s = Unlocked" using assms by simp
    note run = flush_locked_steps [OF this, of ThenRelease]
    let ?s' = "?s\<lparr>ws_wb := flush_locked (ws_wb ?s), ws_phase := Flushed, ws_after := ThenRelease, ws_begun := ws_hist ?s\<rparr>"
    have "wb_step ?s' (?s'\<lparr>ws_phase := Unlocked\<rparr>)" by (rule step_release) simp_all
    with push run have "wb_step\<^sup>*\<^sup>* s (?s'\<lparr>ws_phase := Unlocked\<rparr>)"
      by (meson converse_rtranclp_into_rtranclp rtranclp.rtrancl_into_rtrancl)
    with True False show ?thesis
      by (intro exI [of _ "?s'\<lparr>ws_phase := Unlocked\<rparr>"]) (simp add: wb_commit_def Let_def)
  next
    case no: False
    from push have "wb_step\<^sup>*\<^sup>* s ?s" by blast
    with no False assms show ?thesis by (intro exI [of _ ?s]) (simp add: wb_commit_def Let_def)
  qed
qed

text \<open>A run for the witnesses: one batch in the engine but not dropped yet, one committed since.\<close>

definition sample_base :: redb where
  "sample_base = \<lparr>rb_db = no_tables(''t'' := fmupd [1] [10] fmempty),
     rb_disk = no_tables(''t'' := fmupd [1] [10] fmempty), rb_capture = None\<rparr>"

definition sample_b1 :: write_batch where
  "sample_b1 = [Put ''t'' [2] [20], DeleteRange ''t'' [1] [2]]"

definition sample_b2 :: write_batch where
  "sample_b2 = [Put ''t'' [1] [11], Put ''t'' [3] [30]]"


definition sample_b3 :: write_batch where
  "sample_b3 = [Put ''t'' [4] [40]]"

definition sample_begin :: "wb_after \<Rightarrow> wb_state" where
  "sample_begin a = (wb_init sample_base 100)\<lparr>
     ws_wb := flush_commit [from_batch sample_b1] (wb_push sample_b1 (wb_new sample_base 100)),
     ws_hist := [sample_b1], ws_phase := Flushing [from_batch sample_b1] True, ws_after := a, ws_begun := [sample_b1]\<rparr>"

lemma sample_begin_reach: "wb_reach sample_base 100 (sample_begin a)"
proof -
  let ?s0 = "wb_init sample_base 100"
  let ?s1 = "?s0\<lparr>ws_wb := wb_push sample_b1 (ws_wb ?s0), ws_hist := ws_hist ?s0 @ [sample_b1]\<rparr>"
  let ?s2 = "?s1\<lparr>ws_phase := Locked, ws_after := a, ws_begun := ws_hist ?s1\<rparr>"
  let ?s3 = "?s2\<lparr>ws_phase := Flushing [from_batch sample_b1] False\<rparr>"
  let ?s4 = "?s3\<lparr>ws_wb := flush_commit [from_batch sample_b1] (ws_wb ?s3), ws_phase := Flushing [from_batch sample_b1] True\<rparr>"
  have 0: "wb_reach sample_base 100 ?s0" by (rule wb_start) (simp add: sample_base_def)
  have 1: "wb_reach sample_base 100 ?s1" by (rule wb_next [OF 0 step_commit])
  have 2: "wb_reach sample_base 100 ?s2" by (rule wb_next [OF 1 step_lock]) (simp add: wb_init_def)
  have "wb_list (ws_wb ?s2) = [from_batch sample_b1]" by (simp add: wb_init_def wb_push_def wb_new_def Let_def)
  then have "wb_step ?s2 ?s3" using step_flush_begin [of ?s2] by simp
  from wb_next [OF 2 this] have 3: "wb_reach sample_base 100 ?s3" .
  have 4: "wb_reach sample_base 100 ?s4" by (rule wb_next [OF 3 step_flush_commit]) simp
  have "?s4 = sample_begin a" by (simp add: sample_begin_def wb_init_def)
  with 4 show ?thesis by (simp only:)
qed

text \<open>C13: The write-behind store answers from all the batches committed so far, in order, at every
  moment: whatever non-durable commits landed, and wherever a flush is between reading the
  layers, committing them to the engine and dropping them, the point lookup, the paged merge of
  a range, the count and the last row of a snapshot return what one table holding every
  batch would return.\<close>

theorem write_behind_reads:
  assumes "wb_reach base max_bytes s" "T = apply_ops (rb_db base) (concat (ws_hist s))"
  shows "wb_get (ws_wb s) t k = snap_get T t k \<and>
    wb_range (ws_wb s) t lo hi limit = snap_range T t lo hi limit \<and>
    wb_count (ws_wb s) t lo hi = snap_count T t lo hi \<and>
    wb_last (ws_wb s) t = snap_last T t"
  using wb_reach_split [OF assms(1)] assms(2) wb_split_tables
  by (metis wb_get_tables wb_range_tables wb_count_tables wb_last_tables)

theorem write_behind_reads_witness:
  "\<exists>s. wb_reach sample_base 100 s \<and> ws_phase s = Flushing [from_batch sample_b1] True \<and>
     wb_get (ws_wb s) ''t'' [1] = Some [11] \<and>
     wb_range (ws_wb s) ''t'' Unbounded Unbounded 2 = [([1], [11]), ([2], [20])] \<and>
     wb_last (ws_wb s) ''t'' = Some ([3], [30])"
proof -
  let ?b = "sample_begin ThenRelease"
  let ?s = "?b\<lparr>ws_wb := wb_push sample_b2 (ws_wb ?b), ws_hist := ws_hist ?b @ [sample_b2]\<rparr>"
  have s: "wb_reach sample_base 100 ?s" by (rule wb_next [OF sample_begin_reach step_commit])
  have h: "ws_hist ?s = [sample_b1, sample_b2]" "ws_phase ?s = Flushing [from_batch sample_b1] True"
    by (simp_all add: sample_begin_def)
  note reads = write_behind_reads [OF s refl, unfolded h(1)]
  have T: "apply_ops (rb_db sample_base) (concat [sample_b1, sample_b2]) ''t'' =
      fmupd [3] [30] (fmupd [1] [11] (fmupd [2] [20] fmempty))"
    by (rule fmap_ext) (simp add: sample_base_def sample_b1_def sample_b2_def in_span_def)
  show ?thesis
    using s h(2) reads [of "''t''" "[1]" Unbounded Unbounded 2]
    by (intro exI [of _ ?s])
      (simp add: snap_get_def snap_range_def snap_last_def limited_def last_opt_def T del: concat.simps)
qed

text \<open>C14: A crash of the write-behind store keeps a prefix of the batches in the order they lie in
  the store, whole, and loses the rest. The prefix holds every batch that a durable commit or
  sync made durable when it returned, its own batch included, and these begin with every batch
  that had been committed when that call took the flush lock; whatever was committed while it
  flushed, committed or synced, and wherever a later flush or durable call stopped. (A batch
  committed between the flush of a durable commit and its engine commit lies above the durable
  batch, and a crash may lose it although it returned first.)\<close>

theorem write_behind_crash:
  assumes "wb_reach base max_bytes s"
  shows "\<exists>d \<le> length (ws_hist s).
    wb_tables (wb_crash (ws_wb s)) = apply_ops (rb_db base) (concat (take d (ws_hist s))) \<and>
    prefix (ws_durable s) (take d (ws_hist s)) \<and> prefix (ws_safe s) (ws_durable s)"
proof -
  obtain A B C d where sp: "wb_split base s A B C d" "wb_promise s A B" using wb_reach_split [OF assms] by blast
  then have "prefix (ws_durable s) (take d (ws_hist s))"
    by (auto simp: wb_split_def prefix_def)
  with sp show ?thesis
    by (intro exI [of _ d])
      (auto simp: wb_split_def wb_promise_def wb_crash_def wb_tables_def redb_crash_def split: if_splits)
qed

text \<open>Here the third batch is committed after the flush of the durable commit of the second.\<close>

theorem write_behind_crash_witness:
  "\<exists>s. wb_reach sample_base 100 s \<and> ws_hist s = [sample_b1, sample_b2, sample_b3] \<and>
     ws_durable s = [sample_b1, sample_b2] \<and> wb_list (ws_wb s) = [from_batch sample_b3] \<and>
     wb_get (wb_crash (ws_wb s)) ''t'' [2] = Some [20] \<and> wb_get (wb_crash (ws_wb s)) ''t'' [1] = Some [11]"
proof -
  let ?b = "sample_begin (ThenCommit sample_b2)"
  let ?s1 = "?b\<lparr>ws_wb := flush_drop [from_batch sample_b1] (ws_wb ?b), ws_phase := Flushed\<rparr>"
  let ?s2 = "?s1\<lparr>ws_wb := wb_push sample_b3 (ws_wb ?s1), ws_hist := ws_hist ?s1 @ [sample_b3]\<rparr>"
  let ?s3 = "?s2\<lparr>ws_wb := (ws_wb ?s2)\<lparr>wb_base := redb_commit sample_b2 True (wb_base (ws_wb ?s2))\<rparr>, ws_phase := Unlocked,
       ws_hist := take (in_engine ?s2) (ws_hist ?s2) @ sample_b2 # drop (in_engine ?s2) (ws_hist ?s2),
       ws_safe := ws_begun ?s2, ws_durable := take (in_engine ?s2) (ws_hist ?s2) @ [sample_b2]\<rparr>"
  have "wb_step ?b ?s1" by (rule step_flush_drop) (simp add: sample_begin_def)
  moreover have "wb_step ?s1 ?s2" by (rule step_commit)
  moreover have "wb_step ?s2 ?s3" by (rule step_durable_commit) (simp_all add: sample_begin_def)
  ultimately have r: "wb_reach sample_base 100 ?s3" by (rule wb_next [OF wb_next [OF wb_next [OF sample_begin_reach]]])
  have list: "wb_list (ws_wb ?s3) = [from_batch sample_b3]"
    by (simp add: sample_begin_def flush_drop_def flush_commit_def wb_push_def wb_new_def Let_def)
  then have "in_engine ?s2 = 1" by (simp add: in_engine_def sample_begin_def)
  then have h: "ws_hist ?s3 = [sample_b1, sample_b2, sample_b3]" "ws_durable ?s3 = [sample_b1, sample_b2]"
    by (simp_all add: sample_begin_def)
  obtain d where d: "wb_tables (wb_crash (ws_wb ?s3)) = apply_ops (rb_db sample_base) (concat (take d [sample_b1, sample_b2, sample_b3]))"
    "prefix [sample_b1, sample_b2] (take d [sample_b1, sample_b2, sample_b3])"
    using write_behind_crash [OF r] unfolding h by blast
  have "2 \<le> d" using prefix_length_le [OF d(2)] by simp
  then have "take d [sample_b1, sample_b2, sample_b3] \<in> {[sample_b1, sample_b2], [sample_b1, sample_b2, sample_b3]}"
    by (cases "d = 2") (auto simp: take_Cons' numeral_2_eq_2)
  with d(1) have "wb_get (wb_crash (ws_wb ?s3)) ''t'' [2] = Some [20] \<and> wb_get (wb_crash (ws_wb ?s3)) ''t'' [1] = Some [11]"
    by (auto simp: wb_get_tables snap_get_def sample_base_def sample_b1_def sample_b2_def sample_b3_def in_span_def)
  with r h list show ?thesis by blast
qed

text \<open>C19: The layers stay within their budget: after every commit, durable or not, they hold at
  most \<^verbatim>\<open>max_bytes\<close> and there are at most \<open>MAX_LAYERS\<close> of them, and the byte count is
  exactly the sum over the layers, so it never underflows.\<close>

theorem write_behind_bounded:
  assumes "wb_inv w"
  shows "wb_inv (wb_commit b sync w) \<and> wb_bytes (wb_commit b sync w) \<le> wb_max_bytes w \<and>
    length (wb_list (wb_commit b sync w)) \<le> MAX_LAYERS"
proof -
  have max: "wb_max_bytes (flush_locked v) = wb_max_bytes v" "wb_max_bytes (wb_push b w) = wb_max_bytes w" for v
    by (simp_all add: flush_locked_def flush_drop_def flush_commit_def wb_push_def Let_def)
  have "wb_bytes (flush_locked v) = 0" if "wb_inv v" for v
    using flush_locked_inv [OF that] by (simp add: wb_inv_def)
  with wb_commit_inv [OF assms, of b sync] wb_push_inv [OF assms, of b] assms max show ?thesis
    by (auto simp: wb_commit_def wb_over_def Let_def)
qed

theorem write_behind_bounded_witness:
  "wb_bytes (wb_commit sample_b1 False (wb_new sample_base 100)) \<le> 100"
  using write_behind_bounded [of "wb_new sample_base 100" sample_b1 False]
  by (simp add: wb_inv_def wb_new_def)

end
