(* ===== verification/Mvcc_Cache.thy ===== *)
theory Mvcc_Cache
  imports Mvcc_Record Kv_Store
begin

text \<open>
  What the MVCC layer keeps in RAM, \<^verbatim>\<open>crates/storage/src/mvcc/cache.rs\<close>: every key's index, with
  an account of its bytes, and an LRU cache of latest records, sharded by a hash of the key and
  bounded in bytes. The hash is std's randomly seeded one; it is a field of the cache and no
  theorem depends on it.

  Shown: the byte and entry accounts are exact (so the subtractions never underflow), the cache
  stays within its budget, and it never answers with a record that was not put there for that
  key and revision.
\<close>

section \<open>The resident index\<close>

record resident_index =
  ri_map :: "(bytes, generation list) fmap"
  ri_bytes :: nat

definition ri_default :: resident_index where
  "ri_default = \<lparr>ri_map = fmempty, ri_bytes = 0\<rparr>"

definition INDEX_KEY_OVERHEAD :: nat where
  "INDEX_KEY_OVERHEAD = 64"

text \<open>The sizes of \<^verbatim>\<open>Generation\<close> and \<^verbatim>\<open>Revision\<close> on a 64-bit target.\<close>

definition GENERATION_SIZE :: nat where
  "GENERATION_SIZE = 64"

definition REVISION_SIZE :: nat where
  "REVISION_SIZE = 16"

definition index_entry_bytes :: "bytes \<Rightarrow> generation list \<Rightarrow> nat" where
  "index_entry_bytes key gens =
     (let revs = sum_list (map (\<lambda>g. length (g_revs g)) gens) in
      length key + INDEX_KEY_OVERHEAD + length gens * GENERATION_SIZE + revs * REVISION_SIZE)"

definition idx_get :: "resident_index \<Rightarrow> bytes \<Rightarrow> key_index option" where
  "idx_get ri key = map_option (\<lambda>g. \<lparr>i_key = key, i_generations = g\<rparr>) (fmlookup (ri_map ri) key)"

definition idx_get_generations :: "resident_index \<Rightarrow> bytes \<Rightarrow> generation list option" where
  "idx_get_generations ri key = fmlookup (ri_map ri) key"

definition idx_contains :: "resident_index \<Rightarrow> bytes \<Rightarrow> bool" where
  "idx_contains ri key \<longleftrightarrow> fmlookup (ri_map ri) key \<noteq> None"

definition idx_range ::
  "resident_index \<Rightarrow> bytes bound \<Rightarrow> bytes bound \<Rightarrow> (bytes \<times> generation list) list" where
  "idx_range ri lo hi = rows_in (ri_map ri) lo hi"

definition idx_iter :: "resident_index \<Rightarrow> (bytes \<times> generation list) list" where
  "idx_iter ri = sorted_list_of_fmap (ri_map ri)"

definition idx_remove :: "bytes \<Rightarrow> resident_index \<Rightarrow> resident_index" where
  "idx_remove key ri =
     (case fmlookup (ri_map ri) key of
        Some old \<Rightarrow>
          ri\<lparr>ri_map := fmdrop key (ri_map ri), ri_bytes := ri_bytes ri - index_entry_bytes key old\<rparr>
      | None \<Rightarrow> ri)"

definition idx_set :: "bytes \<Rightarrow> generation list \<Rightarrow> resident_index \<Rightarrow> resident_index" where
  "idx_set key gens ri =
     (if gens = [] then idx_remove key ri
      else let add = index_entry_bytes key gens;
               ri' = (case fmlookup (ri_map ri) key of
                        Some old \<Rightarrow> ri\<lparr>ri_bytes := ri_bytes ri - index_entry_bytes key old\<rparr>
                      | None \<Rightarrow> ri)
           in ri'\<lparr>ri_map := fmupd key gens (ri_map ri'), ri_bytes := ri_bytes ri' + add\<rparr>)"

definition idx_clear :: "resident_index \<Rightarrow> resident_index" where
  "idx_clear ri = ri\<lparr>ri_map := fmempty, ri_bytes := 0\<rparr>"

section \<open>The value cache\<close>

definition SHARDS :: nat where
  "SHARDS = 16"

definition ENTRY_OVERHEAD :: nat where
  "ENTRY_OVERHEAD = 160"

record cache_config =
  cf_value_cache_bytes :: nat
  cf_max_entry_bytes :: nat

record slot =
  sl_rev :: revision
  sl_rec :: kv_record
  sl_tick :: nat
  sl_size :: nat

record shard =
  sh_map :: "(bytes, slot) fmap"
  sh_order :: "(nat, bytes) fmap"
  sh_bytes :: nat
  sh_tick :: nat

definition shard_default :: shard where
  "shard_default = \<lparr>sh_map = fmempty, sh_order = fmempty, sh_bytes = 0, sh_tick = 0\<rparr>"

definition shard_remove :: "bytes \<Rightarrow> shard \<Rightarrow> nat option \<times> shard" where
  "shard_remove key sh =
     (case fmlookup (sh_map sh) key of
        None \<Rightarrow> (None, sh)
      | Some s \<Rightarrow>
          (Some (sl_size s),
           sh\<lparr>sh_map := fmdrop key (sh_map sh), sh_order := fmdrop (sl_tick s) (sh_order sh),
              sh_bytes := sh_bytes sh - sl_size s\<rparr>))"

record value_cache =
  vc_shards :: "shard list"
  vc_hash :: "bytes \<Rightarrow> nat"
  vc_shard_budget :: nat
  vc_budget :: nat
  vc_max_entry :: nat
  vc_hits :: nat
  vc_misses :: nat
  vc_evictions :: nat
  vc_bytes :: nat
  vc_entries :: nat

definition vc_new :: "(bytes \<Rightarrow> nat) \<Rightarrow> cache_config \<Rightarrow> value_cache" where
  "vc_new hash cfg =
     (let shard_budget = cf_value_cache_bytes cfg div SHARDS in
      \<lparr>vc_shards = replicate SHARDS shard_default, vc_hash = hash,
       vc_shard_budget = shard_budget, vc_budget = shard_budget * SHARDS,
       vc_max_entry = min (cf_max_entry_bytes cfg) (shard_budget div 4),
       vc_hits = 0, vc_misses = 0, vc_evictions = 0, vc_bytes = 0, vc_entries = 0\<rparr>)"

definition vc_enabled :: "value_cache \<Rightarrow> bool" where
  "vc_enabled vc \<longleftrightarrow> vc_budget vc > 0"

definition shard_of :: "value_cache \<Rightarrow> bytes \<Rightarrow> nat" where
  "shard_of vc key = vc_hash vc key mod SHARDS"

definition shard_get :: "bytes \<Rightarrow> revision \<Rightarrow> shard \<Rightarrow> kv_record option \<times> shard" where
  "shard_get key rv sh =
     (let tick = sh_tick sh + 1; sh = sh\<lparr>sh_tick := tick\<rparr> in
      case fmlookup (sh_map sh) key of
        Some s \<Rightarrow>
          if sl_rev s = rv
          then (let sh = sh\<lparr>sh_map := fmupd key (s\<lparr>sl_tick := tick\<rparr>) (sh_map sh)\<rparr>;
                    sh = (case fmlookup (sh_order sh) (sl_tick s) of
                            Some k \<Rightarrow> sh\<lparr>sh_order := fmupd tick k (fmdrop (sl_tick s) (sh_order sh))\<rparr>
                          | None \<Rightarrow> sh)
                in (Some (sl_rec s), sh))
          else (None, sh)
      | None \<Rightarrow> (None, sh))"

definition vc_get :: "bytes \<Rightarrow> revision \<Rightarrow> value_cache \<Rightarrow> kv_record option \<times> value_cache" where
  "vc_get key rv vc =
     (if \<not> vc_enabled vc then (None, vc)
      else let i = shard_of vc key; (found, sh) = shard_get key rv (vc_shards vc ! i);
               vc = vc\<lparr>vc_shards := (vc_shards vc)[i := sh]\<rparr>
           in (case found of
                 Some rec \<Rightarrow> (Some rec, vc\<lparr>vc_hits := vc_hits vc + 1\<rparr>)
               | None \<Rightarrow> (None, vc\<lparr>vc_misses := vc_misses vc + 1\<rparr>)))"

text \<open>The eviction loop pops the least recently used entries, in the order of their ticks, while
  the shard is over its budget. It returns the evicted sizes.\<close>

fun evict :: "nat \<Rightarrow> (nat \<times> bytes) list \<Rightarrow> shard \<Rightarrow> nat list \<times> shard" where
  "evict budget [] sh = ([], sh)"
| "evict budget ((tick, victim) # order) sh =
     (if sh_bytes sh > budget
      then let sh = sh\<lparr>sh_order := fmdrop tick (sh_order sh)\<rparr> in
        (case fmlookup (sh_map sh) victim of
           Some s \<Rightarrow>
             let (gone, sh) = evict budget order
                   (sh\<lparr>sh_map := fmdrop victim (sh_map sh), sh_bytes := sh_bytes sh - sl_size s\<rparr>)
             in (sl_size s # gone, sh)
         | None \<Rightarrow> evict budget order sh)
      else ([], sh))"

definition entry_size :: "bytes \<Rightarrow> kv_record \<Rightarrow> nat" where
  "entry_size key rec = ENTRY_OVERHEAD + 2 * length key + length (r_value rec)"

definition vc_insert :: "bytes \<Rightarrow> revision \<Rightarrow> kv_record \<Rightarrow> bool \<Rightarrow> value_cache \<Rightarrow> value_cache" where
  "vc_insert key rv rec only_if_newer vc =
     (if \<not> vc_enabled vc then vc
      else let size = entry_size key rec; i = shard_of vc key; sh = vc_shards vc ! i in
        if only_if_newer \<and> (case fmlookup (sh_map sh) key of Some s \<Rightarrow> sl_rev s \<ge> rv | None \<Rightarrow> False)
        then vc
        else let (freed, sh) = shard_remove key sh;
                 vc = (case freed of
                         Some n \<Rightarrow> vc\<lparr>vc_bytes := vc_bytes vc - n, vc_entries := vc_entries vc - 1\<rparr>
                       | None \<Rightarrow> vc)
             in if length (r_value rec) > vc_max_entry vc
                then vc\<lparr>vc_shards := (vc_shards vc)[i := sh]\<rparr>
                else let tick = sh_tick sh + 1;
                         sh = sh\<lparr>sh_tick := tick, sh_order := fmupd tick key (sh_order sh),
                                 sh_map := fmupd key \<lparr>sl_rev = rv, sl_rec = rec, sl_tick = tick, sl_size = size\<rparr>
                                             (sh_map sh),
                                 sh_bytes := sh_bytes sh + size\<rparr>;
                         (gone, sh) = evict (vc_shard_budget vc) (sorted_list_of_fmap (sh_order sh)) sh
                     in vc\<lparr>vc_shards := (vc_shards vc)[i := sh],
                           vc_bytes := vc_bytes vc + size - sum_list gone,
                           vc_entries := vc_entries vc + 1 - length gone,
                           vc_evictions := vc_evictions vc + length gone\<rparr>)"

definition vc_remove :: "bytes \<Rightarrow> value_cache \<Rightarrow> value_cache" where
  "vc_remove key vc =
     (if \<not> vc_enabled vc then vc
      else let i = shard_of vc key; (freed, sh) = shard_remove key (vc_shards vc ! i);
               vc = vc\<lparr>vc_shards := (vc_shards vc)[i := sh]\<rparr>
           in (case freed of
                 Some n \<Rightarrow> vc\<lparr>vc_bytes := vc_bytes vc - n, vc_entries := vc_entries vc - 1\<rparr>
               | None \<Rightarrow> vc))"

fun clear_shards :: "shard list \<Rightarrow> value_cache \<Rightarrow> shard list \<times> value_cache" where
  "clear_shards [] vc = ([], vc)"
| "clear_shards (s # ss) vc =
     (let (cleared, vc) = clear_shards ss
            (vc\<lparr>vc_bytes := vc_bytes vc - sh_bytes s, vc_entries := vc_entries vc - fcard (fmdom (sh_map s))\<rparr>)
      in (shard_default # cleared, vc))"

definition vc_clear :: "value_cache \<Rightarrow> value_cache" where
  "vc_clear vc = (let (ss, vc) = clear_shards (vc_shards vc) vc in vc\<lparr>vc_shards := ss\<rparr>)"


text \<open>The life of a cache: the calls made on it.\<close>

datatype cache_op =
    CacheGet bytes revision
  | CacheInsert bytes revision kv_record bool
  | CacheRemove bytes
  | CacheClear

fun cache_step :: "value_cache \<Rightarrow> cache_op \<Rightarrow> value_cache" where
  "cache_step vc (CacheGet k rv) = snd (vc_get k rv vc)"
| "cache_step vc (CacheInsert k rv rec newer) = vc_insert k rv rec newer vc"
| "cache_step vc (CacheRemove k) = vc_remove k vc"
| "cache_step vc CacheClear = vc_clear vc"

definition cache_run :: "(bytes \<Rightarrow> nat) \<Rightarrow> cache_config \<Rightarrow> cache_op list \<Rightarrow> value_cache" where
  "cache_run hash cfg ops = foldl cache_step (vc_new hash cfg) ops"

section \<open>The index's byte account\<close>

definition ri_ok :: "resident_index \<Rightarrow> bool" where
  "ri_ok ri \<longleftrightarrow> ri_bytes ri = fmsum index_entry_bytes (ri_map ri) \<and>
     (\<forall>k. fmlookup (ri_map ri) k \<noteq> Some [])"

lemma ri_map_remove [simp]: "ri_map (idx_remove k ri) = fmdrop k (ri_map ri)"
  by (simp add: idx_remove_def fmdrop_absent split: option.splits)

lemma ri_map_set [simp]:
  "ri_map (idx_set k gens ri) = (if gens = [] then fmdrop k (ri_map ri) else fmupd k gens (ri_map ri))"
  by (simp add: idx_set_def Let_def split: option.splits)

lemma idx_remove_ok: "ri_ok ri \<Longrightarrow> ri_ok (idx_remove k ri)"
  by (auto simp: ri_ok_def idx_remove_def fmsum_drop split: option.splits)

lemma idx_set_ok: "ri_ok ri \<Longrightarrow> ri_ok (idx_set k gens ri)"
proof (cases "gens = []")
  case True
  assume "ri_ok ri"
  with True show ?thesis by (simp add: idx_set_def idx_remove_ok)
next
  case False
  assume ok: "ri_ok ri"
  show ?thesis
  proof (cases "fmlookup (ri_map ri) k")
    case None
    with ok False show ?thesis
      by (simp add: ri_ok_def idx_set_def Let_def fmsum_upd fmdrop_absent)
  next
    case (Some old)
    with ok False show ?thesis
      using fmsum_drop [OF Some, of index_entry_bytes]
      by (simp add: ri_ok_def idx_set_def Let_def fmsum_upd)
  qed
qed

section \<open>Shards\<close>

text \<open>The recency order lists exactly the cached keys, each under its slot's tick.\<close>

definition lru_ok :: "(bytes, slot) fmap \<Rightarrow> (nat, bytes) fmap \<Rightarrow> nat \<Rightarrow> bool" where
  "lru_ok m ord n \<longleftrightarrow>
     (\<forall>k s. fmlookup m k = Some s \<longrightarrow> fmlookup ord (sl_tick s) = Some k \<and> sl_tick s \<le> n) \<and>
     (\<forall>t k. fmlookup ord t = Some k \<longrightarrow> (\<exists>s. fmlookup m k = Some s \<and> sl_tick s = t))"

definition shard_ok :: "shard \<Rightarrow> bool" where
  "shard_ok sh \<longleftrightarrow> lru_ok (sh_map sh) (sh_order sh) (sh_tick sh) \<and>
     sh_bytes sh = fmsum (\<lambda>_. sl_size) (sh_map sh)"

lemma lru_ok_order:
  "lru_ok m ord n \<Longrightarrow> fmlookup ord t = Some k \<Longrightarrow> \<exists>s. fmlookup m k = Some s \<and> sl_tick s = t"
  unfolding lru_ok_def by blast

lemma lru_ok_drop:
  assumes "lru_ok m ord n" "fmlookup m k = Some s"
  shows "lru_ok (fmdrop k m) (fmdrop (sl_tick s) ord) n"
proof -
  have k: "fmlookup ord (sl_tick s) = Some k" using assms by (simp add: lru_ok_def)
  have "sl_tick s' \<noteq> sl_tick s" if "fmlookup m k' = Some s'" "k' \<noteq> k" for k' s'
    using assms(1) that k by (metis lru_ok_def option.inject)
  moreover have "k' \<noteq> k" if "fmlookup ord t = Some k'" "t \<noteq> sl_tick s" for t k'
    using assms that by (metis lru_ok_def option.inject)
  ultimately show ?thesis using assms(1) unfolding lru_ok_def by simp
qed

lemma lru_ok_add:
  assumes "lru_ok m ord n" "fmlookup m k = None" "n < sl_tick s"
  shows "lru_ok (fmupd k s m) (fmupd (sl_tick s) k ord) (sl_tick s)"
proof -
  have "sl_tick s' \<le> n" if "fmlookup m k' = Some s'" for k' s' using assms(1) that by (simp add: lru_ok_def)
  then have "sl_tick s' < sl_tick s" if "fmlookup m k' = Some s'" for k' s'
    using assms(3) that by (meson order.strict_trans1)
  moreover have "k' \<noteq> k" if "fmlookup ord t = Some k'" for t k'
    using assms that by (metis lru_ok_def option.distinct(1))
  ultimately show ?thesis
    using assms(1) unfolding lru_ok_def
    by (simp add: order.strict_implies_order) (metis less_irrefl)
qed

definition shard_card :: "shard \<Rightarrow> nat" where
  "shard_card sh = fcard (fmdom (sh_map sh))"

lemma shard_card_sum: "shard_card sh = fmsum (\<lambda>_ _. 1) (sh_map sh)"
  by (simp add: shard_card_def fmsum_def fcard.rep_eq)

lemma shard_default_ok [simp]: "shard_ok shard_default"
  by (simp add: shard_ok_def shard_default_def lru_ok_def)

lemma shard_remove_result:
  assumes "shard_ok sh" "shard_remove k sh = (freed, sh')"
  shows "shard_ok sh'" "sh_map sh' = fmdrop k (sh_map sh)" "sh_tick sh' = sh_tick sh"
    "sh_bytes sh = sh_bytes sh' + (case freed of Some n \<Rightarrow> n | None \<Rightarrow> 0)"
    "shard_card sh = shard_card sh' + (case freed of Some n \<Rightarrow> 1 | None \<Rightarrow> 0)"
proof -
  have "shard_ok sh' \<and> sh_map sh' = fmdrop k (sh_map sh) \<and> sh_tick sh' = sh_tick sh \<and>
    sh_bytes sh = sh_bytes sh' + (case freed of Some n \<Rightarrow> n | None \<Rightarrow> 0) \<and>
    shard_card sh = shard_card sh' + (case freed of Some n \<Rightarrow> 1 | None \<Rightarrow> 0)"
  proof (cases "fmlookup (sh_map sh) k")
    case None
    with assms show ?thesis by (auto simp: shard_remove_def fmdrop_absent)
  next
    case (Some s)
    have "shard_ok sh'"
      using assms Some lru_ok_drop [OF _ Some] fmsum_drop [OF Some, of "\<lambda>_. sl_size"]
      by (auto simp: shard_remove_def shard_ok_def)
    with assms Some fmsum_drop [OF Some, of "\<lambda>_. sl_size"] fmsum_drop [OF Some, of "\<lambda>_ _. 1"]
    show ?thesis by (auto simp: shard_remove_def shard_card_sum shard_ok_def)
  qed
  then show "shard_ok sh'" "sh_map sh' = fmdrop k (sh_map sh)" "sh_tick sh' = sh_tick sh"
    "sh_bytes sh = sh_bytes sh' + (case freed of Some n \<Rightarrow> n | None \<Rightarrow> 0)"
    "shard_card sh = shard_card sh' + (case freed of Some n \<Rightarrow> 1 | None \<Rightarrow> 0)"
    by simp_all
qed


text \<open>A lookup moves an entry to the end of the order and changes nothing else.\<close>

definition shard_entry :: "shard \<Rightarrow> bytes \<Rightarrow> (revision \<times> kv_record) option" where
  "shard_entry sh k = map_option (\<lambda>s. (sl_rev s, sl_rec s)) (fmlookup (sh_map sh) k)"

lemma lru_ok_mono: "lru_ok m ord n \<Longrightarrow> n \<le> n' \<Longrightarrow> lru_ok m ord n'"
  unfolding lru_ok_def by (meson le_trans)

lemma shard_get_result:
  assumes "shard_ok sh" "shard_get k rv sh = (found, sh')"
  shows "shard_ok sh'" "shard_entry sh' = shard_entry sh" "sh_bytes sh' = sh_bytes sh"
    "shard_card sh' = shard_card sh"
    "found = (case shard_entry sh k of Some (r, rec) \<Rightarrow> if r = rv then Some rec else None | None \<Rightarrow> None)"
proof -
  have lru: "lru_ok (sh_map sh) (sh_order sh) (sh_tick sh)" using assms(1) by (simp add: shard_ok_def)
  have "shard_ok sh' \<and> shard_entry sh' = shard_entry sh \<and> sh_bytes sh' = sh_bytes sh \<and>
    shard_card sh' = shard_card sh \<and>
    found = (case shard_entry sh k of Some (r, rec) \<Rightarrow> if r = rv then Some rec else None | None \<Rightarrow> None)"
  proof (cases "\<exists>s. fmlookup (sh_map sh) k = Some s \<and> sl_rev s = rv")
    case False
    then have "sh' = sh\<lparr>sh_tick := sh_tick sh + 1\<rparr>" "found = None"
      using assms(2) by (auto simp: shard_get_def Let_def split: option.splits if_splits)
    with False assms(1) lru_ok_mono [OF lru] show ?thesis
      by (auto simp: shard_ok_def shard_entry_def shard_card_def split: option.splits)
  next
    case True
    then obtain s where s: "fmlookup (sh_map sh) k = Some s" "sl_rev s = rv" by blast
    let ?t = "sh_tick sh + 1" and ?m = "fmdrop k (sh_map sh)"
    let ?s = "s\<lparr>sl_tick := ?t\<rparr>"
    have ord: "fmlookup (sh_order sh) (sl_tick s) = Some k" using lru s by (simp add: lru_ok_def)
    have sh': "sh' = sh\<lparr>sh_tick := ?t, sh_map := fmupd k ?s ?m,
        sh_order := fmupd ?t k (fmdrop (sl_tick s) (sh_order sh))\<rparr>" "found = Some (sl_rec s)"
      using assms(2) s ord by (auto simp: shard_get_def Let_def)
    have "lru_ok (sh_map sh') (sh_order sh') (sh_tick sh')"
      using lru_ok_add [OF lru_ok_drop [OF lru s(1)], of k ?s] by (simp add: sh')
    moreover have "shard_entry sh' = shard_entry sh"
      using s by (auto simp: shard_entry_def sh' fun_eq_iff)
    moreover have "fmsum f (sh_map sh') = f k ?s + fmsum f ?m" "fmsum f (sh_map sh) = f k s + fmsum f ?m" for f
      using fmsum_drop [OF s(1)] fmsum_upd [of f k ?s ?m] fmdrop_absent [of ?m k] by (simp_all add: sh')
    ultimately show ?thesis
      using assms(1) s by (simp add: shard_ok_def shard_card_sum sh'(2)) (simp add: sh' shard_entry_def)
  qed
  then show "shard_ok sh'" "shard_entry sh' = shard_entry sh" "sh_bytes sh' = sh_bytes sh"
    "shard_card sh' = shard_card sh"
    "found = (case shard_entry sh k of Some (r, rec) \<Rightarrow> if r = rv then Some rec else None | None \<Rightarrow> None)"
    by simp_all
qed


section \<open>Eviction\<close>

lemma lru_ok_empty: "lru_ok m ord n \<Longrightarrow> sorted_list_of_fmap ord = [] \<Longrightarrow> m = fmempty"
proof (rule fmap_ext)
  fix k
  assume lru: "lru_ok m ord n" and "sorted_list_of_fmap ord = []"
  then have "fmlookup ord t = None" for t
    by (metis in_sorted_list_of_fmap not_None_eq empty_iff list.set(1))
  with lru show "fmlookup m k = fmlookup fmempty k"
    by (metis fmempty_lookup lru_ok_def not_None_eq)
qed

text \<open>One round of the eviction loop.\<close>

lemma evict_head:
  assumes "shard_ok sh" "sorted_list_of_fmap (sh_order sh) = (t, k) # order"
  obtains s where "fmlookup (sh_map sh) k = Some s" "sl_tick s = t"
    "shard_ok (sh\<lparr>sh_order := fmdrop t (sh_order sh), sh_map := fmdrop k (sh_map sh),
       sh_bytes := sh_bytes sh - sl_size s\<rparr>)"
    "sorted_list_of_fmap (fmdrop t (sh_order sh)) = order"
    "sh_bytes sh = sl_size s + fmsum (\<lambda>_. sl_size) (fmdrop k (sh_map sh))"
proof -
  have lru: "lru_ok (sh_map sh) (sh_order sh) (sh_tick sh)" using assms(1) by (simp add: shard_ok_def)
  have "fmlookup (sh_order sh) t = Some k"
    using assms(2) in_sorted_list_of_fmap [of t k "sh_order sh"] by simp
  then obtain s where s: "fmlookup (sh_map sh) k = Some s" "sl_tick s = t"
    using lru_ok_order [OF lru] by blast
  have "sorted_keys ((t, k) # order)" using assms(2) sorted_keys_sorted_list_of_fmap by metis
  then have "sorted_list_of_fmap (fmdrop t (sh_order sh)) = order"
    by (auto simp: assms(2) sorted_keys_Cons al_remove_def filter_id_conv)
  moreover have "sh_bytes sh = sl_size s + fmsum (\<lambda>_. sl_size) (fmdrop k (sh_map sh))"
    using assms(1) fmsum_drop [OF s(1), of "\<lambda>_. sl_size"] by (simp add: shard_ok_def)
  moreover from this have "shard_ok (sh\<lparr>sh_order := fmdrop t (sh_order sh), sh_map := fmdrop k (sh_map sh),
       sh_bytes := sh_bytes sh - sl_size s\<rparr>)"
    using lru_ok_drop [OF lru s(1)] s(2) by (simp add: shard_ok_def)
  ultimately show thesis using that s by blast
qed

lemma evict_result:
  assumes "shard_ok sh" "sorted_list_of_fmap (sh_order sh) = order" "evict budget order sh = (gone, sh')"
  shows "shard_ok sh' \<and> sh_bytes sh' \<le> budget \<and> sum_list gone + sh_bytes sh' = sh_bytes sh \<and>
    length gone + shard_card sh' = shard_card sh \<and>
    (\<forall>k e. shard_entry sh' k = Some e \<longrightarrow> shard_entry sh k = Some e) \<and>
    sorted_list_of_fmap (sh_order sh') = drop (length gone) order"
  using assms
proof (induction order arbitrary: sh gone)
  case Nil
  then have "sh_map sh = fmempty" using lru_ok_empty by (auto simp: shard_ok_def)
  with Nil show ?case by (auto simp: shard_ok_def)
next
  case (Cons p order)
  obtain t k where p: "p = (t, k)" by fastforce
  show ?case
  proof (cases "sh_bytes sh > budget")
    case False
    with Cons.prems p show ?thesis by auto
  next
    case True
    from Cons.prems(1,2) obtain s where s: "fmlookup (sh_map sh) k = Some s" "sl_tick s = t"
      and ok: "shard_ok (sh\<lparr>sh_order := fmdrop t (sh_order sh), sh_map := fmdrop k (sh_map sh),
         sh_bytes := sh_bytes sh - sl_size s\<rparr>)" (is "shard_ok ?sh")
      and ord: "sorted_list_of_fmap (fmdrop t (sh_order sh)) = order"
      and bytes: "sh_bytes sh = sl_size s + fmsum (\<lambda>_. sl_size) (fmdrop k (sh_map sh))"
      unfolding p by (rule evict_head)
    obtain gone' where g: "evict budget order ?sh = (gone', sh')" "gone = sl_size s # gone'"
      using Cons.prems(3) True s p by (auto simp: Let_def split: prod.splits)
    have card: "shard_card sh = Suc (shard_card ?sh)"
      using fmsum_drop [OF s(1), of "\<lambda>_ _. 1"] by (simp add: shard_card_sum)
    have ent: "shard_entry ?sh j = Some e \<Longrightarrow> shard_entry sh j = Some e" for j e
      by (simp add: shard_entry_def split: if_splits)
    have "sorted_list_of_fmap (sh_order ?sh) = order" using ord by simp
    from Cons.IH [OF ok this g(1)] show ?thesis
      using bytes card ent g(2) by auto
  qed
qed

text \<open>The most recently used entry is not evicted if it fits the budget by itself.\<close>

lemma evict_keeps_last:
  assumes "shard_ok sh" "sorted_list_of_fmap (sh_order sh) = order @ [(t, k)]"
    and "fmlookup (sh_map sh) k = Some s" "sl_size s \<le> budget"
    and "evict budget (order @ [(t, k)]) sh = (gone, sh')"
  shows "fmlookup (sh_map sh') k = Some s"
  using assms
proof (induction order arbitrary: sh gone)
  case Nil
  from Nil.prems(1,2) obtain s' where s': "fmlookup (sh_map sh) k = Some s'"
    and ok: "shard_ok (sh\<lparr>sh_order := fmdrop t (sh_order sh), sh_map := fmdrop k (sh_map sh),
       sh_bytes := sh_bytes sh - sl_size s'\<rparr>)"
    and ord: "sorted_list_of_fmap (fmdrop t (sh_order sh)) = []"
    and bytes: "sh_bytes sh = sl_size s' + fmsum (\<lambda>_. sl_size) (fmdrop k (sh_map sh))"
    unfolding append_Nil by (rule evict_head)
  have "fmdrop k (sh_map sh) = fmempty"
    using ok ord lru_ok_empty [of "fmdrop k (sh_map sh)" "fmdrop t (sh_order sh)"]
    by (auto simp: shard_ok_def)
  then have "\<not> sh_bytes sh > budget" using bytes s' Nil.prems(3,4) by simp
  with Nil.prems show ?case by auto
next
  case (Cons p order)
  obtain t' k' where p: "p = (t', k')" by fastforce
  show ?case
  proof (cases "sh_bytes sh > budget")
    case False
    with Cons.prems p show ?thesis by auto
  next
    case True
    from Cons.prems(1,2) obtain s' where s': "fmlookup (sh_map sh) k' = Some s'" "sl_tick s' = t'"
      and ok: "shard_ok (sh\<lparr>sh_order := fmdrop t' (sh_order sh), sh_map := fmdrop k' (sh_map sh),
         sh_bytes := sh_bytes sh - sl_size s'\<rparr>)" (is "shard_ok ?sh")
      and ord: "sorted_list_of_fmap (fmdrop t' (sh_order sh)) = order @ [(t, k)]"
      unfolding p append_Cons by (rule evict_head)
    have "fmlookup (sh_order ?sh) t = Some k"
      using ord in_sorted_list_of_fmap [of t k "fmdrop t' (sh_order sh)"] by simp
    then have ne: "k \<noteq> k'"
      using ok lru_ok_order [of "fmdrop k' (sh_map sh)" "fmdrop t' (sh_order sh)" "sh_tick sh" t k]
      by (auto simp: shard_ok_def)
    obtain gone' where g: "evict budget (order @ [(t, k)]) ?sh = (gone', sh')"
      using Cons.prems(5) True s' p by (auto simp: Let_def split: prod.splits)
    show ?thesis
      using Cons.IH [OF ok _ _ Cons.prems(4) g] ord Cons.prems(3) ne by simp
  qed
qed


section \<open>The cache\<close>

definition vc_ok :: "value_cache \<Rightarrow> bool" where
  "vc_ok vc \<longleftrightarrow>
     length (vc_shards vc) = SHARDS \<and>
     (\<forall>sh\<in>set (vc_shards vc). shard_ok sh \<and> sh_bytes sh \<le> vc_shard_budget vc) \<and>
     vc_bytes vc = sum_list (map sh_bytes (vc_shards vc)) \<and>
     vc_entries vc = sum_list (map shard_card (vc_shards vc)) \<and>
     vc_budget vc = vc_shard_budget vc * SHARDS"

text \<open>Every entry of the cache has a property.\<close>

definition vc_all :: "(bytes \<Rightarrow> revision \<Rightarrow> kv_record \<Rightarrow> bool) \<Rightarrow> value_cache \<Rightarrow> bool" where
  "vc_all P vc \<longleftrightarrow> (\<forall>sh\<in>set (vc_shards vc). \<forall>k r rec. shard_entry sh k = Some (r, rec) \<longrightarrow> P k r rec)"

lemma vc_all_mono: "vc_all P vc \<Longrightarrow> (\<And>k r rec. P k r rec \<Longrightarrow> Q k r rec) \<Longrightarrow> vc_all Q vc"
  by (auto simp: vc_all_def)

lemma shard_of_less [simp]: "shard_of vc k < SHARDS"
  by (simp add: shard_of_def SHARDS_def)

lemma sum_list_map_update:
  "i < length xs \<Longrightarrow> sum_list (map f (xs[i := y])) + f (xs ! i) = sum_list (map f xs) + (f y :: nat)"
  by (induction xs arbitrary: i) (auto split: nat.splits)

lemma vc_all_update:
  "vc_all P vc \<Longrightarrow> (\<And>k r rec. shard_entry sh k = Some (r, rec) \<Longrightarrow> P k r rec) \<Longrightarrow>
   vc_all P (vc\<lparr>vc_shards := (vc_shards vc)[i := sh]\<rparr>)"
  by (auto simp: vc_all_def dest: set_update_subset_insert [THEN subsetD])

lemma vc_new_ok: "vc_ok (vc_new hash cfg)" "vc_all P (vc_new hash cfg)"
proof -
  have "shard_entry shard_default k = None" "sh_bytes shard_default = 0" "shard_card shard_default = 0" for k
    by (simp_all add: shard_default_def shard_entry_def shard_card_def)
  then show "vc_ok (vc_new hash cfg)" "vc_all P (vc_new hash cfg)"
    by (auto simp: vc_ok_def vc_all_def vc_new_def Let_def map_replicate_const)
qed

lemma vc_ok_shard: "vc_ok vc \<Longrightarrow> shard_ok (vc_shards vc ! shard_of vc k)"
  by (simp add: vc_ok_def)

text \<open>A lookup that misses or hits keeps the cache; a hit is an entry of that key and revision.\<close>

lemma vc_get_result:
  assumes "vc_ok vc" "vc_get k rv vc = (found, vc')"
  shows "vc_ok vc' \<and> (vc_all P vc \<longrightarrow> vc_all P vc' \<and> (\<forall>rec. found = Some rec \<longrightarrow> P k rv rec))"
proof (cases "vc_enabled vc")
  case False
  with assms show ?thesis by (auto simp: vc_get_def)
next
  case True
  let ?i = "shard_of vc k"
  let ?sh = "vc_shards vc ! ?i"
  have i: "?i < length (vc_shards vc)" using assms(1) by (simp add: vc_ok_def)
  obtain f sh where g: "shard_get k rv ?sh = (f, sh)" by fastforce
  note res = shard_get_result [OF vc_ok_shard [OF assms(1)] g]
  have vc': "vc' = vc\<lparr>vc_shards := (vc_shards vc)[?i := sh], vc_hits := vc_hits vc', vc_misses := vc_misses vc'\<rparr>"
    and f: "found = f"
    using assms(2) True g by (auto simp: vc_get_def Let_def split: option.splits)
  have sh_in: "?sh \<in> set (vc_shards vc)" using i by simp
  have "vc_ok (vc\<lparr>vc_shards := (vc_shards vc)[?i := sh]\<rparr>)"
    using assms(1) res sh_in sum_list_map_update [OF i, of sh_bytes sh] sum_list_map_update [OF i, of shard_card sh]
    by (auto simp: vc_ok_def dest!: set_update_subset_insert [THEN subsetD])
  then have ok: "vc_ok vc'" by (subst vc') (simp add: vc_ok_def)
  have "vc_all P vc' \<and> (\<forall>rec. found = Some rec \<longrightarrow> P k rv rec)" if P: "vc_all P vc"
  proof
    have "vc_all P (vc\<lparr>vc_shards := (vc_shards vc)[?i := sh]\<rparr>)"
      using P sh_in res(2) by (intro vc_all_update) (auto simp: vc_all_def)
    then show "vc_all P vc'" by (subst vc') (simp add: vc_all_def)
    show "\<forall>rec. found = Some rec \<longrightarrow> P k rv rec"
      using P sh_in res(5) f by (auto simp: vc_all_def split: option.splits if_splits)
  qed
  with ok show ?thesis by blast
qed


text \<open>Replacing one shard with the matching change of the totals.\<close>

lemma vc_ok_replace:
  assumes "vc_ok vc" "shard_ok sh" "sh_bytes sh \<le> vc_shard_budget vc"
    and "b + sh_bytes (vc_shards vc ! shard_of vc k) = vc_bytes vc + sh_bytes sh"
    and "n + shard_card (vc_shards vc ! shard_of vc k) = vc_entries vc + shard_card sh"
    and "vc' = vc\<lparr>vc_shards := (vc_shards vc)[shard_of vc k := sh], vc_bytes := b, vc_entries := n,
        vc_evictions := e\<rparr>"
  shows "vc_ok vc'"
proof -
  have i: "shard_of vc k < length (vc_shards vc)" using assms(1) by (simp add: vc_ok_def)
  show ?thesis
    using assms sum_list_map_update [OF i, of sh_bytes sh] sum_list_map_update [OF i, of shard_card sh]
    by (auto simp: vc_ok_def dest!: set_update_subset_insert [THEN subsetD])
qed

lemma shard_add_ok:
  assumes "shard_ok sh" "fmlookup (sh_map sh) k = None"
    and "sh' = sh\<lparr>sh_tick := sh_tick sh + 1, sh_order := fmupd (sh_tick sh + 1) k (sh_order sh),
        sh_map := fmupd k s (sh_map sh), sh_bytes := sh_bytes sh + sl_size s\<rparr>"
    and "sl_tick s = sh_tick sh + 1"
  shows "shard_ok sh'" "shard_card sh' = shard_card sh + 1"
    "shard_entry sh' = (shard_entry sh)(k \<mapsto> (sl_rev s, sl_rec s))"
proof -
  have "lru_ok (fmupd k s (sh_map sh)) (fmupd (sl_tick s) k (sh_order sh)) (sl_tick s)"
    using assms by (intro lru_ok_add [where n = "sh_tick sh"]) (simp_all add: shard_ok_def)
  then show "shard_ok sh'"
    using assms by (simp add: shard_ok_def fmsum_upd fmdrop_absent)
  show "shard_card sh' = shard_card sh + 1"
    using assms by (simp add: shard_card_sum fmsum_upd fmdrop_absent)
  show "shard_entry sh' = (shard_entry sh)(k \<mapsto> (sl_rev s, sl_rec s))"
    using assms by (auto simp: shard_entry_def fun_eq_iff)
qed

text \<open>What one insertion does to its shard: the entry is set (unless it is too large, or a newer
  one is kept), and others may go.\<close>

lemma vc_insert_result:
  assumes ok: "vc_ok vc" and vc': "vc' = vc_insert k rv rec newer vc"
  shows "vc_ok vc' \<and> (vc_all P vc \<longrightarrow> P k rv rec \<longrightarrow> vc_all P vc') \<and>
    vc_shard_budget vc' = vc_shard_budget vc"
proof (cases "\<not> vc_enabled vc \<or> newer \<and>
    (case fmlookup (sh_map (vc_shards vc ! shard_of vc k)) k of Some s \<Rightarrow> sl_rev s \<ge> rv | None \<Rightarrow> False)")
  case True
  then have "vc' = vc" unfolding vc' by (auto simp: vc_insert_def Let_def)
  with ok show ?thesis by simp
next
  case False
  let ?i = "shard_of vc k"
  let ?sh = "vc_shards vc ! ?i"
  have en: "vc_enabled vc" and nk: "(newer \<and>
    (case fmlookup (sh_map ?sh) k of Some s \<Rightarrow> sl_rev s \<ge> rv | None \<Rightarrow> False)) = False"
    using False by blast+
  have i: "?i < length (vc_shards vc)" using ok by (simp add: vc_ok_def)
  then have sh_in: "?sh \<in> set (vc_shards vc)" by simp
  obtain freed sh1 where rm: "shard_remove k ?sh = (freed, sh1)" by fastforce
  note rem = shard_remove_result [OF vc_ok_shard [OF ok] rm]
  define b where "b = vc_bytes vc - (case freed of Some n \<Rightarrow> n | None \<Rightarrow> 0)"
  define n where "n = vc_entries vc - (case freed of Some n \<Rightarrow> 1 | None \<Rightarrow> 0)"
  have tot: "sh_bytes ?sh \<le> vc_bytes vc" "shard_card ?sh \<le> vc_entries vc"
    using ok i by (simp_all add: vc_ok_def member_le_sum_list)
  then have bn: "b + sh_bytes ?sh = vc_bytes vc + sh_bytes sh1" "n + shard_card ?sh = vc_entries vc + shard_card sh1"
    using rem(4,5) by (simp_all add: b_def n_def)
  have le: "sh_bytes ?sh \<le> vc_shard_budget vc" using ok sh_in by (simp add: vc_ok_def)
  have ent1: "shard_entry sh1 j = Some e \<Longrightarrow> shard_entry ?sh j = Some e" for j e
    by (simp add: shard_entry_def rem(2) split: if_splits)
  show ?thesis
  proof (cases "length (r_value rec) > vc_max_entry vc")
    case True
    then have eq: "vc' = vc\<lparr>vc_shards := (vc_shards vc)[?i := sh1], vc_bytes := b, vc_entries := n,
        vc_evictions := vc_evictions vc\<rparr>"
      using rm by (cases freed) (simp_all only: vc' vc_insert_def Let_def en nk, simp_all add: b_def n_def)
    have "vc_ok vc'" using rem(1,4) le bn by (intro vc_ok_replace [OF ok _ _ _ _ eq]) simp_all
    moreover have "vc_all P vc'" if "vc_all P vc"
      using vc_all_update [OF that, of sh1 ?i] that sh_in ent1
      by (fastforce simp: eq vc_all_def)
    moreover have "vc_shard_budget vc' = vc_shard_budget vc" by (simp add: eq)
    ultimately show ?thesis by blast
  next
    case fits: False
    define s where "s = \<lparr>sl_rev = rv, sl_rec = rec, sl_tick = sh_tick sh1 + 1, sl_size = entry_size k rec\<rparr>"
    define sh2 where "sh2 = sh1\<lparr>sh_tick := sh_tick sh1 + 1, sh_order := fmupd (sh_tick sh1 + 1) k (sh_order sh1),
        sh_map := fmupd k s (sh_map sh1), sh_bytes := sh_bytes sh1 + sl_size s\<rparr>"
    have add: "shard_ok sh2" "shard_card sh2 = shard_card sh1 + 1"
      "shard_entry sh2 = (shard_entry sh1)(k \<mapsto> (rv, rec))"
      using shard_add_ok [OF rem(1) _ sh2_def] by (simp_all add: rem(2) s_def)
    obtain gone sh3 where ev: "evict (vc_shard_budget vc) (sorted_list_of_fmap (sh_order sh2)) sh2 = (gone, sh3)"
      by fastforce
    note evr = evict_result [OF add(1) refl ev]
    have eq: "vc' = vc\<lparr>vc_shards := (vc_shards vc)[?i := sh3], vc_bytes := b + entry_size k rec - sum_list gone,
        vc_entries := n + 1 - length gone, vc_evictions := vc_evictions vc + length gone\<rparr>"
      using rm fits ev
      by (cases freed)
        (simp_all only: vc' vc_insert_def Let_def en nk, simp_all add: b_def n_def s_def sh2_def)
    have sz: "sh_bytes sh2 = sh_bytes sh1 + entry_size k rec" by (simp add: sh2_def s_def)
    have "b + entry_size k rec - sum_list gone + sh_bytes ?sh = vc_bytes vc + sh_bytes sh3"
      "n + 1 - length gone + shard_card ?sh = vc_entries vc + shard_card sh3"
      using evr sz add(2) bn tot by linarith+
    with evr have "vc_ok vc'" by (intro vc_ok_replace [OF ok _ _ _ _ eq]) simp_all
    moreover have "vc_all P vc'" if "vc_all P vc" "P k rv rec"
    proof -
      have "P j r rc" if "shard_entry sh3 j = Some (r, rc)" for j r rc
      proof -
        have "shard_entry sh2 j = Some (r, rc)" using evr that by blast
        with ent1 [of j] \<open>vc_all P vc\<close> \<open>P k rv rec\<close> sh_in show ?thesis
          by (auto simp: add(3) vc_all_def split: if_splits)
      qed
      from vc_all_update [OF that(1) this] show ?thesis by (simp add: eq vc_all_def)
    qed
    moreover have "vc_shard_budget vc' = vc_shard_budget vc" by (simp add: eq)
    ultimately show ?thesis by blast
  qed
qed

lemma vc_remove_result:
  assumes ok: "vc_ok vc"
  shows "vc_ok (vc_remove k vc) \<and> (vc_all P vc \<longrightarrow> vc_all P (vc_remove k vc))"
proof (cases "vc_enabled vc")
  case False
  with ok show ?thesis by (simp add: vc_remove_def)
next
  case True
  let ?i = "shard_of vc k"
  let ?sh = "vc_shards vc ! ?i"
  have i: "?i < length (vc_shards vc)" using ok by (simp add: vc_ok_def)
  then have sh_in: "?sh \<in> set (vc_shards vc)" by simp
  obtain freed sh1 where rm: "shard_remove k ?sh = (freed, sh1)" by fastforce
  note rem = shard_remove_result [OF vc_ok_shard [OF ok] rm]
  have "sh_bytes ?sh \<le> vc_bytes vc" "shard_card ?sh \<le> vc_entries vc"
    using ok i by (simp_all add: vc_ok_def member_le_sum_list)
  moreover have eq: "vc_remove k vc = vc\<lparr>vc_shards := (vc_shards vc)[?i := sh1],
      vc_bytes := vc_bytes vc - (case freed of Some n \<Rightarrow> n | None \<Rightarrow> 0),
      vc_entries := vc_entries vc - (case freed of Some n \<Rightarrow> 1 | None \<Rightarrow> 0), vc_evictions := vc_evictions vc\<rparr>"
    using True rm by (cases freed) (simp_all add: vc_remove_def Let_def)
  moreover have "sh_bytes ?sh \<le> vc_shard_budget vc" using ok sh_in by (simp add: vc_ok_def)
  ultimately have "vc_ok (vc_remove k vc)"
    using rem by (intro vc_ok_replace [OF ok rem(1) _ _ _ eq]) simp_all
  moreover have "vc_all P (vc_remove k vc)" if "vc_all P vc"
  proof -
    have "shard_entry ?sh j = Some e" if "shard_entry sh1 j = Some e" for j e
      using that by (simp add: shard_entry_def rem(2) split: if_splits)
    with vc_all_update [OF that, of sh1 ?i] that sh_in show ?thesis by (simp add: eq vc_all_def)
  qed
  ultimately show ?thesis by blast
qed


lemma clear_shards_result:
  "clear_shards ss vc = (ss', vc') \<Longrightarrow>
   sum_list (map sh_bytes ss) \<le> vc_bytes vc \<Longrightarrow> sum_list (map shard_card ss) \<le> vc_entries vc \<Longrightarrow>
   ss' = replicate (length ss) shard_default \<and>
   vc' = vc\<lparr>vc_bytes := vc_bytes vc - sum_list (map sh_bytes ss),
     vc_entries := vc_entries vc - sum_list (map shard_card ss)\<rparr>"
proof (induction ss arbitrary: vc ss' vc')
  case (Cons s ss)
  let ?vc = "vc\<lparr>vc_bytes := vc_bytes vc - sh_bytes s, vc_entries := vc_entries vc - shard_card s\<rparr>"
  obtain c v where r: "clear_shards ss ?vc = (c, v)" by fastforce
  have "sum_list (map sh_bytes ss) \<le> vc_bytes ?vc" "sum_list (map shard_card ss) \<le> vc_entries ?vc"
    using Cons.prems by simp_all
  from Cons.IH [OF r this] Cons.prems(1) r show ?case
    by (auto simp: Let_def shard_card_def)
qed simp

lemma vc_clear_result:
  assumes "vc_ok vc"
  shows "vc_ok (vc_clear vc) \<and> vc_all P (vc_clear vc)"
proof -
  obtain ss v where r: "clear_shards (vc_shards vc) vc = (ss, v)" by fastforce
  have "shard_entry shard_default k = None" "sh_bytes shard_default = 0" "shard_card shard_default = 0" for k
    by (simp_all add: shard_default_def shard_entry_def shard_card_def)
  then show ?thesis
    using clear_shards_result [OF r] r assms
    by (auto simp: vc_clear_def vc_ok_def vc_all_def map_replicate_const)
qed

lemma cache_step_ok: "vc_ok vc \<Longrightarrow> vc_ok (cache_step vc op)"
  using vc_get_result [of vc _ _ _ "snd (vc_get k rv vc)" for k rv]
    vc_insert_result [OF _ refl] vc_remove_result vc_clear_result
  by (cases op) (auto simp: prod_eq_iff)

lemma cache_step_all:
  assumes "vc_ok vc" "vc_all P vc" "\<And>k r rec newer. op = CacheInsert k r rec newer \<Longrightarrow> P k r rec"
  shows "vc_all P (cache_step vc op)"
  using assms vc_get_result [OF assms(1) prod.collapse [symmetric]] vc_insert_result [OF assms(1) refl]
    vc_remove_result [OF assms(1)] vc_clear_result [OF assms(1)]
  by (cases op) simp_all

lemma cache_run_ok: "vc_ok (cache_run hash cfg ops)"
  unfolding cache_run_def by (induction ops rule: rev_induct) (simp_all add: vc_new_ok cache_step_ok)

lemma vc_config:
  assumes "vc_ok vc"
  shows "vc_shard_budget (cache_step vc op) = vc_shard_budget vc"
proof (cases op)
  case (CacheInsert k rv rec newer)
  with vc_insert_result [OF assms refl] show ?thesis by simp
next
  case CacheClear
  have "vc_shard_budget (snd (clear_shards ss v)) = vc_shard_budget v" for ss v
    by (induction ss v rule: clear_shards.induct) (simp_all add: split_def Let_def)
  then show ?thesis using CacheClear by (simp add: vc_clear_def split_def Let_def)
qed (simp_all add: vc_get_def vc_remove_def Let_def split_def split: option.splits)

lemma cache_run_budget: "vc_shard_budget (cache_run hash cfg ops) = cf_value_cache_bytes cfg div SHARDS"
proof (induction ops rule: rev_induct)
  case Nil
  then show ?case by (simp add: cache_run_def vc_new_def Let_def)
next
  case (snoc op ops)
  then show ?case using vc_config [OF cache_run_ok, of hash cfg ops op] by (simp add: cache_run_def)
qed

text \<open>C20: Whatever is done to the value cache, it stays within its byte budget, and its totals are
  exact: the bytes are the sizes of the entries it holds and the entries are as many as it holds,
  so none of the counters' subtractions underflows.\<close>

theorem value_cache_bounded:
  "let vc = cache_run hash cfg ops in
   vc_bytes vc \<le> cf_value_cache_bytes cfg \<and>
   vc_bytes vc = (\<Sum>sh\<leftarrow>vc_shards vc. fmsum (\<lambda>_. sl_size) (sh_map sh)) \<and>
   vc_entries vc = (\<Sum>sh\<leftarrow>vc_shards vc. fcard (fmdom (sh_map sh)))"
proof -
  define vc where "vc = cache_run hash cfg ops"
  have ok: "vc_ok vc" unfolding vc_def by (rule cache_run_ok)
  have "sum_list (map sh_bytes (vc_shards vc)) \<le> sum_list (map (\<lambda>_. vc_shard_budget vc) (vc_shards vc))"
    using ok by (intro sum_list_mono) (simp add: vc_ok_def)
  also have "\<dots> = SHARDS * vc_shard_budget vc"
    using ok by (simp add: vc_ok_def sum_list_triv)
  also have "\<dots> \<le> cf_value_cache_bytes cfg"
    by (simp add: vc_def cache_run_budget SHARDS_def)
  finally have "vc_bytes vc \<le> cf_value_cache_bytes cfg" using ok by (simp add: vc_ok_def)
  moreover have "map sh_bytes (vc_shards vc) = map (\<lambda>sh. fmsum (\<lambda>_. sl_size) (sh_map sh)) (vc_shards vc)"
    using ok by (simp add: vc_ok_def shard_ok_def)
  moreover have "map shard_card (vc_shards vc) = map (\<lambda>sh. fcard (fmdom (sh_map sh))) (vc_shards vc)"
    by (simp add: shard_card_def)
  ultimately show ?thesis
    using ok unfolding vc_def [symmetric] Let_def vc_ok_def by metis
qed

text \<open>C21: The value cache never invents an answer: a hit for a key at a revision is a record that an
  earlier insertion put there for exactly that key and that revision.\<close>

theorem value_cache_sound:
  assumes "fst (vc_get k rv (cache_run hash cfg ops)) = Some rec"
  shows "\<exists>newer. CacheInsert k rv rec newer \<in> set ops"
proof -
  let ?P = "\<lambda>ops k r rec. \<exists>newer. CacheInsert k r rec newer \<in> set ops"
  have "vc_all (?P ops) (cache_run hash cfg ops)"
  proof (induction ops rule: rev_induct)
    case Nil
    then show ?case by (simp add: cache_run_def vc_new_ok)
  next
    case (snoc op ops)
    let ?v = "cache_run hash cfg ops"
    have "vc_all (?P (ops @ [op])) ?v" using snoc by (rule vc_all_mono) auto
    then have "vc_all (?P (ops @ [op])) (cache_step ?v op)"
      by (rule cache_step_all [OF cache_run_ok]) auto
    then show ?case by (simp add: cache_run_def)
  qed
  then have "\<forall>rc. fst (vc_get k rv (cache_run hash cfg ops)) = Some rc \<longrightarrow> ?P ops k rv rc"
    using vc_get_result [where P = "?P ops", OF cache_run_ok prod.collapse [symmetric]] by blast
  with assms show ?thesis by blast
qed


text \<open>A run for the witnesses: two entries in one shard, the older of them evicted.\<close>

definition sample_rec :: "bytes \<Rightarrow> nat \<Rightarrow> kv_record" where
  "sample_rec k n = \<lparr>r_key = k, r_value = replicate n 0, r_create_revision = 1, r_mod_revision = 1,
     r_version = 1, r_lease = 0, r_deleted = False\<rparr>"

definition sample_cfg :: cache_config where
  "sample_cfg = \<lparr>cf_value_cache_bytes = 16 * 300, cf_max_entry_bytes = 100\<rparr>"

definition sample_cache_ops :: "cache_op list" where
  "sample_cache_ops =
     [CacheInsert [1] (Revision 1 0) (sample_rec [1] 2) False,
      CacheInsert [2] (Revision 2 0) (sample_rec [2] 3) False]"

theorem value_cache_sound_witness:
  "fst (vc_get [2] (Revision 2 0) (cache_run length sample_cfg sample_cache_ops)) = Some (sample_rec [2] 3) \<and>
   (\<exists>newer. CacheInsert [2] (Revision 2 0) (sample_rec [2] 3) newer \<in> set sample_cache_ops)"
proof -
  have "fst (vc_get [2] (Revision 2 0) (cache_run length sample_cfg sample_cache_ops)) = Some (sample_rec [2] 3)"
    by (simp add: cache_run_def sample_cache_ops_def sample_cfg_def vc_new_def vc_insert_def vc_get_def
        vc_enabled_def shard_of_def SHARDS_def Let_def shard_remove_def shard_default_def shard_get_def
        entry_size_def ENTRY_OVERHEAD_def sample_rec_def nth_list_update)
  with value_cache_sound [OF this] show ?thesis by blast
qed

end
