(* ===== verification/Mvcc_Types.thy ===== *)
theory Mvcc_Types
  imports Mvcc_Record Kv_Store
begin

text \<open>
  Requests, results and errors of the MVCC layer, \<^verbatim>\<open>crates/storage/src/mvcc/store.rs\<close> and the
  errors of \<^verbatim>\<open>kvstore.rs\<close>, with the pure functions on them: how a compare is evaluated, which
  keys a range covers, which revision a read is served at, and which requests may share a commit.
\<close>

section \<open>Errors\<close>

datatype storage_error = Io string | Conflict string | Misuse string | Closed | Corrupted string

datatype refusal =
    KeyNotFound
  | LeaseNotFound
  | RevCompacted
  | RevFuture
  | InvalidArgument string

datatype mvcc_error =
    Storage storage_error
  | Compacted int int
  | FutureRevision int int
  | Refused refusal
  | Internal string

fun refusal_of :: "mvcc_error \<Rightarrow> refusal option" where
  "refusal_of (Refused r) = Some r"
| "refusal_of (Compacted _ _) = Some RevCompacted"
| "refusal_of (FutureRevision _ _) = Some RevFuture"
| "refusal_of (Storage _) = None"
| "refusal_of (Internal _) = None"

fun refusal_message :: "refusal \<Rightarrow> string" where
  "refusal_message KeyNotFound = ''etcdserver: key not found''"
| "refusal_message LeaseNotFound = ''etcdserver: requested lease not found''"
| "refusal_message RevCompacted = ''etcdserver: mvcc: required revision has been compacted''"
| "refusal_message RevFuture = ''etcdserver: mvcc: required revision is a future revision''"
| "refusal_message (InvalidArgument m) = m"

section \<open>Requests and results\<close>

datatype mutation =
    MutPut (mp_key: bytes) (mp_value: bytes) (mp_lease: int)
      (mp_ignore_value: bool) (mp_ignore_lease: bool) (mp_prev_kv: bool)
  | MutDeleteRange bytes bytes bool

record mutation_result =
  mr_n :: int
  mr_prev_kvs :: "kv_record list"

definition mutation_result_default :: mutation_result where
  "mutation_result_default = \<lparr>mr_n = 0, mr_prev_kvs = []\<rparr>"

record range_result =
  rr_kvs :: "kv_record list"
  rr_more :: bool
  rr_count :: int

datatype compare_op = CmpEqual | CmpNotEqual | CmpGreater | CmpLess

datatype compare_target =
    TVersion int
  | TCreateRevision int
  | TModRevision int
  | TValue bytes
  | TLease int

record compare =
  cmp_key :: bytes
  cmp_range_end :: bytes
  cmp_op :: compare_op
  cmp_target :: compare_target

record range_op =
  ro_key :: bytes
  ro_range_end :: bytes
  ro_limit :: nat
  ro_revision :: int
  ro_keys_only :: bool
  ro_count_only :: bool

datatype txn_op =
    OpRange range_op
  | OpMutation mutation
  | OpTxn "compare list" "txn_op list" "txn_op list"

datatype txn_op_result =
    ResRange range_result
  | ResMutation mutation_result
  | ResTxn bool "txn_op_result list"

record bulk_key =
  bk_key :: bytes
  bk_puts :: "kv_record list"
  bk_tombstone :: "kv_record option"

record lease_grant_result =
  lg_id :: int
  lg_ttl_secs :: int
  lg_revision :: int

record lease_revoke_result =
  lv_revision :: int
  lv_deleted_keys :: int

record lease_ttl_result =
  lt_id :: int
  lt_granted_ttl_secs :: int
  lt_remaining_ttl_secs :: int
  lt_keys :: "bytes list"

record txn_result =
  tr_succeeded :: bool
  tr_revision :: int
  tr_op_results :: "txn_op_result list"

record op_counts =
  oc_put :: nat
  oc_delete :: nat
  oc_range :: nat
  oc_txn :: nat

section \<open>Requests that may share a commit\<close>

datatype apply_item =
    ItemMutations "mutation list"
  | ItemTxn "compare list" "txn_op list" "txn_op list"

datatype apply_outcome =
    OutMutations int "mutation_result list"
  | OutTxn txn_result
  | OutRefused int refusal

fun ignores_prev :: "mutation \<Rightarrow> bool" where
  "ignores_prev (MutPut _ _ _ iv il _) \<longleftrightarrow> iv \<or> il"
| "ignores_prev (MutDeleteRange _ _ _) \<longleftrightarrow> False"

definition item_mutations :: "mutation list \<Rightarrow> apply_item option" where
  "item_mutations ms =
     (if length ms = 1 \<or> \<not> list_ex ignores_prev ms then Some (ItemMutations ms) else None)"

fun plain_op :: "txn_op \<Rightarrow> bool" where
  "plain_op (OpMutation m) \<longleftrightarrow> \<not> ignores_prev m"
| "plain_op (OpRange r) \<longleftrightarrow> ro_revision r = 0"
| "plain_op (OpTxn _ _ _) \<longleftrightarrow> False"

definition item_txn :: "compare list \<Rightarrow> txn_op list \<Rightarrow> txn_op list \<Rightarrow> apply_item option" where
  "item_txn cs success failure =
     (if list_all plain_op success \<and> list_all plain_op failure
      then Some (ItemTxn cs success failure) else None)"

section \<open>Compares\<close>

definition implicit_zero_record :: "bytes \<Rightarrow> kv_record" where
  "implicit_zero_record key =
     \<lparr>r_key = key, r_value = [], r_create_revision = 0, r_mod_revision = 0, r_version = 0,
      r_lease = 0, r_deleted = False\<rparr>"

datatype ordering = OrdLess | OrdEqual | OrdGreater

definition ord_cmp :: "'a::linorder \<Rightarrow> 'a \<Rightarrow> ordering" where
  "ord_cmp a b = (if a < b then OrdLess else if a = b then OrdEqual else OrdGreater)"

definition eval_compare :: "kv_record \<Rightarrow> compare_op \<Rightarrow> compare_target \<Rightarrow> bool" where
  "eval_compare rec op target =
     (let ordering = (case target of
          TVersion v \<Rightarrow> ord_cmp (r_version rec) v
        | TCreateRevision v \<Rightarrow> ord_cmp (r_create_revision rec) v
        | TModRevision v \<Rightarrow> ord_cmp (r_mod_revision rec) v
        | TLease v \<Rightarrow> ord_cmp (r_lease rec) v
        | TValue v \<Rightarrow> ord_cmp (r_value rec) v)
      in case op of
           CmpEqual \<Rightarrow> ordering = OrdEqual
         | CmpNotEqual \<Rightarrow> ordering \<noteq> OrdEqual
         | CmpGreater \<Rightarrow> ordering = OrdGreater
         | CmpLess \<Rightarrow> ordering = OrdLess)"

section \<open>Ranges and read revisions\<close>

definition in_range :: "bytes \<Rightarrow> bytes \<Rightarrow> bytes \<Rightarrow> bool" where
  "in_range probe key range_end =
     (if range_end = [] then probe = key
      else if range_end = [0] then key \<le> probe
      else key \<le> probe \<and> probe < range_end)"

definition range_bounds :: "bytes \<Rightarrow> bytes \<Rightarrow> bytes bound \<times> bytes bound" where
  "range_bounds key range_end =
     (if range_end = [] then (Included key, Included key)
      else if range_end = [0] then (Included key, Unbounded)
      else (Included key, Excluded range_end))"

definition index_bounds :: "bytes \<Rightarrow> bytes \<Rightarrow> (bytes bound \<times> bytes bound) option" where
  "index_bounds key range_end =
     (if range_end = [] then Some (Included key, Included key)
      else if range_end = [0] then Some (Included key, Unbounded)
      else if range_end \<le> key then None
      else Some (Included key, Excluded range_end))"

record revs =
  rv_current :: int
  rv_compact :: int

definition check_read_rev :: "revs \<Rightarrow> int \<Rightarrow> mvcc_error + revision" where
  "check_read_rev st target_rev =
     (if target_rev > 0 \<and> target_rev > rv_current st
      then Inl (FutureRevision target_rev (rv_current st))
      else if target_rev > 0 \<and> target_rev < rv_compact st
      then Inl (Compacted target_rev (rv_compact st))
      else Inr (Revision (if target_rev = 0 then rv_current st else target_rev) i64_max))"

definition trim :: "kv_record \<Rightarrow> bool \<Rightarrow> kv_record" where
  "trim rec keys_only = (if keys_only then rec\<lparr>r_value := []\<rparr> else rec)"

definition current_of :: "generation list \<Rightarrow> revision option" where
  "current_of gens =
     (if gens = [] then None
      else let g = last gens in
        if \<not> is_open g then None
        else if g_revs g = [] then None else Some (last (g_revs g)))"

section \<open>Facts\<close>

lemma current_of_gens_current: "current_of gs = map_option fst (gens_current gs)"
  by (simp add: current_of_def gens_current_def Let_def)

lemma in_range_index_bounds:
  "in_range k key range_end \<longleftrightarrow>
     (case index_bounds key range_end of None \<Rightarrow> False | Some (lo, hi) \<Rightarrow> in_bounds k lo hi)"
  by (auto simp: in_range_def index_bounds_def in_bounds_def)

lemma in_range_range_bounds:
  "in_range k key range_end \<longleftrightarrow> in_bounds k (fst (range_bounds key range_end)) (snd (range_bounds key range_end))"
  by (auto simp: in_range_def range_bounds_def in_bounds_def)

end
