(* ===== verification/Mvcc_Auth.thy ===== *)
theory Mvcc_Auth
  imports Mvcc_Types
begin

text \<open>
  Replicated auth, \<^verbatim>\<open>crates/storage/src/mvcc/auth.rs\<close>: the users, roles and enabled flag kept in
  the engine, the tokens and the flag kept in memory, and how each \<open>auth_op\<close> of the log is
  validated, written and then given its effect in memory.

  Table values are kept decoded. A name is the byte string the code uses as the table key, a
  \<^typ>\<open>string\<close>. The monotonic clock is an argument \<open>now\<close>, in milliseconds.
\<close>

section \<open>Stored data\<close>

datatype perm_type = PermRead | PermWrite | PermReadWrite

definition allows_read :: "perm_type \<Rightarrow> bool" where
  "allows_read p \<longleftrightarrow> p = PermRead \<or> p = PermReadWrite"

definition allows_write :: "perm_type \<Rightarrow> bool" where
  "allows_write p \<longleftrightarrow> p = PermWrite \<or> p = PermReadWrite"

record stored_permission =
  p_perm_type :: perm_type
  p_key :: bytes
  p_range_end :: bytes

record stored_user =
  u_name :: string
  u_password_hash :: string
  u_roles :: "string list"
  u_no_password :: bool

record stored_role =
  ro_name :: string
  ro_permissions :: "stored_permission list"

definition covers :: "stored_permission \<Rightarrow> bytes \<Rightarrow> bool" where
  "covers p key =
     (if p_range_end p = [] then key = p_key p
      else if p_range_end p = [0] then p_key p \<le> key
      else p_key p \<le> key \<and> key < p_range_end p)"

text \<open>The three tables as the engine holds them.\<close>

record auth_db =
  a_users :: "(string, stored_user) fmap"
  a_roles :: "(string, stored_role) fmap"
  a_state :: "(string, bytes) fmap"

definition auth_db_empty :: auth_db where
  "auth_db_empty = \<lparr>a_users = fmempty, a_roles = fmempty, a_state = fmempty\<rparr>"

definition META_AUTH_ENABLED :: string where
  "META_AUTH_ENABLED = ''enabled''"

definition flag_set :: "bytes \<Rightarrow> bool" where
  "flag_set v = (case v of [] \<Rightarrow> False | b # _ \<Rightarrow> b \<noteq> 0)"

text \<open>The flag as \<^verbatim>\<open>reload_auth\<close> reads it.\<close>

definition db_enabled :: "auth_db \<Rightarrow> bool" where
  "db_enabled db = (case fmlookup (a_state db) META_AUTH_ENABLED of Some v \<Rightarrow> flag_set v | None \<Rightarrow> False)"

text \<open>Writes of a batch to the three tables.\<close>

datatype auth_write =
    UserPut string stored_user
  | UserRemove string
  | RolePut string stored_role
  | RoleRemove string
  | StatePut string bytes
  | ClearAuth string string

definition fmclear :: "string \<Rightarrow> string \<Rightarrow> (string, 'v) fmap \<Rightarrow> (string, 'v) fmap" where
  "fmclear lo hi m = fmfilter (\<lambda>k. \<not> (lo \<le> k \<and> k < hi)) m"

fun auth_write_apply :: "auth_db \<Rightarrow> auth_write \<Rightarrow> auth_db" where
  "auth_write_apply db (UserPut k u) = db\<lparr>a_users := fmupd k u (a_users db)\<rparr>"
| "auth_write_apply db (UserRemove k) = db\<lparr>a_users := fmdrop k (a_users db)\<rparr>"
| "auth_write_apply db (RolePut k r) = db\<lparr>a_roles := fmupd k r (a_roles db)\<rparr>"
| "auth_write_apply db (RoleRemove k) = db\<lparr>a_roles := fmdrop k (a_roles db)\<rparr>"
| "auth_write_apply db (StatePut k v) = db\<lparr>a_state := fmupd k v (a_state db)\<rparr>"
| "auth_write_apply db (ClearAuth lo hi) =
     db\<lparr>a_users := fmclear lo hi (a_users db), a_roles := fmclear lo hi (a_roles db),
        a_state := fmclear lo hi (a_state db)\<rparr>"

definition auth_commit :: "auth_db \<Rightarrow> auth_write list \<Rightarrow> auth_db" where
  "auth_commit db ws = foldl auth_write_apply db ws"

section \<open>The tables as rows\<close>

record auth_tables =
  at_users :: "(string \<times> stored_user) list"
  at_roles :: "(string \<times> stored_role) list"
  at_state :: "(string \<times> bytes) list"

definition auth_tables_read :: "auth_db \<Rightarrow> auth_tables" where
  "auth_tables_read db =
     \<lparr>at_users = sorted_list_of_fmap (a_users db), at_roles = sorted_list_of_fmap (a_roles db),
      at_state = sorted_list_of_fmap (a_state db)\<rparr>"

definition tables_enabled :: "auth_tables \<Rightarrow> bool" where
  "tables_enabled t = list_ex (\<lambda>(k, v). k = META_AUTH_ENABLED \<and> flag_set v) (at_state t)"

definition tables_is_empty :: "auth_tables \<Rightarrow> bool" where
  "tables_is_empty t \<longleftrightarrow> at_users t = [] \<and> at_roles t = [] \<and> \<not> tables_enabled t"

definition auth_high_end :: string where
  "auth_high_end = replicate 64 (CHR 0xFF)"

definition auth_replace_into :: "auth_tables \<Rightarrow> auth_write list" where
  "auth_replace_into t =
     [ClearAuth [] auth_high_end] @ map (\<lambda>(k, v). UserPut k v) (at_users t) @
     map (\<lambda>(k, v). RolePut k v) (at_roles t) @ map (\<lambda>(k, v). StatePut k v) (at_state t)"

section \<open>The operations of the log\<close>

datatype auth_op =
    AuthEnable
  | AuthDisable
  | Authenticate string string string
  | UserAdd string string bool
  | UserDelete string
  | UserChangePassword string string
  | UserGrantRole string string
  | UserRevokeRole string string
  | RoleAdd string
  | RoleDelete string
  | RoleGrantPermission string stored_permission
  | RoleRevokePermission string bytes bytes
  | Adopt auth_tables

datatype auth_apply_error =
    AuthNotFound string
  | AuthAlreadyExists string
  | AuthFailedPrecondition string

definition user_not_found :: auth_apply_error where
  "user_not_found = AuthNotFound ''etcdserver: user name not found''"

definition role_not_found :: auth_apply_error where
  "role_not_found = AuthNotFound ''etcdserver: role name not found''"

record auth_effects =
  fx_set_enabled :: "bool option"
  fx_add_token :: "(string \<times> string) option"
  fx_revoke_user :: "string option"
  fx_keep_only_users :: "string list option"
  fx_adopted :: bool

definition fx_default :: auth_effects where
  "fx_default = \<lparr>fx_set_enabled = None, fx_add_token = None, fx_revoke_user = None,
     fx_keep_only_users = None, fx_adopted = False\<rparr>"

definition put_user :: "stored_user \<Rightarrow> auth_write" where
  "put_user u = UserPut (u_name u) u"

definition put_role :: "stored_role \<Rightarrow> auth_write" where
  "put_role r = RolePut (ro_name r) r"

text \<open>The users a deleted role is dropped from, in table order.\<close>

definition drop_role :: "string \<Rightarrow> auth_db \<Rightarrow> auth_write list" where
  "drop_role name db =
     map (\<lambda>(_, u). put_user (u\<lparr>u_roles := filter (\<lambda>r. r \<noteq> name) (u_roles u)\<rparr>))
       (filter (\<lambda>(_, u). length (filter (\<lambda>r. r \<noteq> name) (u_roles u)) \<noteq> length (u_roles u))
         (sorted_list_of_fmap (a_users db)))"

fun plan :: "auth_db \<Rightarrow> auth_op \<Rightarrow> auth_apply_error + (auth_write list \<times> auth_effects)" where
  "plan db AuthEnable =
     (if fmlookup (a_users db) ''root'' = None
      then Inl (AuthFailedPrecondition ''etcdserver: root user does not exist'')
      else Inr ([StatePut META_AUTH_ENABLED [1]], fx_default\<lparr>fx_set_enabled := Some True\<rparr>))"
| "plan db AuthDisable =
     Inr ([StatePut META_AUTH_ENABLED [0]], fx_default\<lparr>fx_set_enabled := Some False\<rparr>)"
| "plan db (Authenticate user token checked_hash) =
     (case fmlookup (a_users db) user of
        None \<Rightarrow> Inl user_not_found
      | Some u \<Rightarrow>
          if u_password_hash u \<noteq> checked_hash \<or> u_no_password u
          then Inl (AuthFailedPrecondition ''etcdserver: revision of auth store is old'')
          else Inr ([], fx_default\<lparr>fx_add_token := Some (token, user)\<rparr>))"
| "plan db (UserAdd name password_hash no_password) =
     (if fmlookup (a_users db) name \<noteq> None
      then Inl (AuthAlreadyExists ''etcdserver: user name already exists'')
      else Inr ([put_user \<lparr>u_name = name, u_password_hash = password_hash, u_roles = [],
                  u_no_password = no_password\<rparr>], fx_default))"
| "plan db (UserDelete name) =
     (if fmlookup (a_users db) name = None then Inl user_not_found
      else Inr ([UserRemove name], fx_default\<lparr>fx_revoke_user := Some name\<rparr>))"
| "plan db (UserChangePassword name password_hash) =
     (case fmlookup (a_users db) name of
        None \<Rightarrow> Inl user_not_found
      | Some u \<Rightarrow>
          Inr ([put_user (u\<lparr>u_password_hash := password_hash, u_no_password := False\<rparr>)],
               fx_default\<lparr>fx_revoke_user := Some name\<rparr>))"
| "plan db (UserGrantRole user role) =
     (case fmlookup (a_users db) user of
        None \<Rightarrow> Inl user_not_found
      | Some u \<Rightarrow>
          if fmlookup (a_roles db) role = None then Inl role_not_found
          else Inr ([put_user (if role \<in> set (u_roles u) then u
                               else u\<lparr>u_roles := u_roles u @ [role]\<rparr>)], fx_default))"
| "plan db (UserRevokeRole name role) =
     (case fmlookup (a_users db) name of
        None \<Rightarrow> Inl user_not_found
      | Some u \<Rightarrow> Inr ([put_user (u\<lparr>u_roles := filter (\<lambda>r. r \<noteq> role) (u_roles u)\<rparr>)], fx_default))"
| "plan db (RoleAdd name) =
     (if fmlookup (a_roles db) name \<noteq> None
      then Inl (AuthAlreadyExists ''etcdserver: role name already exists'')
      else Inr ([put_role \<lparr>ro_name = name, ro_permissions = []\<rparr>], fx_default))"
| "plan db (RoleDelete name) =
     (if fmlookup (a_roles db) name = None then Inl role_not_found
      else Inr (RoleRemove name # drop_role name db, fx_default))"
| "plan db (RoleGrantPermission name perm) =
     (case fmlookup (a_roles db) name of
        None \<Rightarrow> Inl role_not_found
      | Some r \<Rightarrow> Inr ([put_role (r\<lparr>ro_permissions := ro_permissions r @ [perm]\<rparr>)], fx_default))"
| "plan db (RoleRevokePermission name key range_end) =
     (case fmlookup (a_roles db) name of
        None \<Rightarrow> Inl role_not_found
      | Some r \<Rightarrow>
          Inr ([put_role (r\<lparr>ro_permissions :=
                  filter (\<lambda>p. p_key p \<noteq> key \<or> p_range_end p \<noteq> range_end) (ro_permissions r)\<rparr>)], fx_default))"
| "plan db (Adopt t) =
     Inr (auth_replace_into t,
          fx_default\<lparr>fx_set_enabled := Some (tables_enabled t), fx_adopted := True,
            fx_keep_only_users := Some (map fst (at_users t))\<rparr>)"

section \<open>Auth in memory\<close>

record auth_memory =
  am_enabled :: bool
  am_tokens :: "(string, string \<times> nat) fmap"
  am_ttl :: nat
  am_last_purge :: nat
  am_adoptions :: nat

definition DEFAULT_TOKEN_TTL :: nat where
  "DEFAULT_TOKEN_TTL = 300 * 1000"

definition auth_memory_default :: "nat \<Rightarrow> auth_memory" where
  "auth_memory_default now = \<lparr>am_enabled = False, am_tokens = fmempty, am_ttl = DEFAULT_TOKEN_TTL,
     am_last_purge = now, am_adoptions = 0\<rparr>"

definition retain_tokens :: "(string \<times> nat \<Rightarrow> bool) \<Rightarrow> auth_memory \<Rightarrow> auth_memory" where
  "retain_tokens keep m =
     m\<lparr>am_tokens := fmfilter (\<lambda>t. case fmlookup (am_tokens m) t of Some e \<Rightarrow> keep e | None \<Rightarrow> False) (am_tokens m)\<rparr>"

definition purge :: "nat \<Rightarrow> auth_memory \<Rightarrow> auth_memory" where
  "purge now m =
     (if now - am_last_purge m < 1000 then m
      else (retain_tokens (\<lambda>(_, used). now - used < am_ttl m) m)\<lparr>am_last_purge := now\<rparr>)"

definition user_for_token :: "nat \<Rightarrow> string \<Rightarrow> auth_memory \<Rightarrow> string option \<times> auth_memory" where
  "user_for_token now token m =
     (let m = purge now m in
      case fmlookup (am_tokens m) token of
        None \<Rightarrow> (None, m)
      | Some (user, used) \<Rightarrow>
          if now - used \<ge> am_ttl m
          then (None, m\<lparr>am_tokens := fmdrop token (am_tokens m)\<rparr>)
          else (Some user, m\<lparr>am_tokens := fmupd token (user, now) (am_tokens m)\<rparr>))"

definition insert_token :: "nat \<Rightarrow> string \<Rightarrow> string \<Rightarrow> auth_memory \<Rightarrow> auth_memory" where
  "insert_token now token user m =
     (let m = purge now m in m\<lparr>am_tokens := fmupd token (user, now) (am_tokens m)\<rparr>)"

definition revoke_user_tokens :: "string \<Rightarrow> auth_memory \<Rightarrow> auth_memory" where
  "revoke_user_tokens user m = retain_tokens (\<lambda>(u, _). u \<noteq> user) m"

definition effects_apply :: "nat \<Rightarrow> auth_effects \<Rightarrow> auth_memory \<Rightarrow> auth_memory" where
  "effects_apply now fx m =
     (let m = (case fx_set_enabled fx of Some e \<Rightarrow> m\<lparr>am_enabled := e\<rparr> | None \<Rightarrow> m);
          m = (case fx_revoke_user fx of Some u \<Rightarrow> revoke_user_tokens u m | None \<Rightarrow> m);
          m = (case fx_keep_only_users fx of
                 Some keep \<Rightarrow> retain_tokens (\<lambda>(u, _). u \<in> set keep) m | None \<Rightarrow> m);
          m = (case fx_add_token fx of Some (token, user) \<Rightarrow> insert_token now token user m | None \<Rightarrow> m)
      in if fx_adopted fx then m\<lparr>am_adoptions := am_adoptions m + 1\<rparr> else m)"

text \<open>One entry of the log on the tables and the memory: a refusal changes neither.\<close>

definition auth_apply ::
  "nat \<Rightarrow> auth_op \<Rightarrow> auth_db \<times> auth_memory \<Rightarrow> (auth_apply_error + unit) \<times> auth_db \<times> auth_memory" where
  "auth_apply now op s =
     (let (db, m) = s in
      case plan db op of
        Inl e \<Rightarrow> (Inl e, db, m)
      | Inr (ws, fx) \<Rightarrow> (Inr (), auth_commit db ws, effects_apply now fx m))"

section \<open>What the tables and the memory keep\<close>

text \<open>Well-formed tables: rows are under their own name, and every role a user holds exists.\<close>

definition auth_wf :: "auth_db \<Rightarrow> bool" where
  "auth_wf db \<longleftrightarrow>
     (\<forall>n u. fmlookup (a_users db) n = Some u \<longrightarrow>
        u_name u = n \<and> (\<forall>r \<in> set (u_roles u). fmlookup (a_roles db) r \<noteq> None)) \<and>
     (\<forall>n r. fmlookup (a_roles db) n = Some r \<longrightarrow> ro_name r = n)"

text \<open>The memory agrees with the tables: the flag is the stored one, and every token names a
  user that exists.\<close>

definition mem_agrees :: "auth_db \<Rightarrow> auth_memory \<Rightarrow> bool" where
  "mem_agrees db m \<longleftrightarrow>
     am_enabled m = db_enabled db \<and>
     (\<forall>t u used. fmlookup (am_tokens m) t = Some (u, used) \<longrightarrow> fmlookup (a_users db) u \<noteq> None)"

text \<open>Rows fit to be adopted: distinct keys that start no 0xFF byte (no UTF-8 name does), and
  well-formed as tables.\<close>

definition utf8_lead :: "string \<Rightarrow> bool" where
  "utf8_lead k = (case k of [] \<Rightarrow> True | c # _ \<Rightarrow> c \<noteq> CHR 0xFF)"

definition rows_db :: "auth_tables \<Rightarrow> auth_db" where
  "rows_db t = \<lparr>a_users = fmap_of_list (at_users t), a_roles = fmap_of_list (at_roles t),
     a_state = fmap_of_list (at_state t)\<rparr>"

definition adoptable :: "auth_tables \<Rightarrow> bool" where
  "adoptable t \<longleftrightarrow> distinct (map fst (at_users t)) \<and> distinct (map fst (at_roles t)) \<and>
     distinct (map fst (at_state t)) \<and> auth_wf (rows_db t)"

definition db_utf8 :: "auth_db \<Rightarrow> bool" where
  "db_utf8 db \<longleftrightarrow>
     (\<forall>k. fmlookup (a_users db) k \<noteq> None \<longrightarrow> utf8_lead k) \<and>
     (\<forall>k. fmlookup (a_roles db) k \<noteq> None \<longrightarrow> utf8_lead k) \<and>
     (\<forall>k. fmlookup (a_state db) k \<noteq> None \<longrightarrow> utf8_lead k)"

text \<open>Operations whose names are names: what the server's strings guarantee.\<close>

fun op_names_ok :: "auth_op \<Rightarrow> bool" where
  "op_names_ok (UserAdd n _ _) \<longleftrightarrow> utf8_lead n"
| "op_names_ok (RoleAdd n) \<longleftrightarrow> utf8_lead n"
| "op_names_ok (Adopt t) \<longleftrightarrow> adoptable t \<and> db_utf8 (rows_db t)"
| "op_names_ok _ \<longleftrightarrow> True"

definition auth_inv :: "auth_db \<times> auth_memory \<Rightarrow> bool" where
  "auth_inv s \<longleftrightarrow> auth_wf (fst s) \<and> db_utf8 (fst s) \<and> mem_agrees (fst s) (snd s)"

definition auth_run :: "(nat \<times> auth_op) list \<Rightarrow> auth_db \<times> auth_memory \<Rightarrow> auth_db \<times> auth_memory" where
  "auth_run ops s = foldl (\<lambda>s (now, op). snd (auth_apply now op s)) s ops"

section \<open>Facts\<close>

lemma auth_commit_Nil [simp]: "auth_commit db [] = db"
  by (simp add: auth_commit_def)

lemma auth_commit_Cons [simp]: "auth_commit db (w # ws) = auth_commit (auth_write_apply db w) ws"
  by (simp add: auth_commit_def)

lemma auth_commit_append [simp]: "auth_commit db (a @ b) = auth_commit (auth_commit db a) b"
  by (simp add: auth_commit_def)

lemma char_below_ff: "c \<noteq> CHR 0xFF \<Longrightarrow> c < CHR 0xFF"
proof -
  assume c: "c \<noteq> CHR 0xFF"
  have "(of_char c :: nat) \<noteq> of_char (CHR 0xFF)" using c by (simp del: of_char_Char)
  moreover have "(of_char c :: nat) < 256" by (rule nat_of_char_less_256)
  moreover have "(of_char (CHR 0xFF) :: nat) = 255" by simp
  ultimately have "(of_char c :: nat) < 255" by linarith
  then show ?thesis by (simp add: less_char_def)
qed

lemma utf8_lead_below: "utf8_lead k \<Longrightarrow> [] \<le> k \<and> k < auth_high_end"
  by (cases k) (simp_all add: utf8_lead_def auth_high_end_def numeral_eq_Suc char_below_ff)

lemma utf8_lead_enabled [simp]: "utf8_lead META_AUTH_ENABLED"
  by (simp add: utf8_lead_def META_AUTH_ENABLED_def)

lemma fmclear_all:
  assumes "\<forall>k. fmlookup m k \<noteq> None \<longrightarrow> utf8_lead k"
  shows "fmclear [] auth_high_end m = fmempty"
proof (rule fmap_ext)
  fix k
  show "fmlookup (fmclear [] auth_high_end m) k = fmlookup fmempty k"
    using assms utf8_lead_below [of k] by (auto simp: fmclear_def)
qed

lemma commit_user_rows:
  "distinct (map fst rows) \<Longrightarrow>
   auth_commit db (map (\<lambda>(k, v). UserPut k v) rows) = db\<lparr>a_users := a_users db ++\<^sub>f fmap_of_list rows\<rparr>"
proof (induction rows arbitrary: db)
  case (Cons r rows)
  then show ?case
    by (cases r) (simp add: fmadd_rows_Cons del: fmap_of_list_simps)
qed simp

lemma commit_role_rows:
  "distinct (map fst rows) \<Longrightarrow>
   auth_commit db (map (\<lambda>(k, v). RolePut k v) rows) = db\<lparr>a_roles := a_roles db ++\<^sub>f fmap_of_list rows\<rparr>"
proof (induction rows arbitrary: db)
  case (Cons r rows)
  then show ?case
    by (cases r) (simp add: fmadd_rows_Cons del: fmap_of_list_simps)
qed simp

lemma commit_state_rows:
  "distinct (map fst rows) \<Longrightarrow>
   auth_commit db (map (\<lambda>(k, v). StatePut k v) rows) = db\<lparr>a_state := a_state db ++\<^sub>f fmap_of_list rows\<rparr>"
proof (induction rows arbitrary: db)
  case (Cons r rows)
  then show ?case
    by (cases r) (simp add: fmadd_rows_Cons del: fmap_of_list_simps)
qed simp

lemma fmempty_add [simp]: "fmempty ++\<^sub>f m = m"
  by simp

lemma adopt_commit:
  assumes "db_utf8 db" "adoptable t"
  shows "auth_commit db (auth_replace_into t) = rows_db t"
proof -
  have "auth_write_apply db (ClearAuth [] auth_high_end) = auth_db_empty"
    using assms(1) by (simp add: db_utf8_def fmclear_all auth_db_empty_def)
  then show ?thesis
    using assms(2)
    by (simp add: auth_replace_into_def adoptable_def commit_user_rows commit_role_rows commit_state_rows
        auth_db_empty_def rows_db_def)
qed

lemma tables_enabled_rows:
  "distinct (map fst (at_state t)) \<Longrightarrow> tables_enabled t = db_enabled (rows_db t)"
  by (auto simp: tables_enabled_def db_enabled_def rows_db_def fmlookup_of_list list_ex_iff
      dest: map_of_SomeD eq_key_imp_eq_value split: option.splits)

lemma retain_tokens_lookup [simp]:
  "fmlookup (am_tokens (retain_tokens keep m)) t =
     (case fmlookup (am_tokens m) t of Some e \<Rightarrow> if keep e then Some e else None | None \<Rightarrow> None)"
  by (simp add: retain_tokens_def split: option.splits)

lemma retain_tokens_other [simp]:
  "am_enabled (retain_tokens keep m) = am_enabled m" "am_ttl (retain_tokens keep m) = am_ttl m"
  by (simp_all add: retain_tokens_def)

lemma purge_enabled [simp]: "am_enabled (purge now m) = am_enabled m" "am_ttl (purge now m) = am_ttl m"
  by (simp_all add: purge_def)

lemma purge_sub: "fmlookup (am_tokens (purge now m)) t = Some e \<Longrightarrow> fmlookup (am_tokens m) t = Some e"
  by (auto simp: purge_def split: option.splits if_splits)

lemma commit_put_users:
  "a_roles (auth_commit db (map (\<lambda>(k, u). put_user (f u)) rows)) = a_roles db \<and>
   a_state (auth_commit db (map (\<lambda>(k, u). put_user (f u)) rows)) = a_state db"
  by (induction rows arbitrary: db) (auto simp: put_user_def)

lemma commit_put_users_lookup:
  assumes "distinct (map fst rows)" "\<forall>(k, u) \<in> set rows. u_name u = k" "\<forall>u. u_name (f u) = u_name u"
  shows "fmlookup (a_users (auth_commit db (map (\<lambda>(k, u). put_user (f u)) rows))) n =
    (case map_of rows n of Some u \<Rightarrow> Some (f u) | None \<Rightarrow> fmlookup (a_users db) n)"
  using assms
proof (induction rows arbitrary: db)
  case (Cons r rows)
  have "map_of rows (fst r) = None" using Cons.prems(1) by (simp add: map_of_eq_None_iff)
  moreover have "u_name (f (snd r)) = fst r" using Cons.prems(2,3) by (cases r) simp
  ultimately show ?case
    using Cons by (cases r) (simp add: put_user_def split: option.split)
qed simp

lemma filter_same_length: "length (filter P xs) = length xs \<Longrightarrow> filter P xs = xs"
  by (metis filter_id_conv length_filter_less nless_le)

lemma drop_role_commit:
  assumes "auth_wf db" "a_users db' = a_users db"
  shows "fmlookup (a_users (auth_commit db' (drop_role name db))) n =
      map_option (\<lambda>u. u\<lparr>u_roles := filter (\<lambda>r. r \<noteq> name) (u_roles u)\<rparr>) (fmlookup (a_users db) n)"
    and "a_roles (auth_commit db' (drop_role name db)) = a_roles db'"
    and "a_state (auth_commit db' (drop_role name db)) = a_state db'"
proof -
  let ?f = "\<lambda>u. u\<lparr>u_roles := filter (\<lambda>r. r \<noteq> name) (u_roles u)\<rparr>"
  let ?keep = "\<lambda>u. length (filter (\<lambda>r. r \<noteq> name) (u_roles u)) \<noteq> length (u_roles u)"
  let ?rows = "filter (\<lambda>(_, u). ?keep u) (sorted_list_of_fmap (a_users db))"
  have dist: "distinct (map fst (sorted_list_of_fmap (a_users db)))" by (simp add: sorted_keys_distinct)
  then have "distinct (map fst ?rows)" by (rule distinct_map_filter)
  moreover have "\<forall>(k, u) \<in> set ?rows. u_name u = k"
    using assms(1) by (auto simp: auth_wf_def in_sorted_list_of_fmap)
  ultimately have "fmlookup (a_users (auth_commit db' (drop_role name db))) n =
      (case map_of ?rows n of Some u \<Rightarrow> Some (?f u) | None \<Rightarrow> fmlookup (a_users db') n)"
    unfolding drop_role_def by (rule commit_put_users_lookup) simp
  note look = this
  have mo: "map_of ?rows n = Some u \<longleftrightarrow> fmlookup (a_users db) n = Some u \<and> ?keep u" for u
    using \<open>distinct (map fst ?rows)\<close> by (simp add: map_of_eq_Some_iff)
  show "fmlookup (a_users (auth_commit db' (drop_role name db))) n = map_option ?f (fmlookup (a_users db) n)"
  proof (cases "map_of ?rows n")
    case (Some u)
    then have "fmlookup (a_users db) n = Some u" using mo by blast
    with look Some show ?thesis by simp
  next
    case None
    have "?f u = u" if "fmlookup (a_users db) n = Some u" for u
    proof -
      have "\<not> ?keep u" using mo [of u] None that by simp
      then show ?thesis using filter_same_length [of _ "u_roles u"] by simp
    qed
    with look None show ?thesis unfolding assms(2) by (cases "fmlookup (a_users db) n") simp_all
  qed
qed (simp_all add: drop_role_def commit_put_users)

lemma auth_wf_user: "auth_wf db \<Longrightarrow> fmlookup (a_users db) n = Some u \<Longrightarrow> u_name u = n"
  by (simp add: auth_wf_def)

lemma auth_wf_role: "auth_wf db \<Longrightarrow> fmlookup (a_roles db) n = Some r \<Longrightarrow> ro_name r = n"
  by (simp add: auth_wf_def)

lemma auth_wf_held:
  "auth_wf db \<Longrightarrow> fmlookup (a_users db) n = Some u \<Longrightarrow> r \<in> set (u_roles u) \<Longrightarrow> fmlookup (a_roles db) r \<noteq> None"
  by (simp add: auth_wf_def)

lemma wf_put_user:
  assumes "auth_wf db" "\<forall>r \<in> set (u_roles u). fmlookup (a_roles db) r \<noteq> None"
  shows "auth_wf (auth_write_apply db (put_user u))"
  using assms by (auto simp: auth_wf_def put_user_def)

lemma wf_put_role:
  assumes "auth_wf db"
  shows "auth_wf (auth_write_apply db (put_role r))"
  using assms by (auto simp: auth_wf_def put_role_def)

lemma wf_role_delete:
  assumes "auth_wf db"
  shows "auth_wf (auth_commit (auth_write_apply db (RoleRemove name)) (drop_role name db))" (is "auth_wf ?db")
proof -
  have "a_users (auth_write_apply db (RoleRemove name)) = a_users db" by simp
  note d = drop_role_commit [OF assms this, of name]
  have roles: "a_roles ?db = fmdrop name (a_roles db)" using d(2) by simp
  show ?thesis
    unfolding auth_wf_def
  proof (intro conjI allI impI)
    fix n u
    assume "fmlookup (a_users ?db) n = Some u"
    then obtain v where v: "fmlookup (a_users db) n = Some v"
      "u = v\<lparr>u_roles := filter (\<lambda>r. r \<noteq> name) (u_roles v)\<rparr>"
      using d(1) [of n] by (cases "fmlookup (a_users db) n") simp_all
    then show "u_name u = n" using auth_wf_user [OF assms v(1)] by simp
    show "\<forall>r \<in> set (u_roles u). fmlookup (a_roles ?db) r \<noteq> None"
      unfolding roles using v(2) auth_wf_held [OF assms v(1)] by simp
  next
    fix n r
    assume "fmlookup (a_roles ?db) n = Some r"
    then show "ro_name r = n" unfolding roles using auth_wf_role [OF assms] by (simp split: if_splits)
  qed
qed

lemma plan_commit_wf:
  assumes "auth_wf db" "db_utf8 db" "op_names_ok op" "plan db op = Inr (ws, fx)"
  shows "auth_wf (auth_commit db ws)"
proof (cases op)
  case (RoleDelete name)
  then show ?thesis using assms(1,4) wf_role_delete by (auto split: if_splits)
next
  case (Adopt t)
  then have "adoptable t" "ws = auth_replace_into t" using assms(3,4) by auto
  then show ?thesis using adopt_commit [OF assms(2)] by (simp add: adoptable_def)
next
  case (UserDelete n)
  then show ?thesis using assms(1,4) by (auto simp: auth_wf_def split: if_splits)
qed (use assms(1,4) auth_wf_held [OF assms(1)] in
  \<open>auto simp del: auth_write_apply.simps(1,3) intro!: wf_put_user wf_put_role split: if_splits option.splits,
   simp_all add: auth_wf_def\<close>)

lemma plan_commit_utf8:
  assumes "auth_wf db" "db_utf8 db" "op_names_ok op" "plan db op = Inr (ws, fx)"
  shows "db_utf8 (auth_commit db ws)"
proof (cases op)
  case (RoleDelete name)
  have "a_users (auth_write_apply db (RoleRemove name)) = a_users db" by simp
  note d = drop_role_commit [OF assms(1) this, of name]
  have "auth_commit db ws = auth_commit (auth_write_apply db (RoleRemove name)) (drop_role name db)"
    using RoleDelete assms(4) by (auto split: if_splits)
  then show ?thesis using assms(2) d by (auto simp: db_utf8_def split: if_splits)
next
  case (Adopt t)
  then have "adoptable t" "db_utf8 (rows_db t)" "ws = auth_replace_into t" using assms(3,4) by auto
  then show ?thesis using adopt_commit [OF assms(2)] by simp
qed (use assms auth_wf_user [OF assms(1)] auth_wf_role [OF assms(1)] in
  \<open>auto simp: db_utf8_def put_user_def put_role_def split: if_splits option.splits\<close>)

lemma effects_apply_token:
  assumes "fmlookup (am_tokens (effects_apply now fx m)) t = Some (u, used)"
  shows "(fx_add_token fx = Some (t, u)) \<or>
    ((\<exists>used. fmlookup (am_tokens m) t = Some (u, used)) \<and> fx_revoke_user fx \<noteq> Some u \<and>
     (\<forall>keep. fx_keep_only_users fx = Some keep \<longrightarrow> u \<in> set keep))"
  using assms
  by (auto simp: effects_apply_def Let_def revoke_user_tokens_def insert_token_def
      dest!: purge_sub split: option.splits if_splits prod.splits)

lemma effects_apply_enabled:
  "am_enabled (effects_apply now fx m) = (case fx_set_enabled fx of Some e \<Rightarrow> e | None \<Rightarrow> am_enabled m)"
  by (simp add: effects_apply_def Let_def revoke_user_tokens_def insert_token_def split: option.split prod.split)

lemma commit_state_same:
  assumes "plan db op = Inr (ws, fx)" "auth_wf db" "db_utf8 db" "op_names_ok op"
  shows "db_enabled (auth_commit db ws) = (case fx_set_enabled fx of Some e \<Rightarrow> e | None \<Rightarrow> db_enabled db)"
proof (cases op)
  case (RoleDelete name)
  then show ?thesis using assms drop_role_commit(3) [OF assms(2), of "auth_write_apply db (RoleRemove name)" name]
    by (auto simp: db_enabled_def fx_default_def split: if_splits)
next
  case (Adopt t)
  then have t: "adoptable t" "ws = auth_replace_into t" "fx_set_enabled fx = Some (tables_enabled t)"
    using assms(1,4) by auto
  then show ?thesis using adopt_commit [OF assms(3) t(1)] tables_enabled_rows [of t]
    by (simp add: adoptable_def)
qed (use assms in \<open>auto simp: db_enabled_def fx_default_def put_user_def put_role_def flag_set_def
    split: if_splits option.splits\<close>)

lemma plan_users:
  assumes "plan db op = Inr (ws, fx)" "auth_wf db" "db_utf8 db" "op_names_ok op"
    and "fmlookup (a_users db) u \<noteq> None" "fx_revoke_user fx \<noteq> Some u"
    and "\<forall>keep. fx_keep_only_users fx = Some keep \<longrightarrow> u \<in> set keep"
  shows "fmlookup (a_users (auth_commit db ws)) u \<noteq> None"
proof (cases op)
  case (RoleDelete name)
  then show ?thesis
    using assms(1,5) drop_role_commit(1) [OF assms(2), of "auth_write_apply db (RoleRemove name)" name u]
    by (auto split: if_splits)
next
  case (Adopt t)
  then have "adoptable t" "ws = auth_replace_into t" "u \<in> fst ` set (at_users t)"
    using assms(1,4,7) by auto
  then show ?thesis using adopt_commit [OF assms(3)]
    by (simp add: rows_db_def fmlookup_of_list) (metis map_of_eq_None_iff option.exhaust)
qed (use assms in \<open>auto simp: put_user_def put_role_def fx_default_def split: if_splits option.splits\<close>)

lemma auth_apply_inv:
  assumes "auth_inv s" "op_names_ok op"
  shows "auth_inv (snd (auth_apply now op s))"
proof (cases "plan (fst s) op")
  case (Inl e)
  then show ?thesis using assms by (simp add: auth_apply_def auth_inv_def split_def)
next
  case (Inr p)
  obtain ws fx where p: "plan (fst s) op = Inr (ws, fx)" using Inr by (cases p) simp
  have inv: "auth_wf (fst s)" "db_utf8 (fst s)" "mem_agrees (fst s) (snd s)"
    using assms(1) by (simp_all add: auth_inv_def)
  have "fmlookup (a_users (auth_commit (fst s) ws)) u \<noteq> None"
    if "fmlookup (am_tokens (effects_apply now fx (snd s))) t = Some (u, used)" for t u used
    using effects_apply_token [OF that]
  proof
    assume "fx_add_token fx = Some (t, u)"
    then show ?thesis using p by (cases op) (auto simp: fx_default_def split: if_splits option.splits)
  next
    assume old: "(\<exists>used. fmlookup (am_tokens (snd s)) t = Some (u, used)) \<and> fx_revoke_user fx \<noteq> Some u \<and>
      (\<forall>keep. fx_keep_only_users fx = Some keep \<longrightarrow> u \<in> set keep)"
    with inv(3) have "fmlookup (a_users (fst s)) u \<noteq> None" by (auto simp: mem_agrees_def)
    with old show ?thesis using plan_users [OF p inv(1,2) assms(2)] by blast
  qed
  then have "mem_agrees (auth_commit (fst s) ws) (effects_apply now fx (snd s))"
    using inv(3) commit_state_same [OF p inv(1,2) assms(2)]
    by (auto simp: mem_agrees_def effects_apply_enabled split: option.split)
  then show ?thesis
    using p plan_commit_wf [OF inv(1,2) assms(2) p] plan_commit_utf8 [OF inv(1,2) assms(2) p] by (simp add: auth_apply_def auth_inv_def split_def)
qed

lemma auth_run_snoc: "auth_run (ops @ [(now, op)]) s = snd (auth_apply now op (auth_run ops s))"
  by (simp add: auth_run_def)

lemma auth_run_inv:
  assumes "auth_inv s" "\<forall>(now, op) \<in> set ops. op_names_ok op"
  shows "auth_inv (auth_run ops s)"
  using assms(2)
proof (induction ops rule: rev_induct)
  case Nil
  then show ?case using assms(1) by (simp add: auth_run_def)
next
  case (snoc p ops)
  then show ?case using auth_apply_inv by (cases p) (simp add: auth_run_snoc)
qed

lemma auth_inv_start: "auth_inv (auth_db_empty, auth_memory_default now)"
  by (simp add: auth_inv_def auth_wf_def db_utf8_def mem_agrees_def auth_db_empty_def auth_memory_default_def
      db_enabled_def)

text \<open>No token names the user.\<close>

definition no_token_of :: "string \<Rightarrow> auth_memory \<Rightarrow> bool" where
  "no_token_of name m \<longleftrightarrow> (\<forall>t used. fmlookup (am_tokens m) t \<noteq> Some (name, used))"

lemma no_token_apply:
  assumes "no_token_of name (snd s)" "\<forall>t h. op \<noteq> Authenticate name t h"
  shows "no_token_of name (snd (snd (auth_apply now op s)))"
proof (cases "plan (fst s) op")
  case (Inl e)
  then show ?thesis using assms by (simp add: auth_apply_def split_def)
next
  case (Inr p)
  obtain ws fx where p: "plan (fst s) op = Inr (ws, fx)" using Inr by (cases p) simp
  have "fx_add_token fx \<noteq> Some (t, name)" for t
    using p assms(2) by (cases op) (auto simp: fx_default_def split: if_splits option.splits)
  then have "no_token_of name (effects_apply now fx (snd s))"
    using assms(1) effects_apply_token unfolding no_token_of_def by blast
  then show ?thesis using p by (simp add: auth_apply_def split_def)
qed

lemma user_for_token_held:
  "fst (user_for_token now t m) = Some u \<Longrightarrow> \<exists>used. fmlookup (am_tokens m) t = Some (u, used)"
  by (auto simp: user_for_token_def Let_def dest!: purge_sub split: option.splits if_splits)

section \<open>The life of a token\<close>

text \<open>What touches the tokens between two entries of the log: issuing one, and looking one up.\<close>

datatype token_call = Issue string string | Use string

fun token_step :: "nat \<Rightarrow> token_call \<Rightarrow> auth_memory \<Rightarrow> auth_memory" where
  "token_step now (Issue t u) m = insert_token now t u m"
| "token_step now (Use t) m = snd (user_for_token now t m)"

definition token_run :: "(nat \<times> token_call) list \<Rightarrow> auth_memory \<Rightarrow> auth_memory" where
  "token_run calls m = foldl (\<lambda>m (now, c). token_step now c m) m calls"

text \<open>The times from one on, each less than the time to live after the one before.\<close>

fun gaps_below :: "nat \<Rightarrow> nat \<Rightarrow> nat list \<Rightarrow> bool" where
  "gaps_below ttl used [] = True"
| "gaps_below ttl used (x # xs) = (x - used < ttl \<and> gaps_below ttl x xs)"

text \<open>At time \<open>c\<close> the memory holds the token as last used at \<open>used\<close>, or has dropped it as expired.\<close>

definition tok_at :: "string \<Rightarrow> string \<Rightarrow> nat \<Rightarrow> nat \<Rightarrow> auth_memory \<Rightarrow> bool" where
  "tok_at t u used c m \<longleftrightarrow> used \<le> c \<and>
     (fmlookup (am_tokens m) t = Some (u, used) \<or> fmlookup (am_tokens m) t = None \<and> am_ttl m \<le> c - used)"

lemma purge_ttl: "am_ttl (purge now m) = am_ttl m"
  by (simp add: purge_def retain_tokens_def)

lemma purge_lookup:
  "fmlookup (am_tokens (purge now m)) t = fmlookup (am_tokens m) t \<or>
   fmlookup (am_tokens (purge now m)) t = None \<and> (\<exists>u used. fmlookup (am_tokens m) t = Some (u, used) \<and> am_ttl m \<le> now - used)"
  by (auto simp: purge_def retain_tokens_def split: option.splits)

lemma tok_at_purge: "tok_at t u used c m \<Longrightarrow> c \<le> now \<Longrightarrow> tok_at t u used now (purge now m)"
  using purge_lookup [of now m t] by (auto simp: tok_at_def purge_ttl)

lemma token_step_ttl: "am_ttl (token_step now c m) = am_ttl m"
  by (cases c) (auto simp: insert_token_def user_for_token_def Let_def purge_ttl split: option.split)

lemma tok_at_other:
  assumes "tok_at t u used c m" "c \<le> now" "\<forall>u'. k \<noteq> Issue t u'" "k \<noteq> Use t"
  shows "tok_at t u used now (token_step now k m)"
proof -
  note p = tok_at_purge [OF assms(1,2)]
  show ?thesis
  proof (cases k)
    case (Issue t' u')
    then show ?thesis using p assms(3) by (auto simp: tok_at_def insert_token_def Let_def)
  next
    case (Use t')
    then show ?thesis using p assms(4) by (auto simp: tok_at_def user_for_token_def Let_def split: option.split)
  qed
qed

text \<open>A lookup renews the token in time and ends it otherwise.\<close>

lemma tok_at_use:
  assumes "tok_at t u used c m" "c \<le> now"
  shows "fst (user_for_token now t m) = (if now - used < am_ttl m then Some u else None)"
    "now - used < am_ttl m \<Longrightarrow> tok_at t u now now (snd (user_for_token now t m))"
    "\<not> now - used < am_ttl m \<Longrightarrow> tok_at t u used now (snd (user_for_token now t m))"
  using tok_at_purge [OF assms] by (auto simp: tok_at_def user_for_token_def Let_def purge_ttl)

lemma late_gaps: "am_ttl m \<le> c - used \<Longrightarrow> sorted (c # xs) \<Longrightarrow> xs \<noteq> [] \<Longrightarrow> \<not> gaps_below (am_ttl m) used xs"
  by (cases xs) auto

lemma token_run_lookup:
  assumes "tok_at t u used c m" "sorted (c # map fst calls @ [now])" "\<forall>x \<in> set calls. \<forall>u'. snd x \<noteq> Issue t u'"
  shows "fst (user_for_token now t (token_run calls m)) =
    (if gaps_below (am_ttl m) used (map fst (filter (\<lambda>x. snd x = Use t) calls) @ [now]) then Some u else None)"
  using assms
proof (induction calls arbitrary: m used c)
  case Nil
  then show ?case using tok_at_use(1) [OF Nil(1)] by (simp add: token_run_def)
next
  case (Cons x calls)
  obtain tm k where x: "x = (tm, k)" by fastforce
  have le: "c \<le> tm" and rest: "sorted (tm # map fst calls @ [now])" using Cons.prems(2) x by auto
  have no: "\<forall>x \<in> set calls. \<forall>u'. snd x \<noteq> Issue t u'" using Cons.prems(3) by simp
  have run: "token_run (x # calls) m = token_run calls (token_step tm k m)" by (simp add: token_run_def x)
  show ?case
  proof (cases "k = Use t")
    case False
    have "tok_at t u used tm (token_step tm k m)"
      using tok_at_other [OF Cons.prems(1) le] Cons.prems(3) False x by auto
    from Cons.IH [OF this rest no] False show ?thesis unfolding run by (simp add: x token_step_ttl)
  next
    case True
    note use = tok_at_use [OF Cons.prems(1) le]
    show ?thesis
    proof (cases "tm - used < am_ttl m")
      case in_time: True
      from Cons.IH [OF use(2) [OF in_time] rest no] in_time show ?thesis
        using token_step_ttl [of tm "Use t" m] unfolding run by (simp add: x True)
    next
      case late: False
      let ?ts = "map fst (filter (\<lambda>x. snd x = Use t) calls) @ [now]"
      have "sorted (tm # ?ts)" using rest by (auto simp: sorted_append intro: sorted_filter)
      then have "\<not> gaps_below (am_ttl m) used ?ts" using late by (intro late_gaps [of m tm]) auto
      with Cons.IH [OF use(3) [OF late] rest no] late show ?thesis
        using token_step_ttl [of tm "Use t" m] unfolding run by (simp add: x True)
    qed
  qed
qed

section \<open>Properties\<close>

text \<open>C22: Auth's tables stay consistent and its memory follows them: after any run of auth entries
  from an empty store, every row is under its own name, every role a user holds exists (granting
  needs it, deleting a role takes it from every user), the flag requests are checked against is
  the stored one, and every token names a user that exists.\<close>

theorem auth_state_consistent:
  assumes "\<forall>(now, op) \<in> set ops. op_names_ok op"
  shows "let (db, m) = auth_run ops (auth_db_empty, auth_memory_default start) in
    auth_wf db \<and> am_enabled m = db_enabled db \<and>
    (\<forall>t u used. fmlookup (am_tokens m) t = Some (u, used) \<longrightarrow> fmlookup (a_users db) u \<noteq> None)"
  using auth_run_inv [OF auth_inv_start assms, of start] by (simp add: auth_inv_def mem_agrees_def split_def)

definition sample_auth_ops :: "(nat \<times> auth_op) list" where
  "sample_auth_ops =
     [(0, UserAdd ''root'' ''h'' False), (1, RoleAdd ''r''), (2, UserAdd ''ann'' ''k'' False),
      (3, UserGrantRole ''ann'' ''r''), (4, AuthEnable), (5, Authenticate ''ann'' ''tok'' ''k''),
      (6, RoleDelete ''r'')]"

theorem auth_state_consistent_witness:
  "auth_wf (fst (auth_run sample_auth_ops (auth_db_empty, auth_memory_default 0)))"
  using auth_state_consistent [of sample_auth_ops 0]
  by (simp add: sample_auth_ops_def utf8_lead_def split_def Let_def)

text \<open>C23: Deleting a user or changing a password ends every session of that user: once the entry is
  applied, and whatever is applied after it, no token names the user until an Authenticate entry
  of that user is applied.\<close>

theorem sessions_end:
  assumes "op = UserDelete name \<or> op = UserChangePassword name h"
    and "auth_apply now op s = (Inr (), s')"
    and "\<forall>(_, op) \<in> set later. \<forall>t h. op \<noteq> Authenticate name t h"
  shows "fst (user_for_token now' t (snd (auth_run later s'))) \<noteq> Some name"
proof -
  obtain ws fx where p: "plan (fst s) op = Inr (ws, fx)" "s' = (auth_commit (fst s) ws, effects_apply now fx (snd s))"
    using assms(2) by (auto simp: auth_apply_def split_def split: sum.splits)
  have "fx_revoke_user fx = Some name" "fx_add_token fx = None"
    using p(1) assms(1) by (auto simp: fx_default_def split: if_splits option.splits)
  then have "no_token_of name (snd s')"
    using effects_apply_token [of now fx "snd s"] p(2) unfolding no_token_of_def by fastforce
  then have "no_token_of name (snd (auth_run later s'))"
    using assms(3)
  proof (induction later rule: rev_induct)
    case (snoc p later)
    then show ?case using no_token_apply by (cases p) (simp add: auth_run_snoc)
  qed (simp add: auth_run_def)
  then show ?thesis using user_for_token_held unfolding no_token_of_def by blast
qed

theorem sessions_end_witness:
  "fst (user_for_token 9 ''tok'' (snd (auth_run [(8, AuthDisable)]
     (snd (auth_apply 7 (UserDelete ''ann'') (auth_run sample_auth_ops (auth_db_empty, auth_memory_default 0))))))) \<noteq> Some ''ann''"
proof -
  let ?s = "auth_run sample_auth_ops (auth_db_empty, auth_memory_default 0)"
  have "fmlookup (a_users (fst ?s)) ''ann'' \<noteq> None"
    by (simp add: sample_auth_ops_def auth_run_def auth_apply_def auth_db_empty_def put_user_def put_role_def
        drop_role_def auth_commit_def)
  then have "auth_apply 7 (UserDelete ''ann'') ?s = (Inr (), snd (auth_apply 7 (UserDelete ''ann'') ?s))"
    by (simp add: auth_apply_def split_def Let_def)
  from sessions_end [OF _ this, of "''ann''" "[]" "[(8, AuthDisable)]" 9 "''tok''"] show ?thesis by simp
qed

text \<open>C25: A token lives for its time to live after its last use and no longer. Issued at \<open>t0\<close>
  and then looked up any number of times, among other tokens being issued and looked up (each of
  which may purge the expired), it names its user at \<open>now\<close> exactly when no gap, from its issue to
  its first lookup, between its lookups, or from the last one to \<open>now\<close>, reaches the time to
  live: every lookup that succeeds renews it, and one that is too late ends it for good.\<close>

theorem token_lifetime:
  assumes "sorted (t0 # map fst calls @ [now])" "\<forall>c \<in> set calls. \<forall>u'. snd c \<noteq> Issue t u'"
  shows "fst (user_for_token now t (token_run calls (insert_token t0 t u m))) =
    (if gaps_below (am_ttl m) t0 (map fst (filter (\<lambda>c. snd c = Use t) calls) @ [now]) then Some u else None)"
proof -
  have "tok_at t u t0 t0 (insert_token t0 t u m)"
    by (simp add: tok_at_def insert_token_def Let_def purge_ttl)
  from token_run_lookup [OF this assms] show ?thesis by (simp add: insert_token_def Let_def purge_ttl)
qed

theorem token_lifetime_witness:
  "let calls = [(250000, Use ''tok''), (400000, Issue ''x'' ''bob''), (500000, Use ''tok'')] in
   fst (user_for_token 700000 ''tok'' (token_run calls (insert_token 0 ''tok'' ''ann'' (auth_memory_default 0)))) = Some ''ann'' \<and>
   fst (user_for_token 900000 ''tok'' (token_run calls (insert_token 0 ''tok'' ''ann'' (auth_memory_default 0)))) = None"
  using token_lifetime [of 0 "[(250000, Use ''tok''), (400000, Issue ''x'' ''bob''), (500000, Use ''tok'')]" 700000 "''tok''" "''ann''" "auth_memory_default 0"]
    token_lifetime [of 0 "[(250000, Use ''tok''), (400000, Issue ''x'' ''bob''), (500000, Use ''tok'')]" 900000 "''tok''" "''ann''" "auth_memory_default 0"]
  by (simp add: auth_memory_default_def DEFAULT_TOKEN_TTL_def)

text \<open>C24: Adopting another member's tables makes this member's the same, row for row, whatever it
  held before.\<close>

theorem adopt_converges:
  assumes "auth_wf db" "db_utf8 db" "auth_wf other" "db_utf8 other"
  shows "fst (snd (auth_apply now (Adopt (auth_tables_read other)) (db, m))) = other"
proof -
  have rows: "fmap_of_list (sorted_list_of_fmap M) = M" for M :: "(string, 'v) fmap"
    by (rule fmap_ext) (simp add: fmlookup_of_list)
  have "rows_db (auth_tables_read other) = other"
    by (simp add: rows_db_def auth_tables_read_def rows)
  moreover from this have "adoptable (auth_tables_read other)"
    using assms(3) by (simp add: adoptable_def auth_tables_read_def sorted_keys_distinct)
  ultimately show ?thesis using adopt_commit [OF assms(2)] by (simp add: auth_apply_def)
qed

theorem adopt_converges_witness:
  "\<exists>db. a_users db \<noteq> fmempty \<and>
     fst (snd (auth_apply 1 (Adopt (auth_tables_read db)) (auth_db_empty, auth_memory_default 0))) = db"
proof -
  let ?s = "auth_run [(0, UserAdd ''root'' ''h'' False)] (auth_db_empty, auth_memory_default 0)"
  have "auth_inv ?s" by (rule auth_run_inv [OF auth_inv_start]) (simp add: utf8_lead_def)
  moreover have "fmlookup (a_users (fst ?s)) ''root'' \<noteq> None"
    by (simp add: auth_run_def auth_apply_def auth_db_empty_def put_user_def)
  ultimately show ?thesis
    using adopt_converges [of auth_db_empty "fst ?s" 1 "auth_memory_default 0"] auth_inv_start [of 0]
    by (intro exI [of _ "fst ?s"]) (auto simp: auth_inv_def)
qed

end
