(* ===== verification/Mvcc_Lease.thy ===== *)
theory Mvcc_Lease
  imports Mvcc_Auth
begin

text \<open>
  Lease records and the keys of the two lease tables, \<^verbatim>\<open>crates/storage/src/mvcc/lease.rs\<close>, and the
  tables of the engine the MVCC layer uses, with the operations of its write batches.

  The values of the tables are kept decoded (the code stores them as bincode), and
  \<^verbatim>\<open>mvcc_kv\<close> is keyed by the pair its composite key encodes, which \<open>make_kv_key\<close>
  does injectively. The keys of the lease tables are bytes: revoking a lease scans a byte range.
\<close>

section \<open>Lease keys\<close>

record lease_record =
  ls_id :: int
  ls_ttl_secs :: int
  ls_deadline_unix_secs :: int

definition lease_id_key :: "int \<Rightarrow> bytes" where
  "lease_id_key lid = i64_to_be_bytes lid"

definition lease_key_index :: "int \<Rightarrow> bytes \<Rightarrow> bytes" where
  "lease_key_index lid user_key = lease_id_key lid @ user_key"

definition checked_add_i64 :: "int \<Rightarrow> int \<Rightarrow> int option" where
  "checked_add_i64 a b = (if i64_ok (a + b) then Some (a + b) else None)"

definition saturating_add_i64 :: "int \<Rightarrow> int \<Rightarrow> int" where
  "saturating_add_i64 a b = max i64_min (min i64_max (a + b))"

definition saturating_sub_i64 :: "int \<Rightarrow> int \<Rightarrow> int" where
  "saturating_sub_i64 a b = max i64_min (min i64_max (a - b))"

definition lease_keys_bounds :: "int \<Rightarrow> bytes bound \<times> bytes bound" where
  "lease_keys_bounds lid =
     (let start = lease_id_key lid in
      case checked_add_i64 (i64_from_be_bytes start) 1 of
        Some n \<Rightarrow> (Included start, Excluded (i64_to_be_bytes n))
      | None \<Rightarrow> (Included start, Unbounded))"

definition parse_lease_keys_key :: "bytes \<Rightarrow> mvcc_error + (int \<times> bytes)" where
  "parse_lease_keys_key bs =
     (if length bs < 8
      then Inl (Internal (''lease_keys key too short: '' @ show_nat (length bs) @ '' bytes''))
      else Inr (i64_from_be_bytes (take 8 bs), drop 8 bs))"

section \<open>The engine's tables\<close>

record engine =
  t_kv :: "(bytes \<times> revision, kv_record) fmap"
  t_idx :: "(bytes, key_index) fmap"
  t_meta :: "(string, bytes) fmap"
  t_lease :: "(bytes, lease_record) fmap"
  t_lease_keys :: "(bytes, unit) fmap"
  t_auth :: auth_db

definition engine_empty :: engine where
  "engine_empty = \<lparr>t_kv = fmempty, t_idx = fmempty, t_meta = fmempty, t_lease = fmempty,
     t_lease_keys = fmempty, t_auth = auth_db_empty\<rparr>"

datatype store_op =
    KvPut bytes revision kv_record
  | KvDelete bytes revision
  | IdxPut bytes key_index
  | IdxDelete bytes
  | MetaPut string bytes
  | LeasePut bytes lease_record
  | LeaseDelete bytes
  | LeaseKeyPut bytes
  | LeaseKeyDelete bytes
  | AuthWrite auth_write

type_synonym store_batch = "store_op list"

fun store_op_apply :: "engine \<Rightarrow> store_op \<Rightarrow> engine" where
  "store_op_apply e (KvPut k r rec) = e\<lparr>t_kv := fmupd (k, r) rec (t_kv e)\<rparr>"
| "store_op_apply e (KvDelete k r) = e\<lparr>t_kv := fmdrop (k, r) (t_kv e)\<rparr>"
| "store_op_apply e (IdxPut k idx) = e\<lparr>t_idx := fmupd k idx (t_idx e)\<rparr>"
| "store_op_apply e (IdxDelete k) = e\<lparr>t_idx := fmdrop k (t_idx e)\<rparr>"
| "store_op_apply e (MetaPut k v) = e\<lparr>t_meta := fmupd k v (t_meta e)\<rparr>"
| "store_op_apply e (LeasePut k l) = e\<lparr>t_lease := fmupd k l (t_lease e)\<rparr>"
| "store_op_apply e (LeaseDelete k) = e\<lparr>t_lease := fmdrop k (t_lease e)\<rparr>"
| "store_op_apply e (LeaseKeyPut k) = e\<lparr>t_lease_keys := fmupd k () (t_lease_keys e)\<rparr>"
| "store_op_apply e (LeaseKeyDelete k) = e\<lparr>t_lease_keys := fmdrop k (t_lease_keys e)\<rparr>"
| "store_op_apply e (AuthWrite w) = e\<lparr>t_auth := auth_write_apply (t_auth e) w\<rparr>"

definition engine_commit :: "engine \<Rightarrow> store_batch \<Rightarrow> engine" where
  "engine_commit e b = foldl store_op_apply e b"

definition read_i64 :: "engine \<Rightarrow> string \<Rightarrow> int option" where
  "read_i64 snap key =
     (case fmlookup (t_meta snap) key of
        Some b \<Rightarrow> if length b = 8 then Some (i64_from_be_bytes b) else None
      | None \<Rightarrow> None)"

definition read_u64 :: "engine \<Rightarrow> string \<Rightarrow> mvcc_error + nat option" where
  "read_u64 snap key =
     (case fmlookup (t_meta snap) key of
        Some b \<Rightarrow>
          if length b = 8 then Inr (Some (of_be_bytes b))
          else Inl (Internal (''meta key '' @ key @ '' is '' @ show_nat (length b) @ '' bytes, expected 8''))
      | None \<Rightarrow> Inr None)"

definition write_i64 :: "store_batch \<Rightarrow> string \<Rightarrow> int \<Rightarrow> store_batch" where
  "write_i64 b key value = b @ [MetaPut key (i64_to_be_bytes value)]"

section \<open>The lease tables as a raft snapshot carries them\<close>

record lease_tables =
  lt_leases :: "(bytes \<times> lease_record) list"
  lt_lease_keys :: "(bytes \<times> unit) list"

definition lease_tables_read :: "engine \<Rightarrow> lease_tables" where
  "lease_tables_read snap =
     \<lparr>lt_leases = sorted_list_of_fmap (t_lease snap),
      lt_lease_keys = sorted_list_of_fmap (t_lease_keys snap)\<rparr>"

definition replace_into :: "lease_tables \<Rightarrow> lease_tables \<Rightarrow> store_batch \<Rightarrow> store_batch" where
  "replace_into self cur b =
     b @ map (\<lambda>(k, _). LeaseDelete k) (lt_leases cur)
       @ map (\<lambda>(k, _). LeaseKeyDelete k) (lt_lease_keys cur)
       @ map (\<lambda>(k, v). LeasePut k v) (lt_leases self)
       @ map (\<lambda>(k, _). LeaseKeyPut k) (lt_lease_keys self)"

section \<open>Facts\<close>

lemma engine_commit_Nil [simp]: "engine_commit e [] = e"
  by (simp add: engine_commit_def)

lemma engine_commit_Cons [simp]: "engine_commit e (op # b) = engine_commit (store_op_apply e op) b"
  by (simp add: engine_commit_def)

lemma engine_commit_append [simp]: "engine_commit e (a @ b) = engine_commit (engine_commit e a) b"
  by (simp add: engine_commit_def)

lemma length_lease_id_key [simp]: "length (lease_id_key lid) = 8"
  by (simp add: lease_id_key_def i64_to_be_bytes_def del: be_bytes.simps)

lemma lease_id_key_inject: "i64_ok a \<Longrightarrow> i64_ok b \<Longrightarrow> lease_id_key a = lease_id_key b \<longleftrightarrow> a = b"
  by (simp add: lease_id_key_def i64_to_be_bytes_inject)

lemma lease_key_index_inject:
  "i64_ok a \<Longrightarrow> i64_ok b \<Longrightarrow> lease_key_index a k = lease_key_index b k' \<longleftrightarrow> a = b \<and> k = k'"
  by (simp add: lease_key_index_def lease_id_key_inject)

lemma parse_lease_key_index: "i64_ok lid \<Longrightarrow> parse_lease_keys_key (lease_key_index lid k) = Inr (lid, k)"
  by (simp add: parse_lease_keys_key_def lease_key_index_def lease_id_key_def i64_roundtrip
      length_lease_id_key [unfolded lease_id_key_def])

lemma list_le_append_same_length:
  fixes a b c :: "'a::linorder list"
  assumes "length a = length b"
  shows "a \<le> b @ c \<longleftrightarrow> a \<le> b" "b @ c < a \<longleftrightarrow> b < a"
proof -
  show "b @ c < a \<longleftrightarrow> b < a" using assms by (induction a b rule: list_induct2) auto
  then show "a \<le> b @ c \<longleftrightarrow> a \<le> b" by (meson not_le)
qed

text \<open>The byte range of a lease: for every lid but \<open>-1\<close> and the largest, exactly its keys.\<close>

lemma mod_negative: "- m \<le> x \<Longrightarrow> x < 0 \<Longrightarrow> x mod m = x + (m::int)"
  using mod_pos_pos_trivial [of "x + m" m] by simp

lemma i64_nat_succ:
  assumes "i64_ok lid" "lid \<noteq> -1"
  shows "nat ((lid + 1) mod 2 ^ 64) = Suc (nat (lid mod 2 ^ 64))"
proof (cases "0 \<le> lid")
  case True
  with assms show ?thesis by (simp add: i64_defs nat_add_distrib)
next
  case False
  then have "lid mod 2 ^ 64 = lid + 2 ^ 64" "(lid + 1) mod 2 ^ 64 = lid + 1 + 2 ^ 64"
    using False assms by (intro mod_negative; simp add: i64_defs)+
  with False assms show ?thesis by (simp add: i64_defs nat_add_distrib nat_diff_distrib)
qed

lemma in_lease_keys_bounds:
  assumes "i64_ok lid" "lid \<noteq> -1" "lid \<noteq> i64_max" "8 \<le> length bs"
  shows "in_bounds bs (fst (lease_keys_bounds lid)) (snd (lease_keys_bounds lid)) \<longleftrightarrow>
    take 8 bs = lease_id_key lid"
proof -
  let ?n = "nat (lid mod 2 ^ 64)" and ?t = "take 8 bs"
  have bs: "bs = ?t @ drop 8 bs" and lt: "length ?t = 8" using assms(4) by simp_all
  have ok1: "i64_ok (lid + 1)" using assms(1,3) by (simp add: i64_defs)
  have b: "lease_keys_bounds lid = (Included (lease_id_key lid), Excluded (lease_id_key (lid + 1)))"
    using ok1 assms(1) by (simp add: lease_keys_bounds_def checked_add_i64_def lease_id_key_def i64_roundtrip)
  have t: "?t = be_bytes 8 (of_be_bytes ?t)" "of_be_bytes ?t < 256 ^ 8"
    using be_bytes_of_be_bytes [of ?t] of_be_bytes_less [of ?t] lt by metis+
  have n: "?n < 256 ^ 8" "Suc ?n < 256 ^ 8"
    using i64_nat_succ [OF assms(1,2)] by (simp_all add: nat_less_iff)
  have e: "lease_id_key lid = be_bytes 8 ?n" "lease_id_key (lid + 1) = be_bytes 8 (Suc ?n)"
    by (simp_all only: lease_id_key_def i64_to_be_bytes_def i64_nat_succ [OF assms(1,2)])
  have "in_bounds bs (fst (lease_keys_bounds lid)) (snd (lease_keys_bounds lid)) \<longleftrightarrow>
      \<not> ?t < lease_id_key lid \<and> ?t < lease_id_key (lid + 1)"
    using list_le_append_same_length(1) [of "lease_id_key lid" ?t "drop 8 bs"]
      list_le_append_same_length(2) [of "lease_id_key (lid + 1)" ?t "drop 8 bs"] lt bs
    by (simp add: b in_bounds_def not_less)
  also have "\<dots> \<longleftrightarrow> of_be_bytes ?t = ?n"
    using t n by (metis be_bytes_less e less_Suc_eq not_less_iff_gr_or_eq)
  also have "\<dots> \<longleftrightarrow> ?t = lease_id_key lid"
    using t n(1) e(1) by (metis be_bytes_inject)
  finally show ?thesis .
qed

end
