(* ===== verification/Mvcc_Apply.thy ===== *)
theory Mvcc_Apply
  imports Mvcc_Lease Mvcc_Cache
begin

text \<open>
  An apply in progress, \<^verbatim>\<open>crates/storage/src/mvcc/store.rs\<close>: the context that collects the batch,
  the changed indexes, the latest records and the events of a request before it commits, and the
  helpers that read and write through it: one mutation, one range, the compares, and the ops of a
  transaction (nested ones included).

  Nothing here changes the store: a function takes the resident index and the engine snapshot,
  and passes on a \<open>work\<close> state (the context, the value cache, whose lookups reorder its entries,
  and the operation counters). Engine I/O errors and undecodable table values do not occur in the
  model; every other error of the code is a value.
\<close>

section \<open>The context\<close>

record apply_context =
  cx_batch :: store_batch
  cx_idx_cache :: "(bytes, key_index) fmap"
  cx_latest :: "(bytes, kv_record) fmap"
  cx_events :: "mvcc_event list"
  cx_marks :: "(int \<times> nat) list"

definition ctx_default :: apply_context where
  "ctx_default = \<lparr>cx_batch = [], cx_idx_cache = fmempty, cx_latest = fmempty, cx_events = [],
     cx_marks = []\<rparr>"

record work =
  w_ctx :: apply_context
  w_values :: value_cache
  w_ops :: op_counts

definition restore_index :: "key_index \<Rightarrow> bool \<Rightarrow> apply_context \<Rightarrow> apply_context" where
  "restore_index idx from_ctx ctx =
     (if from_ctx then ctx\<lparr>cx_idx_cache := fmupd (i_key idx) idx (cx_idx_cache ctx)\<rparr> else ctx)"

definition take_index ::
  "resident_index \<Rightarrow> apply_context \<Rightarrow> bytes \<Rightarrow> (key_index \<times> bool) \<times> apply_context" where
  "take_index ri ctx key =
     (case fmlookup (cx_idx_cache ctx) key of
        Some idx \<Rightarrow> ((idx, True), ctx\<lparr>cx_idx_cache := fmdrop key (cx_idx_cache ctx)\<rparr>)
      | None \<Rightarrow>
          (((case idx_get ri key of Some idx \<Rightarrow> idx | None \<Rightarrow> ki_new key), False), ctx))"

definition live_record :: "kv_record \<Rightarrow> kv_record option" where
  "live_record rec = (if is_tombstone rec then None else Some rec)"

definition latest_record ::
  "engine \<Rightarrow> bytes \<Rightarrow> key_index \<Rightarrow> value_cache \<Rightarrow> kv_record option \<times> value_cache" where
  "latest_record snap key idx vc =
     (case current idx of
        None \<Rightarrow> (None, vc)
      | Some (rv, _) \<Rightarrow>
          (case vc_get key rv vc of
             (Some rec, vc) \<Rightarrow> (Some rec, vc)
           | (None, vc) \<Rightarrow>
               (case fmlookup (t_kv snap) (key, rv) of
                  None \<Rightarrow> (None, vc)
                | Some rec \<Rightarrow> (live_record rec, vc))))"

definition latest_record_in ::
  "engine \<Rightarrow> apply_context \<Rightarrow> bytes \<Rightarrow> key_index \<Rightarrow> value_cache \<Rightarrow> kv_record option \<times> value_cache" where
  "latest_record_in snap ctx key idx vc =
     (case fmlookup (cx_latest ctx) key of
        Some r \<Rightarrow> (live_record r, vc)
      | None \<Rightarrow> latest_record snap key idx vc)"

section \<open>One mutation\<close>

definition lease_switch :: "int \<Rightarrow> int \<Rightarrow> bytes \<Rightarrow> store_batch" where
  "lease_switch old_lease new_lease key =
     (if old_lease \<noteq> new_lease
      then (if old_lease \<noteq> 0 then [LeaseKeyDelete (lease_key_index old_lease key)] else []) @
           (if new_lease \<noteq> 0 then [LeaseKeyPut (lease_key_index new_lease key)] else [])
      else [])"

definition option_list :: "'a option \<Rightarrow> 'a list" where
  "option_list x = (case x of Some y \<Rightarrow> [y] | None \<Rightarrow> [])"

definition apply_put ::
  "resident_index \<Rightarrow> engine \<Rightarrow> revision \<Rightarrow> bytes \<Rightarrow> bytes \<Rightarrow> int \<Rightarrow> bool \<Rightarrow> bool \<Rightarrow> bool \<Rightarrow> work \<Rightarrow>
   (mvcc_error + mutation_result \<times> bool) \<times> work" where
  "apply_put ri snap rv key value lease ignore_value ignore_lease prev_kv w =
     (let ((idx, from_ctx), ctx) = take_index ri (w_ctx w) key;
          (prev, vc) = (if is_live idx then latest_record_in snap ctx key idx (w_values w)
                        else (None, w_values w))
      in if (ignore_value \<or> ignore_lease) \<and> prev = None
         then (Inl (Refused KeyNotFound), w\<lparr>w_ctx := restore_index idx from_ctx ctx, w_values := vc\<rparr>)
         else
           let effective_value = (if ignore_value then r_value (the prev) else value);
               effective_lease = (if ignore_lease then r_lease (the prev) else lease);
               (idx, version, created) = record_put idx rv;
               rec = \<lparr>r_key = key, r_value = effective_value, r_create_revision = rmain created,
                       r_mod_revision = rmain rv, r_version = version, r_lease = effective_lease,
                       r_deleted = False\<rparr>;
               old_lease = (case prev of Some p \<Rightarrow> r_lease p | None \<Rightarrow> 0);
               ctx = ctx\<lparr>cx_batch := cx_batch ctx @ [KvPut key rv rec] @ lease_switch old_lease (r_lease rec) key,
                         cx_idx_cache := fmupd key idx (cx_idx_cache ctx),
                         cx_latest := fmupd key rec (cx_latest ctx),
                         cx_events := cx_events ctx @
                           [\<lparr>ev_kind = EvPut, ev_kv = rec, ev_prev_kv = prev\<rparr>]\<rparr>
           in (Inr (\<lparr>mr_n = 1, mr_prev_kvs = (if prev_kv then option_list prev else [])\<rparr>, True),
               w\<lparr>w_ctx := ctx, w_values := vc\<rparr>))"

definition live_keys_in_range :: "resident_index \<Rightarrow> apply_context \<Rightarrow> bytes \<Rightarrow> bytes \<Rightarrow> bytes list" where
  "live_keys_in_range ri ctx key range_end =
     (let keys = (case index_bounds key range_end of
            Some (lo, hi) \<Rightarrow>
              map fst (filter (\<lambda>(k, gens). case fmlookup (cx_idx_cache ctx) k of
                                  Some c \<Rightarrow> is_live c
                                | None \<Rightarrow> gens_live gens) (idx_range ri lo hi))
          | None \<Rightarrow> []);
          created = map fst (filter (\<lambda>(k, idx). in_range k key range_end \<and> is_live idx \<and> k \<notin> set keys)
                      (sorted_list_of_fmap (cx_idx_cache ctx)))
      in if created \<noteq> [] then sort (keys @ created) else keys)"

definition tombstone_record :: "bytes \<Rightarrow> revision \<Rightarrow> kv_record" where
  "tombstone_record key rv =
     \<lparr>r_key = key, r_value = [], r_create_revision = 0, r_mod_revision = rmain rv, r_version = 0,
      r_lease = 0, r_deleted = True\<rparr>"

definition delete_key ::
  "resident_index \<Rightarrow> engine \<Rightarrow> revision \<Rightarrow> bool \<Rightarrow> bytes \<Rightarrow> mutation_result \<times> work \<Rightarrow> mutation_result \<times> work" where
  "delete_key ri snap rv prev_kv key rw =
     (let (result, w) = rw;
          ((idx, from_ctx), ctx) = take_index ri (w_ctx w) key;
          (prev, vc) = (if is_live idx then latest_record_in snap ctx key idx (w_values w)
                        else (None, w_values w));
          (idx', closed) = record_delete idx rv
      in if \<not> closed
         then (result, w\<lparr>w_ctx := restore_index idx' from_ctx ctx, w_values := vc\<rparr>)
         else
           let tomb = tombstone_record key rv;
               drop_lease = (case prev of
                   Some p \<Rightarrow> if r_lease p \<noteq> 0 then [LeaseKeyDelete (lease_key_index (r_lease p) key)] else []
                 | None \<Rightarrow> []);
               ctx = ctx\<lparr>cx_batch := cx_batch ctx @ [KvPut key rv tomb] @ drop_lease,
                         cx_idx_cache := fmupd key idx' (cx_idx_cache ctx),
                         cx_latest := fmupd key tomb (cx_latest ctx),
                         cx_events := cx_events ctx @
                           [\<lparr>ev_kind = EvDelete, ev_kv = tomb, ev_prev_kv = prev\<rparr>]\<rparr>
           in (result\<lparr>mr_n := mr_n result + 1,
                      mr_prev_kvs := mr_prev_kvs result @ (if prev_kv then option_list prev else [])\<rparr>,
               w\<lparr>w_ctx := ctx, w_values := vc\<rparr>))"

fun apply_one_uncounted ::
  "resident_index \<Rightarrow> engine \<Rightarrow> revision \<Rightarrow> mutation \<Rightarrow> work \<Rightarrow> (mvcc_error + mutation_result \<times> bool) \<times> work" where
  "apply_one_uncounted ri snap rv (MutPut k v l iv il p) w = apply_put ri snap rv k v l iv il p w"
| "apply_one_uncounted ri snap rv (MutDeleteRange key range_end prev_kv) w =
     (let live_keys = live_keys_in_range ri (w_ctx w) key range_end;
          (result, w) = fold (delete_key ri snap rv prev_kv) live_keys (mutation_result_default, w)
      in (Inr (result, mr_n result > 0), w))"

fun count_mutation :: "mutation \<Rightarrow> op_counts \<Rightarrow> op_counts" where
  "count_mutation (MutPut _ _ _ _ _ _) ops = ops\<lparr>oc_put := oc_put ops + 1\<rparr>"
| "count_mutation (MutDeleteRange _ _ _) ops = ops\<lparr>oc_delete := oc_delete ops + 1\<rparr>"

definition apply_one ::
  "resident_index \<Rightarrow> engine \<Rightarrow> revision \<Rightarrow> mutation \<Rightarrow> work \<Rightarrow> (mvcc_error + mutation_result \<times> bool) \<times> work" where
  "apply_one ri snap rv m w =
     (case apply_one_uncounted ri snap rv m w of
        (Inl e, w) \<Rightarrow> (Inl e, w)
      | (Inr out, w) \<Rightarrow> (Inr out, w\<lparr>w_ops := count_mutation m (w_ops w)\<rparr>))"

text \<open>The mutations of one request, at sub-revisions \<open>sub, sub + 1, \<dots>\<close> of one revision.\<close>

fun apply_loop ::
  "resident_index \<Rightarrow> engine \<Rightarrow> int \<Rightarrow> nat \<Rightarrow> mutation list \<Rightarrow> work \<Rightarrow>
   (mvcc_error + mutation_result list \<times> bool) \<times> work" where
  "apply_loop ri snap main sub [] w = (Inr ([], False), w)"
| "apply_loop ri snap main sub (m # ms) w =
     (case apply_one ri snap (Revision main (int sub)) m w of
        (Inl e, w) \<Rightarrow> (Inl e, w)
      | (Inr (result, produced), w) \<Rightarrow>
          (case apply_loop ri snap main (sub + 1) ms w of
             (Inl e, w) \<Rightarrow> (Inl e, w)
           | (Inr (results, rest), w) \<Rightarrow> (Inr (result # results, produced \<or> rest), w)))"

definition apply_inner ::
  "resident_index \<Rightarrow> engine \<Rightarrow> int \<Rightarrow> mutation list \<Rightarrow> work \<Rightarrow>
   (mvcc_error + int \<times> mutation_result list \<times> bool) \<times> work" where
  "apply_inner ri snap current_rev mutations w =
     (let main = current_rev + 1 in
      case apply_loop ri snap main 0 mutations w of
        (Inl e, w) \<Rightarrow> (Inl e, w)
      | (Inr (results, produced), w) \<Rightarrow> (Inr (main, results, produced), w))"

section \<open>Ranges\<close>

record range_plan =
  rp_hits :: "(bytes \<times> revision) list"
  rp_total :: int
  rp_more :: bool

definition into_result :: "range_plan \<Rightarrow> kv_record list \<Rightarrow> bool \<Rightarrow> range_result" where
  "into_result rplan kvs count_only =
     \<lparr>rr_kvs = (if count_only then [] else kvs), rr_more = rp_more rplan, rr_count = rp_total rplan\<rparr>"

text \<open>The walk over the index; \<open>None\<close> is no cap on the hits kept.\<close>

definition plan_step ::
  "nat option \<Rightarrow> apply_context \<Rightarrow> revision \<Rightarrow> (bytes \<times> revision) list \<times> int \<Rightarrow> bytes \<times> generation list \<Rightarrow>
   (bytes \<times> revision) list \<times> int" where
  "plan_step cap ctx read_rev acc kg =
     (let (hits, total) = acc; (k, gens) = kg;
          gens = (case fmlookup (cx_idx_cache ctx) k of Some c \<Rightarrow> i_generations c | None \<Rightarrow> gens)
      in case revision_at gens read_rev of
           None \<Rightarrow> (hits, total)
         | Some rv \<Rightarrow>
             (if (case cap of None \<Rightarrow> True | Some n \<Rightarrow> length hits < n) then hits @ [(k, rv)] else hits,
              total + 1))"

definition overlay_step ::
  "resident_index \<Rightarrow> bytes \<Rightarrow> bytes \<Rightarrow> revision \<Rightarrow> bool \<Rightarrow> (bytes \<times> revision) list \<times> int \<times> bool \<Rightarrow>
   bytes \<times> key_index \<Rightarrow> (bytes \<times> revision) list \<times> int \<times> bool" where
  "overlay_step ri key range_end read_rev count_only acc ki =
     (let (hits, total, added) = acc; (k, idx) = ki in
      if \<not> in_range k key range_end \<or> idx_contains ri k then acc
      else case revision_at (i_generations idx) read_rev of
             None \<Rightarrow> acc
           | Some rv \<Rightarrow>
               if \<not> count_only then (hits @ [(k, rv)], total + 1, True) else (hits, total + 1, added))"

definition plan_range ::
  "resident_index \<Rightarrow> apply_context \<Rightarrow> bytes \<Rightarrow> bytes \<Rightarrow> revision \<Rightarrow> nat \<Rightarrow> bool \<Rightarrow> range_plan" where
  "plan_range ri ctx key range_end read_rev limit count_only =
     (let overlay = (cx_idx_cache ctx \<noteq> fmempty);
          cap = (if count_only then Some 0 else if limit > 0 \<and> \<not> overlay then Some limit else None);
          (hits, total) = (case index_bounds key range_end of
              Some (lo, hi) \<Rightarrow> foldl (plan_step cap ctx read_rev) ([], 0) (idx_range ri lo hi)
            | None \<Rightarrow> ([], 0));
          (hits, total) =
            (if overlay
             then (let (hits, total, added) = foldl (overlay_step ri key range_end read_rev count_only)
                         (hits, total, False) (sorted_list_of_fmap (cx_idx_cache ctx))
                   in (if added then sort_key fst hits else hits, total))
             else (hits, total));
          more = (\<not> count_only \<and> limit > 0 \<and> total > int limit);
          hits = (if limit > 0 then take limit hits else hits)
      in \<lparr>rp_hits = hits, rp_total = total, rp_more = more\<rparr>)"

definition read_record :: "engine \<Rightarrow> bytes \<Rightarrow> revision \<Rightarrow> mvcc_error + kv_record" where
  "read_record snap key rv =
     (case fmlookup (t_kv snap) (key, rv) of
        Some rec \<Rightarrow> Inr rec
      | None \<Rightarrow> Inl (Internal ''missing KvRecord''))"

definition ctx_record_at :: "apply_context \<Rightarrow> bytes \<Rightarrow> revision \<Rightarrow> kv_record option" where
  "ctx_record_at ctx key rv =
     (case fmlookup (cx_latest ctx) key of
        Some rec \<Rightarrow> if \<not> is_tombstone rec \<and> r_mod_revision rec = rmain rv then Some rec else None
      | None \<Rightarrow> None)"

fun fetch_records ::
  "engine \<Rightarrow> apply_context \<Rightarrow> bool \<Rightarrow> bool \<Rightarrow> (bytes \<times> revision) list \<Rightarrow> value_cache \<Rightarrow>
   (mvcc_error + kv_record list \<times> nat) \<times> value_cache" where
  "fetch_records snap ctx keys_only fill [] vc = (Inr ([], 0), vc)"
| "fetch_records snap ctx keys_only fill ((key, rv) # hits) vc =
     (let (got, disk, vc) =
        (case ctx_record_at ctx key rv of
           Some rec \<Rightarrow> (Inr rec, 0, vc)
         | None \<Rightarrow>
             (case vc_get key rv vc of
                (Some rec, vc) \<Rightarrow> (Inr rec, 0, vc)
              | (None, vc) \<Rightarrow>
                  (case read_record snap key rv of
                     Inl e \<Rightarrow> (Inl e, 1, vc)
                   | Inr rec \<Rightarrow> (Inr rec, 1, if fill then vc_insert key rv rec True vc else vc))))
      in case got of
           Inl e \<Rightarrow> (Inl e, vc)
         | Inr rec \<Rightarrow>
             (case fetch_records snap ctx keys_only fill hits vc of
                (Inl e, vc) \<Rightarrow> (Inl e, vc)
              | (Inr (recs, n), vc) \<Rightarrow> (Inr (trim rec keys_only # recs, disk + n), vc)))"

text \<open>A range inside a transaction: it reads the pending writes too.\<close>

definition range_inner ::
  "resident_index \<Rightarrow> engine \<Rightarrow> revs \<Rightarrow> range_op \<Rightarrow> work \<Rightarrow> (mvcc_error + range_result) \<times> work" where
  "range_inner ri snap st r w =
     (let w = w\<lparr>w_ops := (w_ops w)\<lparr>oc_range := oc_range (w_ops w) + 1\<rparr>\<rparr> in
      case check_read_rev st (ro_revision r) of
        Inl e \<Rightarrow> (Inl e, w)
      | Inr read_rev \<Rightarrow>
          let rplan = plan_range ri (w_ctx w) (ro_key r) (ro_range_end r) read_rev (ro_limit r) (ro_count_only r)
          in (case fetch_records snap (w_ctx w) (ro_keys_only r) False (rp_hits rplan) (w_values w) of
                (Inl e, vc) \<Rightarrow> (Inl e, w\<lparr>w_values := vc\<rparr>)
              | (Inr (kvs, _), vc) \<Rightarrow>
                  (Inr (into_result rplan kvs (ro_count_only r)), w\<lparr>w_values := vc\<rparr>)))"

section \<open>Compares\<close>

type_synonym compare_targets = "(bytes \<times> revision option) list"

definition target_rev ::
  "apply_context \<Rightarrow> bytes \<Rightarrow> generation list option \<Rightarrow> revision option" where
  "target_rev ctx k resident =
     (case fmlookup (cx_idx_cache ctx) k of
        Some idx \<Rightarrow> map_option fst (current idx)
      | None \<Rightarrow> Option.bind resident current_of)"

definition compare_target_keys :: "resident_index \<Rightarrow> apply_context \<Rightarrow> compare \<Rightarrow> compare_targets" where
  "compare_target_keys ri ctx cmp =
     (if cmp_range_end cmp = []
      then (let resident = idx_get_generations ri (cmp_key cmp) in
            if resident = None \<and> fmlookup (cx_idx_cache ctx) (cmp_key cmp) = None then []
            else [(cmp_key cmp, target_rev ctx (cmp_key cmp) resident)])
      else
        (case index_bounds (cmp_key cmp) (cmp_range_end cmp) of
           Some (lo, hi) \<Rightarrow> map (\<lambda>(k, g). (k, target_rev ctx k (Some g))) (idx_range ri lo hi)
         | None \<Rightarrow> []) @
        map (\<lambda>(k, idx). (k, map_option fst (current idx)))
          (filter (\<lambda>(k, idx). in_range k (cmp_key cmp) (cmp_range_end cmp) \<and> \<not> idx_contains ri k)
            (sorted_list_of_fmap (cx_idx_cache ctx))))"

definition compare_targets_in ::
  "resident_index \<Rightarrow> apply_context \<Rightarrow> compare list \<Rightarrow> compare_targets list" where
  "compare_targets_in ri ctx compares = map (compare_target_keys ri ctx) compares"

definition record_at ::
  "engine \<Rightarrow> apply_context \<Rightarrow> bytes \<Rightarrow> revision \<Rightarrow> value_cache \<Rightarrow> (mvcc_error + kv_record) \<times> value_cache" where
  "record_at snap ctx key rv vc =
     (case ctx_record_at ctx key rv of
        Some rec \<Rightarrow> (Inr rec, vc)
      | None \<Rightarrow>
          (case vc_get key rv vc of
             (Some rec, vc) \<Rightarrow> (Inr rec, vc)
           | (None, vc) \<Rightarrow> (read_record snap key rv, vc)))"

fun eval_keys ::
  "engine \<Rightarrow> apply_context \<Rightarrow> compare \<Rightarrow> compare_targets \<Rightarrow> value_cache \<Rightarrow> (mvcc_error + bool) \<times> value_cache" where
  "eval_keys snap ctx cmp [] vc = (Inr True, vc)"
| "eval_keys snap ctx cmp ((key, rv) # keys) vc =
     (case (case rv of None \<Rightarrow> (Inr (implicit_zero_record key), vc) | Some r \<Rightarrow> record_at snap ctx key r vc) of
        (Inl e, vc) \<Rightarrow> (Inl e, vc)
      | (Inr rec, vc) \<Rightarrow>
          if \<not> eval_compare rec (cmp_op cmp) (cmp_target cmp) then (Inr False, vc)
          else eval_keys snap ctx cmp keys vc)"

fun evaluate_compares_with ::
  "engine \<Rightarrow> apply_context \<Rightarrow> compare list \<Rightarrow> compare_targets list \<Rightarrow> value_cache \<Rightarrow>
   (mvcc_error + bool) \<times> value_cache" where
  "evaluate_compares_with snap ctx (cmp # cs) (keys # ts) vc =
     (if cmp_range_end cmp = [] \<and> keys = []
      then (if \<not> eval_compare (implicit_zero_record (cmp_key cmp)) (cmp_op cmp) (cmp_target cmp)
            then (Inr False, vc)
            else evaluate_compares_with snap ctx cs ts vc)
      else (case eval_keys snap ctx cmp keys vc of
              (Inl e, vc) \<Rightarrow> (Inl e, vc)
            | (Inr ok, vc) \<Rightarrow> if \<not> ok then (Inr False, vc) else evaluate_compares_with snap ctx cs ts vc))"
| "evaluate_compares_with snap ctx _ _ vc = (Inr True, vc)"

definition evaluate_compares ::
  "resident_index \<Rightarrow> engine \<Rightarrow> apply_context \<Rightarrow> compare list \<Rightarrow> value_cache \<Rightarrow>
   (mvcc_error + bool) \<times> value_cache" where
  "evaluate_compares ri snap ctx compares vc =
     evaluate_compares_with snap ctx compares (compare_targets_in ri ctx compares) vc"

section \<open>Transactions\<close>

record txn_exec =
  tx_main :: int
  tx_sub :: int
  tx_produced_any :: bool

fun txn_ops ::
  "resident_index \<Rightarrow> engine \<Rightarrow> revs \<Rightarrow> txn_op list \<Rightarrow> txn_exec \<Rightarrow> work \<Rightarrow>
   (mvcc_error + txn_op_result list) \<times> txn_exec \<times> work" where
  "txn_ops ri snap st [] ex w = (Inr [], ex, w)"
| "txn_ops ri snap st (OpRange r # ops) ex w =
     (let read_state = (if tx_produced_any ex then st\<lparr>rv_current := tx_main ex\<rparr> else st) in
      case range_inner ri snap read_state r w of
        (Inl e, w) \<Rightarrow> (Inl e, ex, w)
      | (Inr res, w) \<Rightarrow>
          (case txn_ops ri snap st ops ex w of
             (Inl e, ex, w) \<Rightarrow> (Inl e, ex, w)
           | (Inr rs, ex, w) \<Rightarrow> (Inr (ResRange res # rs), ex, w)))"
| "txn_ops ri snap st (OpMutation m # ops) ex w =
     (case apply_one ri snap (Revision (tx_main ex) (tx_sub ex)) m w of
        (Inl e, w) \<Rightarrow> (Inl e, ex, w)
      | (Inr (res, produced), w) \<Rightarrow>
          let ex = ex\<lparr>tx_sub := tx_sub ex + 1, tx_produced_any := tx_produced_any ex \<or> produced\<rparr> in
          (case txn_ops ri snap st ops ex w of
             (Inl e, ex, w) \<Rightarrow> (Inl e, ex, w)
           | (Inr rs, ex, w) \<Rightarrow> (Inr (ResMutation res # rs), ex, w)))"
| "txn_ops ri snap st (OpTxn compares success failure # ops) ex w =
     (case evaluate_compares ri snap ctx_default compares (w_values w) of
        (Inl e, vc) \<Rightarrow> (Inl e, ex, w\<lparr>w_values := vc\<rparr>)
      | (Inr succeeded, vc) \<Rightarrow>
          (case txn_ops ri snap st (if succeeded then success else failure) ex (w\<lparr>w_values := vc\<rparr>) of
             (Inl e, ex, w) \<Rightarrow> (Inl e, ex, w)
           | (Inr results, ex, w) \<Rightarrow>
               (case txn_ops ri snap st ops ex w of
                  (Inl e, ex, w) \<Rightarrow> (Inl e, ex, w)
                | (Inr rs, ex, w) \<Rightarrow> (Inr (ResTxn succeeded results # rs), ex, w))))"

end
