(* ===== verification/Mvcc_Store.thy ===== *)
theory Mvcc_Store
  imports Mvcc_Apply
begin

text \<open>
  The MVCC store, \<^verbatim>\<open>crates/storage/src/mvcc/store.rs\<close>: its state and every operation of it that
  changes state (opening, applies, transactions, leases, compaction, bulk load, auth, the staged
  raft metadata, installing tables), and its reads.

  An operation is a function from the store to its result and the store after it; the write-state
  lock makes the writing ones run one after the other. Reads run between writes,
  as one step. The clock is an argument. Engine commits do not fail here.
\<close>

section \<open>State\<close>

record write_state =
  current_rev :: int
  compact_rev :: int
  next_lease_id :: int

definition ws_revs :: "write_state \<Rightarrow> revs" where
  "ws_revs s = \<lparr>rv_current = current_rev s, rv_compact = compact_rev s\<rparr>"

record read_view =
  v_revs :: revs
  v_engine_commits :: nat
  v_published :: nat

definition view_store :: "revs \<Rightarrow> read_view \<Rightarrow> read_view" where
  "view_store rs v = v\<lparr>v_revs := rs\<rparr>"

definition view_publish :: "revs \<Rightarrow> read_view \<Rightarrow> read_view" where
  "view_publish rs v = (view_store rs v)\<lparr>v_published := v_published v + 1\<rparr>"

record mvcc_store =
  s_engine :: engine
  s_ws :: write_state
  s_view :: read_view
  s_events :: "event_batch list"
  s_pending :: "(string \<times> bytes) list"
  s_batched :: bool
  s_cluster_id :: nat
  s_auth :: auth_memory
  s_lease_applied :: "(int, nat) fmap"
  s_ops :: op_counts
  s_index :: resident_index
  s_values :: value_cache

definition META_KEY_CURRENT_REV :: string where "META_KEY_CURRENT_REV = ''current_rev''"
definition META_KEY_COMPACT_REV :: string where "META_KEY_COMPACT_REV = ''compact_rev''"
definition META_KEY_NEXT_LEASE_ID :: string where "META_KEY_NEXT_LEASE_ID = ''next_lease_id''"
definition META_KEY_RAFT_APPLIED :: string where "META_KEY_RAFT_APPLIED = ''raft_applied''"
definition META_KEY_RAFT_MEMBERSHIP :: string where "META_KEY_RAFT_MEMBERSHIP = ''raft_membership''"
definition META_KEY_RAFT_BATCH :: string where "META_KEY_RAFT_BATCH = ''raft_batch_progress''"
definition META_KEY_BATCHED :: string where "META_KEY_BATCHED = ''batched''"
definition META_KEY_CLUSTER_ID :: string where "META_KEY_CLUSTER_ID = ''cluster_id''"

lemmas meta_keys = META_KEY_CURRENT_REV_def META_KEY_COMPACT_REV_def META_KEY_NEXT_LEASE_ID_def
  META_KEY_RAFT_APPLIED_def META_KEY_RAFT_MEMBERSHIP_def META_KEY_RAFT_BATCH_def META_KEY_BATCHED_def
  META_KEY_CLUSTER_ID_def

definition op_counts_default :: op_counts where
  "op_counts_default = \<lparr>oc_put = 0, oc_delete = 0, oc_range = 0, oc_txn = 0\<rparr>"

section \<open>Raft metadata staged for the next commit\<close>

definition stage_raft_meta :: "bytes \<Rightarrow> bytes option \<Rightarrow> mvcc_store \<Rightarrow> mvcc_store" where
  "stage_raft_meta applied membership st =
     (let pending = filter (\<lambda>(k, _). k \<noteq> META_KEY_RAFT_APPLIED \<and>
              (membership = None \<or> k \<noteq> META_KEY_RAFT_MEMBERSHIP)) (s_pending st);
          pending = pending @ [(META_KEY_RAFT_APPLIED, applied)]
      in st\<lparr>s_pending := (case membership of
             Some m \<Rightarrow> pending @ [(META_KEY_RAFT_MEMBERSHIP, m)] | None \<Rightarrow> pending)\<rparr>)"

definition stage_batch_progress :: "bytes \<Rightarrow> mvcc_store \<Rightarrow> mvcc_store" where
  "stage_batch_progress progress st =
     st\<lparr>s_pending := filter (\<lambda>(k, _). k \<noteq> META_KEY_RAFT_BATCH) (s_pending st) @
        [(META_KEY_RAFT_BATCH, progress)]\<rparr>"

definition stage_batched_marker :: "mvcc_store \<Rightarrow> mvcc_store" where
  "stage_batched_marker st =
     (if s_batched st then st
      else st\<lparr>s_batched := True, s_pending := s_pending st @ [(META_KEY_BATCHED, [1])]\<rparr>)"

definition fold_raft_meta :: "store_batch \<Rightarrow> mvcc_store \<Rightarrow> bool \<times> store_batch \<times> mvcc_store" where
  "fold_raft_meta b st =
     (if s_pending st = [] then (False, b, st)
      else (True, b @ map (\<lambda>(k, v). MetaPut k v) (s_pending st), st\<lparr>s_pending := []\<rparr>))"

definition commit_folded :: "store_batch \<Rightarrow> mvcc_store \<Rightarrow> mvcc_store" where
  "commit_folded b st =
     (let (_, b, st) = fold_raft_meta b st in st\<lparr>s_engine := engine_commit (s_engine st) b\<rparr>)"

definition flush_raft_meta :: "mvcc_store \<Rightarrow> mvcc_store" where
  "flush_raft_meta st =
     (let (staged, b, st) = fold_raft_meta [] st in
      if \<not> staged then st else st\<lparr>s_engine := engine_commit (s_engine st) b\<rparr>)"

definition read_raft_meta :: "mvcc_store \<Rightarrow> bytes option \<times> bytes option" where
  "read_raft_meta st =
     (fmlookup (t_meta (s_engine st)) META_KEY_RAFT_APPLIED,
      fmlookup (t_meta (s_engine st)) META_KEY_RAFT_MEMBERSHIP)"

definition read_batch_progress :: "mvcc_store \<Rightarrow> bytes option" where
  "read_batch_progress st = fmlookup (t_meta (s_engine st)) META_KEY_RAFT_BATCH"

definition persist_membership :: "bytes \<Rightarrow> mvcc_store \<Rightarrow> mvcc_store" where
  "persist_membership m st =
     st\<lparr>s_engine := engine_commit (s_engine st) [MetaPut META_KEY_RAFT_MEMBERSHIP m]\<rparr>"

definition cluster_id :: "mvcc_store \<Rightarrow> nat option" where
  "cluster_id st = (if s_cluster_id st \<noteq> 0 then Some (s_cluster_id st) else None)"

definition apply_cluster_id :: "nat \<Rightarrow> mvcc_store \<Rightarrow> nat \<times> mvcc_store" where
  "apply_cluster_id cid st =
     (let cur = cluster_id st;
          b = (if cur = None then [MetaPut META_KEY_CLUSTER_ID (be_bytes 8 cid)] else []);
          (_, b, st) = fold_raft_meta b st;
          st = (if b \<noteq> [] then st\<lparr>s_engine := engine_commit (s_engine st) b\<rparr> else st)
      in case cur of
           Some c \<Rightarrow> (c, st)
         | None \<Rightarrow> (cid, st\<lparr>s_cluster_id := cid\<rparr>))"

section \<open>Loading\<close>

definition INDEX_LOAD_CHUNK :: nat where
  "INDEX_LOAD_CHUNK = 10000"

function load_rows :: "(bytes, key_index) fmap \<Rightarrow> bytes bound \<Rightarrow> (bytes \<times> generation list) list" where
  "load_rows table start =
     (let chunk = limited INDEX_LOAD_CHUNK (rows_in table start Unbounded);
          loaded = map (\<lambda>(k, idx). (k, i_generations idx)) chunk
      in if length chunk \<noteq> INDEX_LOAD_CHUNK then loaded
         else loaded @ load_rows table (Excluded (fst (last chunk))))"
  by pat_completeness auto
termination
proof (relation "measure (\<lambda>(m, start). length (rows_in m start Unbounded))")
  fix m :: "(bytes, key_index) fmap" and start :: "bytes bound" and chunk loaded
  assume chunk: "chunk = limited INDEX_LOAD_CHUNK (rows_in m start Unbounded)"
    and "\<not> length chunk \<noteq> INDEX_LOAD_CHUNK"
  then have "rows_in m start Unbounded = chunk @ rows_in m (Excluded (fst (last chunk))) Unbounded" "chunk \<noteq> []"
    using next_page [OF chunk] by (simp_all add: INDEX_LOAD_CHUNK_def)
  then have "length (rows_in m (Excluded (fst (last chunk))) Unbounded) < length (rows_in m start Unbounded)"
    by simp
  then show "((m, Excluded (fst (last chunk))), m, start) \<in> measure (\<lambda>(m, start). length (rows_in m start Unbounded))"
    by simp
qed simp

declare load_rows.simps [simp del]

definition load_index :: "mvcc_store \<Rightarrow> mvcc_store" where
  "load_index st =
     st\<lparr>s_index := fold (\<lambda>(k, gens). idx_set k gens) (load_rows (t_idx (s_engine st)) Unbounded)
          (idx_clear (s_index st)),
        s_values := vc_clear (s_values st)\<rparr>"

definition reload_auth :: "mvcc_store \<Rightarrow> mvcc_store" where
  "reload_auth st = st\<lparr>s_auth := (s_auth st)\<lparr>am_enabled := db_enabled (t_auth (s_engine st))\<rparr>\<rparr>"

definition or_zero :: "int option \<Rightarrow> int" where
  "or_zero x = (case x of Some n \<Rightarrow> n | None \<Rightarrow> 0)"

definition open_with :: "(bytes \<Rightarrow> nat) \<Rightarrow> nat \<Rightarrow> engine \<Rightarrow> cache_config \<Rightarrow> mvcc_error + mvcc_store" where
  "open_with hash now eng cfg =
     (let cur = or_zero (read_i64 eng META_KEY_CURRENT_REV);
          compacted = or_zero (read_i64 eng META_KEY_COMPACT_REV);
          next_lease = or_zero (read_i64 eng META_KEY_NEXT_LEASE_ID);
          batched = (fmlookup (t_meta eng) META_KEY_BATCHED \<noteq> None)
      in bind_res (read_u64 eng META_KEY_CLUSTER_ID) (\<lambda>cid.
         let eng = (if cur = 0 \<and> compacted = 0 \<and> next_lease = 0
                    then engine_commit eng (write_i64 (write_i64 (write_i64 []
                           META_KEY_CURRENT_REV 0) META_KEY_COMPACT_REV 0) META_KEY_NEXT_LEASE_ID 0)
                    else eng);
             st = \<lparr>s_engine = eng,
                   s_ws = \<lparr>current_rev = cur, compact_rev = compacted, next_lease_id = next_lease\<rparr>,
                   s_view = \<lparr>v_revs = \<lparr>rv_current = cur, rv_compact = compacted\<rparr>, v_engine_commits = 0, v_published = 0\<rparr>,
                   s_events = [], s_pending = [], s_batched = batched,
                   s_cluster_id = (case cid of Some c \<Rightarrow> c | None \<Rightarrow> 0),
                   s_auth = auth_memory_default now, s_lease_applied = fmempty, s_ops = op_counts_default,
                   s_index = ri_default, s_values = vc_new hash cfg\<rparr>
         in Inr (load_index (reload_auth st))))"

definition reload_locked :: "mvcc_store \<Rightarrow> (mvcc_error + unit) \<times> mvcc_store" where
  "reload_locked st =
     (let eng = s_engine st;
          cur = or_zero (read_i64 eng META_KEY_CURRENT_REV);
          compacted = or_zero (read_i64 eng META_KEY_COMPACT_REV);
          next_lease = or_zero (read_i64 eng META_KEY_NEXT_LEASE_ID);
          batched = (fmlookup (t_meta eng) META_KEY_BATCHED \<noteq> None)
      in case read_u64 eng META_KEY_CLUSTER_ID of
           Inl e \<Rightarrow> (Inl e, st)
         | Inr cid \<Rightarrow>
             let cid = (case cid of Some c \<Rightarrow> c | None \<Rightarrow> 0);
                 st = st\<lparr>s_batched := s_batched st \<or> batched,
                         s_cluster_id := (if cid \<noteq> 0 then cid else s_cluster_id st)\<rparr>;
                 st = load_index st
             in (Inr (), st\<lparr>s_ws := \<lparr>current_rev = cur, compact_rev = compacted, next_lease_id = next_lease\<rparr>,
                            s_view := view_store \<lparr>rv_current = cur, rv_compact = compacted\<rparr> (s_view st)\<rparr>))"

definition install_tables :: "store_batch \<Rightarrow> mvcc_store \<Rightarrow> (mvcc_error + unit) \<times> mvcc_store" where
  "install_tables b st = reload_locked (st\<lparr>s_engine := engine_commit (s_engine st) b\<rparr>)"

definition bulk_index :: "bulk_key \<Rightarrow> key_index" where
  "bulk_index bk =
     (let revs = map (\<lambda>rec. Revision (r_mod_revision rec) 0) (bk_puts bk) in
      case bk_tombstone bk of
        Some tomb \<Rightarrow>
          let rv = Revision (r_mod_revision tomb) 0 in
          \<lparr>i_key = bk_key bk, i_generations = [\<lparr>g_created = (if revs = [] then rv else hd revs),
              g_revs = revs, g_tombstone = Some rv\<rparr>]\<rparr>
      | None \<Rightarrow>
          \<lparr>i_key = bk_key bk, i_generations =
             (if revs \<noteq> [] then [\<lparr>g_created = hd revs, g_revs = revs, g_tombstone = None\<rparr>] else [])\<rparr>)"

definition bulk_batch :: "bulk_key \<Rightarrow> store_batch" where
  "bulk_batch bk =
     (if bk_puts bk = [] \<and> bk_tombstone bk = None then []
      else map (\<lambda>rec. KvPut (bk_key bk) (Revision (r_mod_revision rec) 0) rec) (bk_puts bk) @
        (if bk_tombstone bk = None \<and> bk_puts bk \<noteq> [] \<and> r_lease (last (bk_puts bk)) \<noteq> 0
         then [LeaseKeyPut (lease_key_index (r_lease (last (bk_puts bk))) (bk_key bk))] else []) @
        (case bk_tombstone bk of
           Some tomb \<Rightarrow> [KvPut (bk_key bk) (Revision (r_mod_revision tomb) 0) tomb] | None \<Rightarrow> []) @
        [IdxPut (bk_key bk) (bulk_index bk)])"

definition bulk_load_records :: "bulk_key list \<Rightarrow> int \<Rightarrow> mvcc_store \<Rightarrow> (mvcc_error + unit) \<times> mvcc_store" where
  "bulk_load_records per_key next_rev st =
     (if current_rev (s_ws st) \<noteq> 0
      then (Inl (Internal (''bulk_load_records requires an empty store (current_rev = '' @
                  show_int (current_rev (s_ws st)) @ '')'')), st)
      else
        let b = write_i64 (concat (map bulk_batch per_key)) META_KEY_CURRENT_REV next_rev;
            st = load_index (st\<lparr>s_engine := engine_commit (s_engine st) b\<rparr>)
        in (Inr (), st\<lparr>s_ws := (s_ws st)\<lparr>current_rev := next_rev\<rparr>,
                       s_view := view_store \<lparr>rv_current = next_rev, rv_compact = compact_rev (s_ws st)\<rparr> (s_view st)\<rparr>))"

section \<open>Committing an apply\<close>

definition cache_record :: "apply_context \<Rightarrow> bytes \<times> kv_record \<Rightarrow> value_cache \<Rightarrow> value_cache" where
  "cache_record ctx kr vc =
     (let (key, rec) = kr in
      case Option.bind (fmlookup (cx_idx_cache ctx) key) current of
        Some (rv, _) \<Rightarrow> if \<not> is_tombstone rec then vc_insert key rv rec False vc else vc_remove key vc
      | None \<Rightarrow> vc_remove key vc)"

text \<open>One event batch per revision mark, without the empty ones.\<close>

fun marked_batches :: "nat \<Rightarrow> (int \<times> nat) list \<Rightarrow> mvcc_event list \<Rightarrow> event_batch list" where
  "marked_batches start [] events = []"
| "marked_batches start ((revision, stop) # marks) events =
     (let batch = take (stop - start) events; rest = marked_batches stop marks (drop (stop - start) events)
      in if batch \<noteq> [] then \<lparr>eb_revision = revision, eb_events = batch\<rparr> # rest else rest)"

definition event_batches :: "int \<Rightarrow> apply_context \<Rightarrow> event_batch list" where
  "event_batches new_rev ctx =
     (if cx_marks ctx = []
      then (if cx_events ctx \<noteq> [] then [\<lparr>eb_revision = new_rev, eb_events = cx_events ctx\<rparr>] else [])
      else marked_batches 0 (cx_marks ctx) (cx_events ctx))"

definition commit_batch :: "int \<Rightarrow> apply_context \<Rightarrow> store_batch" where
  "commit_batch new_rev ctx =
     write_i64 (cx_batch ctx @ map (\<lambda>(k, idx). IdxPut k idx) (sorted_list_of_fmap (cx_idx_cache ctx)))
       META_KEY_CURRENT_REV new_rev"

definition commit_ctx :: "int \<Rightarrow> apply_context \<Rightarrow> mvcc_store \<Rightarrow> mvcc_store" where
  "commit_ctx new_rev ctx st =
     (let st = commit_folded (commit_batch new_rev ctx) st;
          view = (s_view st)\<lparr>v_engine_commits := v_engine_commits (s_view st) + 1\<rparr>
      in st\<lparr>s_values := fold (cache_record ctx) (sorted_list_of_fmap (cx_latest ctx)) (s_values st),
            s_index := fold (\<lambda>(k, idx). idx_set k (i_generations idx)) (sorted_list_of_fmap (cx_idx_cache ctx))
              (s_index st),
            s_view := view_publish \<lparr>rv_current = new_rev, rv_compact = compact_rev (s_ws st)\<rparr> view,
            s_ws := (s_ws st)\<lparr>current_rev := new_rev\<rparr>,
            s_events := s_events st @ event_batches new_rev ctx\<rparr>)"

definition start_work :: "mvcc_store \<Rightarrow> work" where
  "start_work st = \<lparr>w_ctx = ctx_default, w_values = s_values st, w_ops = s_ops st\<rparr>"

definition end_work :: "work \<Rightarrow> mvcc_store \<Rightarrow> mvcc_store" where
  "end_work w st = st\<lparr>s_values := w_values w, s_ops := w_ops w\<rparr>"

definition count_txn :: "op_counts \<Rightarrow> op_counts" where
  "count_txn n = n\<lparr>oc_txn := oc_txn n + 1\<rparr>"

section \<open>Applies\<close>

definition apply_mutations ::
  "mutation list \<Rightarrow> mvcc_store \<Rightarrow> (mvcc_error + int \<times> mutation_result list) \<times> mvcc_store" where
  "apply_mutations ms st =
     (if ms = [] then (Inr (rv_current (v_revs (s_view st)), []), st)
      else case apply_inner (s_index st) (s_engine st) (current_rev (s_ws st)) ms (start_work st) of
             (Inl e, w) \<Rightarrow> (Inl e, end_work w st)
           | (Inr (revision, results, produced), w) \<Rightarrow>
               let st = end_work w st;
                   st = (if produced then commit_ctx revision (w_ctx w) st else st)
               in (Inr (revision, results), st))"

definition txn :: "compare list \<Rightarrow> txn_op list \<Rightarrow> txn_op list \<Rightarrow> mvcc_store \<Rightarrow> (mvcc_error + txn_result) \<times> mvcc_store" where
  "txn compares success failure st =
     (let w = start_work st in
      case evaluate_compares (s_index st) (s_engine st) (w_ctx w) compares (w_values w) of
        (Inl e, vc) \<Rightarrow> (Inl e, st\<lparr>s_values := vc\<rparr>)
      | (Inr succeeded, vc) \<Rightarrow>
          (case txn_ops (s_index st) (s_engine st) (ws_revs (s_ws st)) (if succeeded then success else failure)
             \<lparr>tx_main = current_rev (s_ws st) + 1, tx_sub = 0, tx_produced_any = False\<rparr> (w\<lparr>w_values := vc\<rparr>) of
             (Inl e, _, w) \<Rightarrow> (Inl e, end_work w st)
           | (Inr op_results, exec, w) \<Rightarrow>
               let st = end_work w st;
                   st = (if tx_produced_any exec then commit_ctx (tx_main exec) (w_ctx w) st else st);
                   st = st\<lparr>s_ops := count_txn (s_ops st)\<rparr>
               in (Inr \<lparr>tr_succeeded = succeeded,
                        tr_revision = (if tx_produced_any exec then tx_main exec else current_rev (s_ws st)),
                        tr_op_results = op_results\<rparr>, st)))"

text \<open>One request of a shared commit, at the local revision \<open>cur\<close>.\<close>

definition push_mark :: "int \<Rightarrow> work \<Rightarrow> work" where
  "push_mark revision w =
     w\<lparr>w_ctx := (w_ctx w)\<lparr>cx_marks := cx_marks (w_ctx w) @ [(revision, length (cx_events (w_ctx w)))]\<rparr>\<rparr>"

fun item_step ::
  "resident_index \<Rightarrow> engine \<Rightarrow> int \<Rightarrow> apply_item \<Rightarrow> int \<times> work \<Rightarrow> (mvcc_error + apply_outcome) \<times> int \<times> work" where
  "item_step ri snap compacted (ItemMutations ms) (cur, w) =
     (if ms = [] then (Inr (OutMutations cur []), cur, w)
      else case apply_inner ri snap cur ms w of
             (Inr (revision, results, produced), w) \<Rightarrow>
               (Inr (OutMutations revision results),
                if produced then (revision, push_mark revision w) else (cur, w))
           | (Inl (Refused r), w) \<Rightarrow> (Inr (OutRefused cur r), cur, w)
           | (Inl e, w) \<Rightarrow> (Inl e, cur, w))"
| "item_step ri snap compacted (ItemTxn compares success failure) (cur, w) =
     (case evaluate_compares ri snap (w_ctx w) compares (w_values w) of
        (Inl e, vc) \<Rightarrow> (Inl e, cur, w\<lparr>w_values := vc\<rparr>)
      | (Inr succeeded, vc) \<Rightarrow>
          (case txn_ops ri snap \<lparr>rv_current = cur, rv_compact = compacted\<rparr> (if succeeded then success else failure)
             \<lparr>tx_main = cur + 1, tx_sub = 0, tx_produced_any = False\<rparr> (w\<lparr>w_values := vc\<rparr>) of
             (Inl e, _, w) \<Rightarrow> (Inl e, cur, w)
           | (Inr op_results, exec, w) \<Rightarrow>
               let w = w\<lparr>w_ops := count_txn (w_ops w)\<rparr>;
                   (cur, w) = (if tx_produced_any exec then (tx_main exec, push_mark (tx_main exec) w) else (cur, w))
               in (Inr (OutTxn \<lparr>tr_succeeded = succeeded, tr_revision = cur, tr_op_results = op_results\<rparr>), cur, w)))"

fun apply_items ::
  "resident_index \<Rightarrow> engine \<Rightarrow> int \<Rightarrow> apply_item list \<Rightarrow> int \<times> work \<Rightarrow>
   (mvcc_error + apply_outcome list) \<times> int \<times> work" where
  "apply_items ri snap compacted [] s = (Inr [], s)"
| "apply_items ri snap compacted (item # items) s =
     (case item_step ri snap compacted item s of
        (Inl e, s) \<Rightarrow> (Inl e, s)
      | (Inr out, s) \<Rightarrow>
          (case apply_items ri snap compacted items s of
             (Inl e, s) \<Rightarrow> (Inl e, s)
           | (Inr outs, s) \<Rightarrow> (Inr (out # outs), s)))"

definition apply_many :: "apply_item list \<Rightarrow> mvcc_store \<Rightarrow> (mvcc_error + apply_outcome list) \<times> mvcc_store" where
  "apply_many items st =
     (case apply_items (s_index st) (s_engine st) (compact_rev (s_ws st)) items
             (current_rev (s_ws st), start_work st) of
        (Inl e, _, w) \<Rightarrow> (Inl e, end_work w st)
      | (Inr outs, cur, w) \<Rightarrow>
          let st = end_work w st in
          (Inr outs, if cur \<noteq> current_rev (s_ws st) then commit_ctx cur (w_ctx w) st else st))"

section \<open>Auth\<close>

definition apply_auth :: "nat \<Rightarrow> auth_op \<Rightarrow> mvcc_store \<Rightarrow> (int \<times> (auth_apply_error + unit)) \<times> mvcc_store" where
  "apply_auth now op st =
     (let rv = rv_current (v_revs (s_view st)) in
      case plan (t_auth (s_engine st)) op of
        Inl e \<Rightarrow> ((rv, Inl e), st)
      | Inr (ws, fx) \<Rightarrow>
          let (staged, b, st) = fold_raft_meta (map AuthWrite ws) st;
              st = (if staged \<or> b \<noteq> [] then st\<lparr>s_engine := engine_commit (s_engine st) b\<rparr> else st)
          in ((rv, Inr ()), st\<lparr>s_auth := effects_apply now fx (s_auth st)\<rparr>))"

section \<open>Leases\<close>

definition stamp_lease_applied :: "nat \<Rightarrow> int \<Rightarrow> mvcc_store \<Rightarrow> mvcc_store" where
  "stamp_lease_applied now lid st = st\<lparr>s_lease_applied := fmupd lid now (s_lease_applied st)\<rparr>"

definition apply_lease_grant ::
  "nat \<Rightarrow> int \<Rightarrow> int \<Rightarrow> int \<Rightarrow> mvcc_store \<Rightarrow> (mvcc_error + lease_grant_result) \<times> mvcc_store" where
  "apply_lease_grant now lid ttl_secs now_unix st =
     (if ttl_secs \<le> 0
      then (Inl (Refused (InvalidArgument (''lease TTL must be positive, got '' @ show_int ttl_secs))), st)
      else
        let hw = next_lease_id (s_ws st);
            (final_id, hw', b) =
              (if lid = 0 then (hw + 1, hw + 1, write_i64 [] META_KEY_NEXT_LEASE_ID (hw + 1))
               else if lid > hw then (lid, lid, write_i64 [] META_KEY_NEXT_LEASE_ID lid)
               else (lid, hw, []));
            rec = \<lparr>ls_id = final_id, ls_ttl_secs = ttl_secs,
                    ls_deadline_unix_secs = saturating_add_i64 now_unix ttl_secs\<rparr>;
            st = st\<lparr>s_ws := (s_ws st)\<lparr>next_lease_id := hw'\<rparr>\<rparr>;
            st = commit_folded (b @ [LeasePut (lease_id_key final_id) rec]) st;
            st = stamp_lease_applied now final_id st
        in (Inr \<lparr>lg_id = final_id, lg_ttl_secs = ttl_secs, lg_revision = current_rev (s_ws st)\<rparr>, st))"

definition apply_lease_keepalive ::
  "nat \<Rightarrow> int \<Rightarrow> int \<Rightarrow> mvcc_store \<Rightarrow> (mvcc_error + lease_ttl_result) \<times> mvcc_store" where
  "apply_lease_keepalive now lid now_unix st =
     (case fmlookup (t_lease (s_engine st)) (lease_id_key lid) of
        None \<Rightarrow> (Inl (Refused LeaseNotFound), st)
      | Some rec \<Rightarrow>
          let rec = rec\<lparr>ls_deadline_unix_secs := saturating_add_i64 now_unix (ls_ttl_secs rec)\<rparr>;
              st = commit_folded [LeasePut (lease_id_key lid) rec] st;
              st = stamp_lease_applied now lid st
          in (Inr \<lparr>lt_id = lid, lt_granted_ttl_secs = ls_ttl_secs rec, lt_remaining_ttl_secs = ls_ttl_secs rec,
                   lt_keys = []\<rparr>, st))"

fun collect_keys :: "bytes list \<Rightarrow> mvcc_error + bytes list" where
  "collect_keys [] = Inr []"
| "collect_keys (k # ks) =
     bind_res (parse_lease_keys_key k) (\<lambda>(_, uk). bind_res (collect_keys ks) (\<lambda>uks. Inr (uk # uks)))"

definition lease_entries :: "engine \<Rightarrow> int \<Rightarrow> bytes list" where
  "lease_entries snap lid =
     (let (start, stop) = lease_keys_bounds lid in map fst (rows_in (t_lease_keys snap) start stop))"

definition lease_attached_keys :: "int \<Rightarrow> mvcc_store \<Rightarrow> mvcc_error + bytes list" where
  "lease_attached_keys lid st = collect_keys (lease_entries (s_engine st) lid)"

definition all_lease_attached_keys :: "mvcc_store \<Rightarrow> mvcc_error + bytes list" where
  "all_lease_attached_keys st = collect_keys (map fst (sorted_list_of_fmap (t_lease_keys (s_engine st))))"

definition lease_ttl :: "int \<Rightarrow> bool \<Rightarrow> int \<Rightarrow> mvcc_store \<Rightarrow> mvcc_error + lease_ttl_result option" where
  "lease_ttl lid include_keys now_unix st =
     (case fmlookup (t_lease (s_engine st)) (lease_id_key lid) of
        None \<Rightarrow> Inr None
      | Some rec \<Rightarrow>
          bind_res (if include_keys then collect_keys (lease_entries (s_engine st) lid) else Inr []) (\<lambda>keys.
            Inr (Some \<lparr>lt_id = lid, lt_granted_ttl_secs = ls_ttl_secs rec,
              lt_remaining_ttl_secs = saturating_sub_i64 (ls_deadline_unix_secs rec) now_unix, lt_keys = keys\<rparr>)))"

definition lease_exists :: "int \<Rightarrow> mvcc_store \<Rightarrow> bool" where
  "lease_exists lid st \<longleftrightarrow> fmlookup (t_lease (s_engine st)) (lease_id_key lid) \<noteq> None"

definition lease_records :: "mvcc_store \<Rightarrow> lease_record list" where
  "lease_records st = map snd (sorted_list_of_fmap (t_lease (s_engine st)))"

definition lease_list :: "mvcc_store \<Rightarrow> int list" where
  "lease_list st =
     map i64_from_be_bytes (filter (\<lambda>k. length k = 8) (map fst (sorted_list_of_fmap (t_lease (s_engine st)))))"

definition apply_lease_revoke :: "int \<Rightarrow> mvcc_store \<Rightarrow> (mvcc_error + lease_revoke_result) \<times> mvcc_store" where
  "apply_lease_revoke lid st =
     (let entries = lease_entries (s_engine st) lid in
      case collect_keys entries of
        Inl e \<Rightarrow> (Inl e, st)
      | Inr attached \<Rightarrow>
          let mutations = map (\<lambda>k. MutDeleteRange k [] False) attached in
          (case (if mutations \<noteq> []
                 then apply_inner (s_index st) (s_engine st) (current_rev (s_ws st)) mutations (start_work st)
                 else (Inr (current_rev (s_ws st), [], False), start_work st)) of
             (Inl e, w) \<Rightarrow> (Inl e, end_work w st)
           | (Inr (revision, results, produced), w) \<Rightarrow>
               let deleted_keys = sum_list (map mr_n results);
                   ctx = (w_ctx w)\<lparr>cx_batch := cx_batch (w_ctx w) @ [LeaseDelete (lease_id_key lid)] @
                           map LeaseKeyDelete entries\<rparr>;
                   st = end_work w st;
                   st = (if produced then commit_ctx revision ctx st else commit_folded (cx_batch ctx) st)
               in (Inr \<lparr>lv_revision = revision, lv_deleted_keys = deleted_keys\<rparr>,
                   st\<lparr>s_lease_applied := fmdrop lid (s_lease_applied st)\<rparr>)))"

section \<open>Compaction\<close>

definition compact_key :: "revision \<Rightarrow> key_index \<Rightarrow> store_batch \<times> key_index" where
  "compact_key rv idx =
     (let (idx, dropped) = ki_compact idx rv in
      (map (KvDelete (i_key idx)) dropped @
       [if i_generations idx = [] then IdxDelete (i_key idx) else IdxPut (i_key idx) idx], idx))"

definition compact :: "int \<Rightarrow> mvcc_store \<Rightarrow> (mvcc_error + int) \<times> mvcc_store" where
  "compact rv st =
     (if rv \<le> 0 then (Inl (Refused (InvalidArgument (''compact rev must be > 0, got '' @ show_int rv))), st)
      else if rv > current_rev (s_ws st) then (Inl (FutureRevision rv (current_rev (s_ws st))), st)
      else if rv < compact_rev (s_ws st) then (Inl (Compacted rv (compact_rev (s_ws st))), st)
      else if rv = compact_rev (s_ws st) then (Inr rv, st)
      else
        let packed = Revision rv i64_max;
            changed = map (\<lambda>(k, gens). \<lparr>i_key = k, i_generations = gens\<rparr>)
              (filter (\<lambda>(_, gens). compaction_changes gens packed) (idx_iter (s_index st)));
            changes = map (compact_key packed) changed;
            b = write_i64 (concat (map fst changes)) META_KEY_COMPACT_REV rv;
            revs = (ws_revs (s_ws st))\<lparr>rv_compact := rv\<rparr>;
            st = commit_folded b (st\<lparr>s_view := view_store revs (s_view st)\<rparr>);
            view = (s_view st)\<lparr>v_engine_commits := v_engine_commits (s_view st) + 1\<rparr>
        in (Inr rv, st\<lparr>s_index := fold (\<lambda>idx. idx_set (i_key idx) (i_generations idx)) (map snd changes) (s_index st),
                       s_view := view_publish revs view, s_ws := (s_ws st)\<lparr>compact_rev := rv\<rparr>\<rparr>))"

section \<open>Reads\<close>

text \<open>The view of a reader no commit overtakes: the published revisions, or those of the write
  state if the last commit is not published.\<close>

definition read_view :: "mvcc_store \<Rightarrow> revs" where
  "read_view st =
     (if v_published (s_view st) \<le> v_engine_commits (s_view st) then v_revs (s_view st) else ws_revs (s_ws st))"

definition range_with_revision ::
  "range_op \<Rightarrow> mvcc_store \<Rightarrow> (mvcc_error + range_result \<times> int) \<times> mvcc_store" where
  "range_with_revision r st =
     (let st = st\<lparr>s_ops := (s_ops st)\<lparr>oc_range := oc_range (s_ops st) + 1\<rparr>\<rparr>;
          revs = read_view st
      in case check_read_rev revs (ro_revision r) of
           Inl e \<Rightarrow> (Inl e, st)
         | Inr read_rev \<Rightarrow>
             let rplan = plan_range (s_index st) ctx_default (ro_key r) (ro_range_end r) read_rev (ro_limit r)
                   (ro_count_only r);
                 fill = (ro_revision r = 0 \<or> ro_revision r = rv_current revs)
             in (case fetch_records (s_engine st) ctx_default (ro_keys_only r) fill (rp_hits rplan) (s_values st) of
                   (Inl e, vc) \<Rightarrow> (Inl e, st\<lparr>s_values := vc\<rparr>)
                 | (Inr (kvs, _), vc) \<Rightarrow>
                     (Inr (into_result rplan kvs (ro_count_only r), rv_current revs), st\<lparr>s_values := vc\<rparr>)))"

definition txn_would_succeed :: "compare list \<Rightarrow> mvcc_store \<Rightarrow> (mvcc_error + bool) \<times> mvcc_store" where
  "txn_would_succeed compares st =
     (let targets = compare_targets_in (s_index st) ctx_default compares;
          (r, vc) = evaluate_compares_with (s_engine st) ctx_default compares targets (s_values st)
      in (r, st\<lparr>s_values := vc\<rparr>))"

section \<open>History for watchers\<close>

fun candidate_rev :: "revision \<Rightarrow> generation list \<Rightarrow> revision option" where
  "candidate_rev before [] = None"
| "candidate_rev before (g # older) =
     (case find (\<lambda>r. r < before) (rev (g_revs g)) of Some r \<Rightarrow> Some r | None \<Rightarrow> candidate_rev before older)"

definition previous_live_record :: "engine \<Rightarrow> bytes \<Rightarrow> revision \<Rightarrow> kv_record option" where
  "previous_live_record snap user_key before =
     (case fmlookup (t_idx snap) user_key of
        None \<Rightarrow> None
      | Some idx \<Rightarrow>
          (case candidate_rev before (rev (i_generations idx)) of
             None \<Rightarrow> None
           | Some rv \<Rightarrow>
               (case fmlookup (t_kv snap) (user_key, rv) of
                  None \<Rightarrow> None
                | Some rec \<Rightarrow> live_record rec)))"

definition window_pairs :: "int \<Rightarrow> int \<Rightarrow> bytes \<times> key_index \<Rightarrow> (revision \<times> bytes) list" where
  "window_pairs start_rev cur ki =
     (let (user_key, idx) = ki; inw = (\<lambda>r. rmain r > start_rev \<and> rmain r \<le> cur) in
      concat (map (\<lambda>g. map (\<lambda>r. (r, user_key)) (filter inw (g_revs g)) @
        (case g_tombstone g of Some t \<Rightarrow> if inw t then [(t, user_key)] else [] | None \<Rightarrow> []))
        (i_generations idx)))"

fun backfill :: "engine \<Rightarrow> (revision \<times> bytes) list \<Rightarrow> mvcc_error + mvcc_event list" where
  "backfill snap [] = Inr []"
| "backfill snap ((rv, user_key) # pairs) =
     (case fmlookup (t_kv snap) (user_key, rv) of
        None \<Rightarrow> Inl (Internal ''missing KvRecord for backfill'')
      | Some rec \<Rightarrow>
          bind_res (backfill snap pairs) (\<lambda>events.
            Inr (\<lparr>ev_kind = (if is_tombstone rec then EvDelete else EvPut), ev_kv = rec,
                   ev_prev_kv = previous_live_record snap user_key rv\<rparr> # events)))"

definition range_events_until ::
  "bytes \<Rightarrow> bytes \<Rightarrow> int \<Rightarrow> int \<Rightarrow> mvcc_store \<Rightarrow> mvcc_error + mvcc_event list" where
  "range_events_until key range_end start_rev end_rev st =
     (let revs = v_revs (s_view st); cur = min (rv_current revs) end_rev; compacted = rv_compact revs in
      if start_rev < compacted \<and> compacted > 0 then Inl (Compacted start_rev compacted)
      else if start_rev > cur then Inr []
      else let (lo, hi) = range_bounds key range_end;
               pairs = concat (map (window_pairs start_rev cur) (rows_in (t_idx (s_engine st)) lo hi))
           in backfill (s_engine st) (sort pairs))"

definition range_events :: "bytes \<Rightarrow> bytes \<Rightarrow> int \<Rightarrow> mvcc_store \<Rightarrow> mvcc_error + mvcc_event list" where
  "range_events key range_end start_rev st = range_events_until key range_end start_rev i64_max st"

end
