(* ===== verification/Mvcc_Tables.thy ===== *)
theory Mvcc_Tables
  imports Mvcc_Lease Mvcc_Cache
begin

text \<open>
  The consistency of the MVCC tables: the index of each key against its records in
  \<^verbatim>\<open>mvcc_kv\<close>, and the reverse index \<^verbatim>\<open>lease_keys\<close> against the leases of the live records.
  The tables are seen as functions (generations per key, record per key and revision, presence of
  a lease entry), so the same facts serve a store at rest and an apply in progress, whose tables
  are those of the engine overlaid with a batch.
\<close>

type_synonym gens_fn = "bytes \<Rightarrow> generation list"
type_synonym kv_fn = "bytes \<times> revision \<Rightarrow> kv_record option"
type_synonym lk_fn = "bytes \<Rightarrow> bool"

section \<open>What the tables say\<close>

text \<open>The live record of a key, and its record at a revision.\<close>

definition cur_rec :: "gens_fn \<Rightarrow> kv_fn \<Rightarrow> bytes \<Rightarrow> kv_record option" where
  "cur_rec G K k = (case gens_current (G k) of Some (rv, _) \<Rightarrow> K (k, rv) | None \<Rightarrow> None)"

definition at_rec :: "gens_fn \<Rightarrow> kv_fn \<Rightarrow> revision \<Rightarrow> bytes \<Rightarrow> kv_record option" where
  "at_rec G K r k = (case revision_at (G k) r of Some rv \<Rightarrow> K (k, rv) | None \<Rightarrow> None)"

definition rv_ok :: "revision \<Rightarrow> bool" where
  "rv_ok rv \<longleftrightarrow> 1 \<le> rmain rv \<and> 0 \<le> rsub rv \<and> rsub rv \<le> i64_max"

definition rec_ok :: "bytes \<Rightarrow> revision \<Rightarrow> bool \<Rightarrow> kv_record \<Rightarrow> bool" where
  "rec_ok k rv d rec \<longleftrightarrow> rv_ok rv \<and> r_key rec = k \<and> r_deleted rec = d \<and> r_mod_revision rec = rmain rv \<and>
     i64_ok (r_lease rec)"

definition key_ok :: "bytes \<Rightarrow> generation list \<Rightarrow> kv_fn \<Rightarrow> bool" where
  "key_ok k gs K \<longleftrightarrow> gens_ok gs \<and>
     (\<forall>rv. K (k, rv) \<noteq> None \<longleftrightarrow> rv \<in> fst ` set (hist gs)) \<and>
     (\<forall>rv d rec. (rv, d) \<in> set (hist gs) \<longrightarrow> K (k, rv) = Some rec \<longrightarrow> rec_ok k rv d rec) \<and>
     (\<forall>g \<in> set gs. \<forall>rv \<in> set (g_revs g). \<forall>rec. K (k, rv) = Some rec \<longrightarrow>
        r_create_revision rec = rmain (g_created g))"

definition lease_index :: "(bytes \<Rightarrow> kv_record option) \<Rightarrow> lk_fn \<Rightarrow> bool" where
  "lease_index M L \<longleftrightarrow>
     (\<forall>x. L x \<longleftrightarrow> (\<exists>k rec. M k = Some rec \<and> r_lease rec \<noteq> 0 \<and> x = lease_key_index (r_lease rec) k))"

definition tables_ok :: "revision \<Rightarrow> gens_fn \<Rightarrow> kv_fn \<Rightarrow> lk_fn \<Rightarrow> bool" where
  "tables_ok b G K L \<longleftrightarrow> (\<forall>k. key_ok k (G k) K \<and> gens_below (G k) b) \<and> lease_index (cur_rec G K) L"

section \<open>Reading\<close>

lemma key_ok_gens: "key_ok k gs K \<Longrightarrow> gens_ok gs"
  by (simp add: key_ok_def)

lemma key_ok_get:
  assumes "key_ok k gs K" "(rv, d) \<in> set (hist gs)"
  obtains rec where "K (k, rv) = Some rec" "rec_ok k rv d rec"
proof -
  have "rv \<in> fst ` set (hist gs)" using assms(2) by force
  then obtain rec where "K (k, rv) = Some rec" using assms(1) unfolding key_ok_def by (meson not_None_eq)
  with assms that show ?thesis by (auto simp: key_ok_def)
qed

lemma key_ok_absent: "key_ok k gs K \<Longrightarrow> rv \<notin> fst ` set (hist gs) \<Longrightarrow> K (k, rv) = None"
  unfolding key_ok_def by blast

lemma cur_rec_live:
  assumes "key_ok k (G k) K"
  shows "cur_rec G K k \<noteq> None \<longleftrightarrow> gens_live (G k)"
proof (cases "gens_live (G k)")
  case True
  then obtain rv v where c: "gens_current (G k) = Some (rv, v)"
    using gens_current_live [OF key_ok_gens [OF assms]] by blast
  obtain rec where "K (k, rv) = Some rec"
    by (rule key_ok_get [OF assms in_hist_current [OF c]])
  then show ?thesis using c True by (simp add: cur_rec_def)
next
  case False
  then show ?thesis by (simp add: cur_rec_def gens_current_dead)
qed

lemma cur_rec_ok:
  assumes "key_ok k (G k) K" "cur_rec G K k = Some rec"
  shows "r_key rec = k" "\<not> is_tombstone rec" "i64_ok (r_lease rec)"
    "\<exists>rv v. gens_current (G k) = Some (rv, v) \<and> K (k, rv) = Some rec \<and> rec_ok k rv False rec \<and>
       (rv, False) \<in> set (hist (G k))"
proof -
  obtain rv v where c: "gens_current (G k) = Some (rv, v)" "K (k, rv) = Some rec"
    using assms(2) by (auto simp: cur_rec_def split: option.splits)
  have "rec_ok k rv False rec"
    by (rule key_ok_get [OF assms(1) in_hist_current [OF c(1)]]) (use c(2) in simp)
  with c in_hist_current [OF c(1)]
  show "r_key rec = k" "\<not> is_tombstone rec" "i64_ok (r_lease rec)"
    "\<exists>rv v. gens_current (G k) = Some (rv, v) \<and> K (k, rv) = Some rec \<and> rec_ok k rv False rec \<and>
       (rv, False) \<in> set (hist (G k))"
    by (auto simp: rec_ok_def is_tombstone_def)
qed

text \<open>A read that sees every event is a read of the live record.\<close>

lemma revision_at_current:
  assumes "gens_ok gs" "\<forall>e \<in> set (hist gs). fst e \<le> r"
  shows "revision_at gs r = map_option fst (gens_current gs)"
proof (cases "gs = []")
  case True
  then show ?thesis by (simp add: revision_at_def gens_current_def)
next
  case False
  note last = gens_live_last [OF False assms(1)]
  obtain ys e where ys: "hist gs = ys @ [e]" using last by (cases "hist gs" rule: rev_cases) auto
  have le: "last_event (hist gs) r = Some (last (hist gs))"
    using assms(2) unfolding ys by (simp add: last_event_def)
  show ?thesis
  proof (cases "gens_live gs")
    case True
    then obtain rv v where c: "gens_current gs = Some (rv, v)"
      using gens_current_live [OF assms(1)] by blast
    then show ?thesis
      using le last_hist_current [OF c] by (simp add: gens_ok_read [OF assms(1)] read_hist_def)
  next
    case dead: False
    then show ?thesis
      using le last by (cases "last (hist gs)") (simp add: gens_ok_read [OF assms(1)] read_hist_def gens_current_dead)
  qed
qed

lemma at_rec_current:
  assumes "key_ok k (G k) K" "\<forall>e \<in> set (hist (G k)). fst e \<le> r"
  shows "at_rec G K r k = cur_rec G K k"
  using revision_at_current [OF key_ok_gens [OF assms(1)] assms(2)]
  by (simp add: at_rec_def cur_rec_def split: option.split)

lemma revision_at_in_hist:
  assumes "gens_ok gs" "revision_at gs r = Some rv"
  shows "(rv, False) \<in> set (hist gs)" "rv \<le> r"
proof -
  obtain e where "last_event (hist gs) r = Some e" "e = (rv, False)"
    using assms by (auto simp: gens_ok_read read_hist_def split: option.splits if_splits)
  then show "(rv, False) \<in> set (hist gs)" "rv \<le> r" using last_event_SomeD [of "hist gs" r] by auto
qed

lemma below_seen:
  assumes "key_ok k gs K" "gens_below gs (Revision (n + 1) 0)" "e \<in> set (hist gs)"
  shows "fst e \<le> Revision n i64_max"
proof -
  have "rv_ok (fst e)"
    by (rule key_ok_get [OF assms(1), of "fst e" "snd e"]) (use assms(3) in \<open>simp_all add: rec_ok_def\<close>)
  moreover have "fst e < Revision (n + 1) 0" using assms(2,3) by (auto simp: gens_below_def)
  ultimately show ?thesis by (cases "fst e") (auto simp: rv_ok_def)
qed

lemma gens_below_mono: "gens_below gs b \<Longrightarrow> b \<le> b' \<Longrightarrow> gens_below gs b'"
  by (auto simp: gens_below_def)

lemma tables_ok_mono: "tables_ok b G K L \<Longrightarrow> b \<le> b' \<Longrightarrow> tables_ok b' G K L"
  unfolding tables_ok_def using gens_below_mono by blast

lemma tables_ok_key: "tables_ok b G K L \<Longrightarrow> key_ok k (G k) K"
  by (simp add: tables_ok_def)

lemma tables_ok_below: "tables_ok b G K L \<Longrightarrow> gens_below (G k) b"
  by (simp add: tables_ok_def)

section \<open>Writing\<close>

lemma lease_index_upd:
  assumes "lease_index M L" "\<forall>k rec. M k = Some rec \<longrightarrow> i64_ok (r_lease rec)"
    and "\<forall>rec. new = Some rec \<longrightarrow> i64_ok (r_lease rec)"
    and "old_lease = (case M k of Some p \<Rightarrow> r_lease p | None \<Rightarrow> 0)"
    and "new_lease = (case new of Some p \<Rightarrow> r_lease p | None \<Rightarrow> 0)"
    and "\<forall>x. L' x \<longleftrightarrow> (L x \<and> \<not> (old_lease \<noteq> 0 \<and> x = lease_key_index old_lease k)) \<or>
           new_lease \<noteq> 0 \<and> x = lease_key_index new_lease k"
  shows "lease_index (M(k := new)) L'"
  unfolding lease_index_def
proof
  fix x
  have inj: "lease_key_index (r_lease rec) j = lease_key_index old_lease k \<longleftrightarrow> r_lease rec = old_lease \<and> j = k"
    if "M j = Some rec" "old_lease \<noteq> 0" for j rec
  proof (rule lease_key_index_inject)
    show "i64_ok (r_lease rec)" using assms(2) that(1) by blast
    show "i64_ok old_lease" using assms(2,4) that(2) by (cases "M k") simp_all
  qed
  have L: "L x \<longleftrightarrow> (\<exists>j rec. M j = Some rec \<and> r_lease rec \<noteq> 0 \<and> x = lease_key_index (r_lease rec) j)"
    using assms(1) unfolding lease_index_def by blast
  have kept: "L x \<and> \<not> (old_lease \<noteq> 0 \<and> x = lease_key_index old_lease k) \<longleftrightarrow>
      (\<exists>j rec. j \<noteq> k \<and> M j = Some rec \<and> r_lease rec \<noteq> 0 \<and> x = lease_key_index (r_lease rec) j)"
  proof
    assume a: "L x \<and> \<not> (old_lease \<noteq> 0 \<and> x = lease_key_index old_lease k)"
    then obtain j rec where j: "M j = Some rec" "r_lease rec \<noteq> 0" "x = lease_key_index (r_lease rec) j"
      using L by blast
    have "j \<noteq> k"
    proof
      assume "j = k"
      then have "old_lease = r_lease rec" using j(1) assms(4) by simp
      with a j \<open>j = k\<close> show False by simp
    qed
    with j show "\<exists>j rec. j \<noteq> k \<and> M j = Some rec \<and> r_lease rec \<noteq> 0 \<and> x = lease_key_index (r_lease rec) j" by blast
  next
    assume "\<exists>j rec. j \<noteq> k \<and> M j = Some rec \<and> r_lease rec \<noteq> 0 \<and> x = lease_key_index (r_lease rec) j"
    then obtain j rec where j: "j \<noteq> k" "M j = Some rec" "r_lease rec \<noteq> 0" "x = lease_key_index (r_lease rec) j"
      by blast
    then have "L x" using L by blast
    moreover have "\<not> (old_lease \<noteq> 0 \<and> x = lease_key_index old_lease k)" using inj [OF j(2)] j(1,4) by metis
    ultimately show "L x \<and> \<not> (old_lease \<noteq> 0 \<and> x = lease_key_index old_lease k)" by blast
  qed
  have added: "(new_lease \<noteq> 0 \<and> x = lease_key_index new_lease k) \<longleftrightarrow>
      (\<exists>rec. new = Some rec \<and> r_lease rec \<noteq> 0 \<and> x = lease_key_index (r_lease rec) k)"
    using assms(5) by (cases new) simp_all
  have "L' x \<longleftrightarrow> (\<exists>j rec. j \<noteq> k \<and> M j = Some rec \<and> r_lease rec \<noteq> 0 \<and> x = lease_key_index (r_lease rec) j) \<or>
      (\<exists>rec. new = Some rec \<and> r_lease rec \<noteq> 0 \<and> x = lease_key_index (r_lease rec) k)"
    using assms(6) kept added by blast
  also have "\<dots> \<longleftrightarrow> (\<exists>j rec. (M(k := new)) j = Some rec \<and> r_lease rec \<noteq> 0 \<and> x = lease_key_index (r_lease rec) j)"
    by (auto simp: fun_upd_def)
  finally show "L' x \<longleftrightarrow> (\<exists>j rec. (M(k := new)) j = Some rec \<and> r_lease rec \<noteq> 0 \<and> x = lease_key_index (r_lease rec) j)" .
qed

text \<open>Appending one event to a key, with its record.\<close>

lemma key_ok_other: "key_ok k gs K \<Longrightarrow> j \<noteq> k \<Longrightarrow> key_ok k gs (K((j, rv) := r))"
  by (simp add: key_ok_def)

lemma key_ok_append:
  assumes "key_ok k gs K" "gens_ok gs'" "hist gs' = hist gs @ [(rv, d)]" "rec_ok k rv d rec"
    and "gens_below gs rv"
    and "\<forall>g' \<in> set gs'. \<forall>x \<in> set (g_revs g').
          (x = rv \<and> r_create_revision rec = rmain (g_created g')) \<or>
          (\<exists>g \<in> set gs. x \<in> set (g_revs g) \<and> g_created g = g_created g')"
  shows "key_ok k gs' (K((k, rv) \<mapsto> rec))"
proof -
  have new: "rv \<notin> fst ` set (hist gs)" using assms(5) by (auto simp: gens_below_def)
  then have newg: "rv \<notin> set (g_revs g)" if "g \<in> set gs" for g
    using that by (force simp: hist_def gen_events_def)
  show ?thesis
    unfolding key_ok_def
  proof (intro conjI allI impI ballI)
    fix x
    show "((K((k, rv) \<mapsto> rec)) (k, x) \<noteq> None) = (x \<in> fst ` set (hist gs'))"
      using assms(1,3) by (auto simp: key_ok_def)
  next
    fix x e r
    assume "(x, e) \<in> set (hist gs')" "(K((k, rv) \<mapsto> rec)) (k, x) = Some r"
    then show "rec_ok k x e r" using assms(1,3,4) new by (force simp: key_ok_def split: if_splits)
  next
    fix g' x r
    assume "g' \<in> set gs'" "x \<in> set (g_revs g')" "(K((k, rv) \<mapsto> rec)) (k, x) = Some r"
    then show "r_create_revision r = rmain (g_created g')"
      using assms(1,6) newg by (auto simp: key_ok_def split: if_splits) metis+
  qed (use assms(2) in simp)
qed

lemma gens_put_members:
  "g' \<in> set (fst (gens_put gs rv)) \<Longrightarrow> x \<in> set (g_revs g') \<Longrightarrow>
   (x = rv \<and> g_created g' = snd (snd (gens_put gs rv))) \<or> (\<exists>g \<in> set gs. x \<in> set (g_revs g) \<and> g_created g = g_created g')"
  by (auto simp: gens_put_def Let_def dest: in_set_butlastD split: if_splits)

lemma gens_delete_members:
  "g' \<in> set (fst (gens_delete gs rv)) \<Longrightarrow> x \<in> set (g_revs g') \<Longrightarrow>
   \<exists>g \<in> set gs. x \<in> set (g_revs g) \<and> g_created g = g_created g'"
  by (auto simp: gens_delete_def dest: in_set_butlastD split: if_splits)

lemma key_ok_put:
  assumes "key_ok k gs K" "gens_below gs rv" "rec_ok k rv False rec"
    and "r_create_revision rec = rmain (snd (snd (gens_put gs rv)))"
  shows "key_ok k (fst (gens_put gs rv)) (K((k, rv) \<mapsto> rec))"
  by (rule key_ok_append [OF assms(1) gens_put_ok [OF key_ok_gens [OF assms(1)] assms(2)] hist_gens_put assms(3,2)])
    (use gens_put_members assms(4) in fastforce)

lemma key_ok_delete:
  assumes "key_ok k gs K" "gens_below gs rv" "rec_ok k rv True rec" "gens_live gs"
  shows "key_ok k (fst (gens_delete gs rv)) (K((k, rv) \<mapsto> rec))"
  by (rule key_ok_append [OF assms(1) gens_delete_ok [OF key_ok_gens [OF assms(1)] assms(2)]
        hist_gens_delete [OF assms(4)] assms(3,2)])
    (use gens_delete_members in blast)

lemma cur_rec_put:
  "cur_rec (G(k := fst (gens_put (G k) rv))) (K((k, rv) \<mapsto> rec)) = (cur_rec G K)(k \<mapsto> rec)"
proof
  fix j
  show "cur_rec (G(k := fst (gens_put (G k) rv))) (K((k, rv) \<mapsto> rec)) j = ((cur_rec G K)(k \<mapsto> rec)) j"
    by (cases "j = k") (auto simp: cur_rec_def split: option.split)
qed

lemma cur_rec_delete:
  "cur_rec (G(k := fst (gens_delete (G k) rv))) (K((k, rv) \<mapsto> rec)) = (cur_rec G K)(k := None)"
proof
  fix j
  show "cur_rec (G(k := fst (gens_delete (G k) rv))) (K((k, rv) \<mapsto> rec)) j = ((cur_rec G K)(k := None)) j"
    by (cases "j = k") (auto simp: cur_rec_def gens_current_dead split: option.split)
qed

text \<open>An event appended at \<open>rv\<close> is invisible to reads below \<open>rv\<close>.\<close>

lemma at_rec_append:
  assumes "gens_ok (G k)" "gens_ok gs'" "hist gs' = hist (G k) @ [(rv, d)]" "r < rv"
  shows "at_rec (G(k := gs')) (K((k, rv) \<mapsto> rec)) r = at_rec G K r"
proof
  fix j
  show "at_rec (G(k := gs')) (K((k, rv) \<mapsto> rec)) r j = at_rec G K r j"
  proof (cases "j = k")
    case True
    have "revision_at gs' r = revision_at (G k) r"
    proof -
      have "\<not> rv \<le> r" using assms(4) by simp
      then show ?thesis by (simp only: gens_ok_read assms(1-3) read_hist_snoc if_False)
    qed
    moreover have "x \<noteq> rv" if "revision_at (G k) r = Some x" for x
      using revision_at_in_hist(2) [OF assms(1) that] assms(4) by auto
    ultimately show ?thesis using True by (auto simp: at_rec_def split: option.split)
  qed (simp add: at_rec_def split: option.split)
qed

lemma cur_leases_ok:
  "tables_ok b G K L \<Longrightarrow> \<forall>k rec. cur_rec G K k = Some rec \<longrightarrow> i64_ok (r_lease rec)"
  using cur_rec_ok(3) tables_ok_key by blast

lemma tables_put:
  assumes ok: "tables_ok b G K L" and rv: "gens_below (G k) rv" "rv < b'" "b \<le> b'"
    and rec: "rec_ok k rv False rec" "r_create_revision rec = rmain (snd (snd (gens_put (G k) rv)))"
    and L': "\<forall>x. L' x \<longleftrightarrow> (L x \<and> \<not> (old_lease \<noteq> 0 \<and> x = lease_key_index old_lease k)) \<or>
           r_lease rec \<noteq> 0 \<and> x = lease_key_index (r_lease rec) k"
    and old: "old_lease = (case cur_rec G K k of Some p \<Rightarrow> r_lease p | None \<Rightarrow> 0)"
  shows "tables_ok b' (G(k := fst (gens_put (G k) rv))) (K((k, rv) \<mapsto> rec)) L'"
    and "r < rv \<Longrightarrow> at_rec (G(k := fst (gens_put (G k) rv))) (K((k, rv) \<mapsto> rec)) r = at_rec G K r"
proof -
  have key: "key_ok j (G j) K" and below: "gens_below (G j) b'" for j
    using tables_ok_key [OF ok] gens_below_mono [OF tables_ok_below [OF ok] rv(3)] by auto
  have "key_ok j ((G(k := fst (gens_put (G k) rv))) j) (K((k, rv) \<mapsto> rec))" for j
    using key_ok_put [OF key rv(1) rec] key_ok_other [OF key, of k j] by (cases "j = k") auto
  moreover have "gens_below ((G(k := fst (gens_put (G k) rv))) j) b'" for j
    using below [of j] rv(2) by (auto simp: gens_below_def)
  moreover have "lease_index ((cur_rec G K)(k := Some rec)) L'"
    by (rule lease_index_upd [OF _ cur_leases_ok [OF ok] _ old _ L'])
      (use ok rec(1) in \<open>simp_all add: tables_ok_def rec_ok_def\<close>)
  ultimately show "tables_ok b' (G(k := fst (gens_put (G k) rv))) (K((k, rv) \<mapsto> rec)) L'"
    by (simp add: tables_ok_def cur_rec_put)
  show "at_rec (G(k := fst (gens_put (G k) rv))) (K((k, rv) \<mapsto> rec)) r = at_rec G K r" if "r < rv"
    by (rule at_rec_append [OF key_ok_gens [OF key] _ hist_gens_put that])
      (rule gens_put_ok [OF key_ok_gens [OF key] rv(1)])
qed

lemma tables_delete:
  assumes ok: "tables_ok b G K L" and rv: "gens_below (G k) rv" "rv < b'" "b \<le> b'"
    and rec: "rec_ok k rv True rec" and live: "gens_live (G k)"
    and L': "\<forall>x. L' x \<longleftrightarrow> L x \<and> \<not> (old_lease \<noteq> 0 \<and> x = lease_key_index old_lease k)"
    and old: "old_lease = (case cur_rec G K k of Some p \<Rightarrow> r_lease p | None \<Rightarrow> 0)"
  shows "tables_ok b' (G(k := fst (gens_delete (G k) rv))) (K((k, rv) \<mapsto> rec)) L'"
    and "r < rv \<Longrightarrow> at_rec (G(k := fst (gens_delete (G k) rv))) (K((k, rv) \<mapsto> rec)) r = at_rec G K r"
proof -
  have key: "key_ok j (G j) K" and below: "gens_below (G j) b'" for j
    using tables_ok_key [OF ok] gens_below_mono [OF tables_ok_below [OF ok] rv(3)] by auto
  have "key_ok j ((G(k := fst (gens_delete (G k) rv))) j) (K((k, rv) \<mapsto> rec))" for j
    using key_ok_delete [OF key rv(1) rec live] key_ok_other [OF key, of k j] by (cases "j = k") auto
  moreover have "gens_below ((G(k := fst (gens_delete (G k) rv))) j) b'" for j
    using below [of j] rv(2) hist_gens_delete [OF live, of rv] by (auto simp: gens_below_def)
  moreover have "lease_index ((cur_rec G K)(k := None)) L'"
    by (rule lease_index_upd [where L = L and new_lease = 0, OF _ cur_leases_ok [OF ok] _ old])
      (use ok L' in \<open>simp_all add: tables_ok_def\<close>)
  ultimately show "tables_ok b' (G(k := fst (gens_delete (G k) rv))) (K((k, rv) \<mapsto> rec)) L'"
    by (simp add: tables_ok_def cur_rec_delete)
  show "at_rec (G(k := fst (gens_delete (G k) rv))) (K((k, rv) \<mapsto> rec)) r = at_rec G K r" if "r < rv"
    by (rule at_rec_append [where G = G and k = k, OF key_ok_gens [OF key] _ hist_gens_delete [OF live] that])
      (rule gens_delete_ok [OF key_ok_gens [OF key] rv(1)])
qed

text \<open>What a put computes from the index, in terms of the live record: the creation revision is
  the live record's, the version counts the puts the live generation still holds.\<close>

definition puts_of :: "generation list \<Rightarrow> int" where
  "puts_of gs = (if gens_live gs then int (length (g_revs (last gs))) else 0)"

lemma gens_put_version: "fst (snd (gens_put gs rv)) = puts_of gs + 1"
  by (auto simp: gens_put_def puts_of_def gens_live_def Let_def)

lemma puts_of_put: "puts_of (fst (gens_put gs rv)) = puts_of gs + 1"
  by (auto simp: gens_put_def puts_of_def gens_live_def Let_def is_open_def)

lemma puts_of_delete: "puts_of (fst (gens_delete gs rv)) = 0"
  by (simp add: puts_of_def)

lemma gens_put_created:
  assumes "key_ok k (G k) K"
  shows "rmain (snd (snd (gens_put (G k) rv))) =
    (case cur_rec G K k of Some p \<Rightarrow> r_create_revision p | None \<Rightarrow> rmain rv)"
proof (cases "gens_live (G k)")
  case True
  then obtain r v where c: "gens_current (G k) = Some (r, v)"
    using gens_current_live [OF key_ok_gens [OF assms]] by blast
  then have r: "r \<in> set (g_revs (last (G k)))" "last (G k) \<in> set (G k)"
    by (auto simp: gens_current_def Let_def split: if_splits)
  obtain p where p: "K (k, r) = Some p" by (rule key_ok_get [OF assms in_hist_current [OF c]])
  have "r_create_revision p = rmain (g_created (last (G k)))"
    using assms r p unfolding key_ok_def by blast
  then show ?thesis using True c p by (simp add: cur_rec_def gens_put_def gens_live_def Let_def)
next
  case False
  then show ?thesis by (simp add: cur_rec_def gens_current_dead) (auto simp: gens_put_def gens_live_def Let_def)
qed

end
