(* ===== verification/Mvcc_Spec.thy ===== *)
theory Mvcc_Spec
  imports Mvcc_Apply
begin

text \<open>
  What the MVCC store promises, without its tables, caches and batches: the live records as one
  map that requests change in order, each changing request at the next revision, and the maps of
  past revisions for reads of history.

  Two things show through from the index: a put's version is one more than the number of puts of
  the key the index still holds, and a compare over a range also looks at deleted keys that no
  compaction has removed. The model keeps that count per indexed key (0 for a deleted one).
\<close>

type_synonym kv_map = "(bytes, kv_record) fmap"

record kv_model =
  km_map :: kv_map
  km_index :: "(bytes, int) fmap"

section \<open>One mutation\<close>

definition spec_put ::
  "int \<Rightarrow> bytes \<Rightarrow> bytes \<Rightarrow> int \<Rightarrow> bool \<Rightarrow> bool \<Rightarrow> bool \<Rightarrow> kv_model \<Rightarrow>
   mvcc_error + mutation_result \<times> mvcc_event list \<times> kv_model" where
  "spec_put main key value lease ignore_value ignore_lease prev_kv S =
     (let prev = fmlookup (km_map S) key in
      if (ignore_value \<or> ignore_lease) \<and> prev = None then Inl (Refused KeyNotFound)
      else
        let n = (case fmlookup (km_index S) key of Some n \<Rightarrow> n + 1 | None \<Rightarrow> 1);
            rec = \<lparr>r_key = key,
                   r_value = (if ignore_value then r_value (the prev) else value),
                   r_create_revision = (case prev of Some p \<Rightarrow> r_create_revision p | None \<Rightarrow> main),
                   r_mod_revision = main, r_version = n,
                   r_lease = (if ignore_lease then r_lease (the prev) else lease), r_deleted = False\<rparr>
        in Inr (\<lparr>mr_n = 1, mr_prev_kvs = (if prev_kv then option_list prev else [])\<rparr>,
                [\<lparr>ev_kind = EvPut, ev_kv = rec, ev_prev_kv = prev\<rparr>],
                \<lparr>km_map = fmupd key rec (km_map S), km_index = fmupd key n (km_index S)\<rparr>))"

definition rows_of :: "bytes \<Rightarrow> bytes \<Rightarrow> kv_map \<Rightarrow> (bytes \<times> kv_record) list" where
  "rows_of key range_end M = filter (\<lambda>(k, _). in_range k key range_end) (sorted_list_of_fmap M)"

definition delete_event :: "int \<Rightarrow> bytes \<times> kv_record \<Rightarrow> mvcc_event" where
  "delete_event main kp =
     \<lparr>ev_kind = EvDelete, ev_kv = tombstone_record (fst kp) (Revision main 0), ev_prev_kv = Some (snd kp)\<rparr>"

definition kill :: "bytes \<times> kv_record \<Rightarrow> kv_model \<Rightarrow> kv_model" where
  "kill kp S = \<lparr>km_map = fmdrop (fst kp) (km_map S), km_index = fmupd (fst kp) 0 (km_index S)\<rparr>"

definition spec_delete_range ::
  "int \<Rightarrow> bytes \<Rightarrow> bytes \<Rightarrow> bool \<Rightarrow> kv_model \<Rightarrow> mutation_result \<times> mvcc_event list \<times> kv_model" where
  "spec_delete_range main key range_end prev_kv S =
     (let rows = rows_of key range_end (km_map S) in
      (\<lparr>mr_n = int (length rows), mr_prev_kvs = (if prev_kv then map snd rows else [])\<rparr>,
       map (delete_event main) rows, fold kill rows S))"

fun spec_mutation ::
  "int \<Rightarrow> mutation \<Rightarrow> kv_model \<Rightarrow> mvcc_error + mutation_result \<times> mvcc_event list \<times> kv_model" where
  "spec_mutation main (MutPut k v l iv il p) S = spec_put main k v l iv il p S"
| "spec_mutation main (MutDeleteRange k e p) S = Inr (spec_delete_range main k e p S)"

fun spec_mutations ::
  "int \<Rightarrow> mutation list \<Rightarrow> kv_model \<Rightarrow> mvcc_error + mutation_result list \<times> mvcc_event list \<times> kv_model" where
  "spec_mutations main [] S = Inr ([], [], S)"
| "spec_mutations main (m # ms) S =
     bind_res (spec_mutation main m S) (\<lambda>(r, es, S).
       bind_res (spec_mutations main ms S) (\<lambda>(rs, es', S). Inr (r # rs, es @ es', S)))"

section \<open>Reads\<close>

definition spec_range :: "kv_map \<Rightarrow> range_op \<Rightarrow> range_result" where
  "spec_range M r =
     (let kvs = map snd (rows_of (ro_key r) (ro_range_end r) M) in
      \<lparr>rr_kvs = (if ro_count_only r then [] else map (\<lambda>rec. trim rec (ro_keys_only r)) (limited (ro_limit r) kvs)),
       rr_more = (\<not> ro_count_only r \<and> ro_limit r > 0 \<and> length kvs > ro_limit r),
       rr_count = int (length kvs)\<rparr>)"

definition live_or_zero :: "kv_model \<Rightarrow> bytes \<Rightarrow> kv_record" where
  "live_or_zero S k = (case fmlookup (km_map S) k of Some rec \<Rightarrow> rec | None \<Rightarrow> implicit_zero_record k)"

definition spec_compare :: "kv_model \<Rightarrow> compare \<Rightarrow> bool" where
  "spec_compare S cmp =
     (if cmp_range_end cmp = []
      then eval_compare (live_or_zero S (cmp_key cmp)) (cmp_op cmp) (cmp_target cmp)
      else list_all (\<lambda>(k, _). in_range k (cmp_key cmp) (cmp_range_end cmp) \<longrightarrow>
             eval_compare (live_or_zero S k) (cmp_op cmp) (cmp_target cmp)) (sorted_list_of_fmap (km_index S)))"

section \<open>Transactions\<close>

text \<open>\<open>past\<close> are the maps of earlier revisions, \<open>before\<close> the state before the outermost
  transaction, against which nested compares are evaluated; \<open>wrote\<close> says whether the
  transaction has changed anything yet.\<close>

definition spec_read ::
  "revs \<Rightarrow> int \<Rightarrow> (int \<Rightarrow> kv_map) \<Rightarrow> range_op \<Rightarrow> bool \<Rightarrow> kv_map \<Rightarrow> mvcc_error + range_result" where
  "spec_read st main past r wrote M =
     bind_res (check_read_rev (if wrote then st\<lparr>rv_current := main\<rparr> else st) (ro_revision r)) (\<lambda>_.
       Inr (spec_range (if ro_revision r = 0 \<or> ro_revision r = main then M else past (ro_revision r)) r))"

fun spec_ops ::
  "kv_model \<Rightarrow> revs \<Rightarrow> int \<Rightarrow> (int \<Rightarrow> kv_map) \<Rightarrow> txn_op list \<Rightarrow> bool \<Rightarrow> kv_model \<Rightarrow>
   mvcc_error + txn_op_result list \<times> mvcc_event list \<times> bool \<times> kv_model" where
  "spec_ops before st main past [] wrote S = Inr ([], [], wrote, S)"
| "spec_ops before st main past (OpRange r # ops) wrote S =
     bind_res (spec_read st main past r wrote (km_map S)) (\<lambda>res.
       bind_res (spec_ops before st main past ops wrote S) (\<lambda>(rs, es, wrote, S).
         Inr (ResRange res # rs, es, wrote, S)))"
| "spec_ops before st main past (OpMutation m # ops) wrote S =
     bind_res (spec_mutation main m S) (\<lambda>(res, es, S).
       bind_res (spec_ops before st main past ops (wrote \<or> es \<noteq> []) S) (\<lambda>(rs, es', wrote, S).
         Inr (ResMutation res # rs, es @ es', wrote, S)))"
| "spec_ops before st main past (OpTxn compares success failure # ops) wrote S =
     (let succeeded = list_all (spec_compare before) compares in
      bind_res (spec_ops before st main past (if succeeded then success else failure) wrote S)
        (\<lambda>(inner, es, wrote, S).
           bind_res (spec_ops before st main past ops wrote S) (\<lambda>(rs, es', wrote, S).
             Inr (ResTxn succeeded inner # rs, es @ es', wrote, S))))"

section \<open>Requests\<close>

text \<open>The store: the revisions, the state now, and the past.\<close>

record spec_store =
  sp_revs :: revs
  sp_now :: kv_model
  sp_past :: "int \<Rightarrow> kv_map"

definition spec_advance :: "int \<Rightarrow> kv_model \<Rightarrow> spec_store \<Rightarrow> spec_store" where
  "spec_advance main S sp =
     sp\<lparr>sp_revs := (sp_revs sp)\<lparr>rv_current := main\<rparr>, sp_now := S, sp_past := (sp_past sp)(main := km_map S)\<rparr>"

text \<open>A request's answer, the event batches it sends, and the store after it. A request that
  changes nothing uses up no revision.\<close>

definition spec_apply ::
  "mutation list \<Rightarrow> spec_store \<Rightarrow> (mvcc_error + int \<times> mutation_result list) \<times> event_batch list \<times> spec_store" where
  "spec_apply ms sp =
     (if ms = [] then (Inr (rv_current (sp_revs sp), []), [], sp)
      else let main = rv_current (sp_revs sp) + 1 in
        case spec_mutations main ms (sp_now sp) of
          Inl e \<Rightarrow> (Inl e, [], sp)
        | Inr (rs, es, S) \<Rightarrow>
            if es = [] then (Inr (main, rs), [], sp)
            else (Inr (main, rs), [\<lparr>eb_revision = main, eb_events = es\<rparr>], spec_advance main S sp))"

definition spec_txn ::
  "compare list \<Rightarrow> txn_op list \<Rightarrow> txn_op list \<Rightarrow> spec_store \<Rightarrow>
   (mvcc_error + txn_result) \<times> event_batch list \<times> spec_store" where
  "spec_txn compares success failure sp =
     (let succeeded = list_all (spec_compare (sp_now sp)) compares; main = rv_current (sp_revs sp) + 1 in
      case spec_ops (sp_now sp) (sp_revs sp) main (sp_past sp) (if succeeded then success else failure) False (sp_now sp) of
        Inl e \<Rightarrow> (Inl e, [], sp)
      | Inr (rs, es, wrote, S) \<Rightarrow>
          if wrote
          then (Inr \<lparr>tr_succeeded = succeeded, tr_revision = main, tr_op_results = rs\<rparr>,
                [\<lparr>eb_revision = main, eb_events = es\<rparr>], spec_advance main S sp)
          else (Inr \<lparr>tr_succeeded = succeeded, tr_revision = rv_current (sp_revs sp), tr_op_results = rs\<rparr>, [], sp))"

fun spec_item :: "apply_item \<Rightarrow> spec_store \<Rightarrow> (mvcc_error + apply_outcome) \<times> event_batch list \<times> spec_store" where
  "spec_item (ItemMutations ms) sp =
     (case spec_apply ms sp of
        (Inr (main, rs), bs, sp) \<Rightarrow> (Inr (OutMutations main rs), bs, sp)
      | (Inl (Refused r), bs, sp) \<Rightarrow> (Inr (OutRefused (rv_current (sp_revs sp)) r), bs, sp)
      | (Inl e, bs, sp) \<Rightarrow> (Inl e, bs, sp))"
| "spec_item (ItemTxn compares success failure) sp =
     (case spec_txn compares success failure sp of
        (Inr r, bs, sp) \<Rightarrow> (Inr (OutTxn r), bs, sp)
      | (Inl e, bs, sp) \<Rightarrow> (Inl e, bs, sp))"

fun spec_items :: "apply_item list \<Rightarrow> spec_store \<Rightarrow> (mvcc_error + apply_outcome list) \<times> event_batch list \<times> spec_store" where
  "spec_items [] sp = (Inr [], [], sp)"
| "spec_items (item # items) sp =
     (case spec_item item sp of
        (Inl e, bs, sp) \<Rightarrow> (Inl e, bs, sp)
      | (Inr out, bs, sp) \<Rightarrow>
          (case spec_items items sp of
             (Inl e, bs', sp) \<Rightarrow> (Inl e, bs @ bs', sp)
           | (Inr outs, bs', sp) \<Rightarrow> (Inr (out # outs), bs @ bs', sp)))"

definition spec_range_at :: "range_op \<Rightarrow> spec_store \<Rightarrow> mvcc_error + range_result \<times> int" where
  "spec_range_at r sp =
     bind_res (check_read_rev (sp_revs sp) (ro_revision r)) (\<lambda>_.
       Inr (spec_range (if ro_revision r = 0 then km_map (sp_now sp) else sp_past sp (ro_revision r)) r,
            rv_current (sp_revs sp)))"

end
