(* ===== verification/Mvcc_Refine.thy ===== *)
theory Mvcc_Refine
  imports Mvcc_Tables Mvcc_Spec
begin

text \<open>
  An apply in progress implements the specification: with a context that holds pending changes
  over consistent tables, each step of the code (a put, a deleted key, a range, a compare, a
  transaction's operations) gives the answer and the events the specification gives, and leaves
  a context that stands for the specification's next state.
\<close>

section \<open>What a context stands for\<close>

definition ri_gens :: "resident_index \<Rightarrow> gens_fn" where
  "ri_gens ri k = (case fmlookup (ri_map ri) k of Some g \<Rightarrow> g | None \<Rightarrow> [])"

definition eng_kv :: "engine \<Rightarrow> kv_fn" where
  "eng_kv e = fmlookup (t_kv e)"

definition eng_lk :: "engine \<Rightarrow> lk_fn" where
  "eng_lk e x \<longleftrightarrow> fmlookup (t_lease_keys e) x \<noteq> None"

definition ctx_gens :: "resident_index \<Rightarrow> apply_context \<Rightarrow> gens_fn" where
  "ctx_gens ri ctx k = (case fmlookup (cx_idx_cache ctx) k of Some i \<Rightarrow> i_generations i | None \<Rightarrow> ri_gens ri k)"

definition ctx_kv :: "engine \<Rightarrow> apply_context \<Rightarrow> kv_fn" where
  "ctx_kv snap ctx = eng_kv (engine_commit snap (cx_batch ctx))"

definition ctx_lk :: "engine \<Rightarrow> apply_context \<Rightarrow> lk_fn" where
  "ctx_lk snap ctx = eng_lk (engine_commit snap (cx_batch ctx))"

text \<open>The value cache holds records of the engine, none newer than what is committed.\<close>

definition cache_fits :: "resident_index \<Rightarrow> engine \<Rightarrow> int \<Rightarrow> value_cache \<Rightarrow> bool" where
  "cache_fits ri snap n vc \<longleftrightarrow> vc_ok vc \<and>
     vc_all (\<lambda>k rv rec. rmain rv \<le> n \<and> ((rv, False) \<in> set (hist (ri_gens ri k)) \<longrightarrow> eng_kv snap (k, rv) = Some rec)) vc"

text \<open>\<open>n\<close> is the committed revision; \<open>b\<close> bounds the events of the context.\<close>

definition base_ok :: "resident_index \<Rightarrow> engine \<Rightarrow> int \<Rightarrow> bool" where
  "base_ok ri snap n \<longleftrightarrow> tables_ok (Revision (n + 1) 0) (ri_gens ri) (eng_kv snap) (eng_lk snap) \<and>
     (\<forall>k. fmlookup (ri_map ri) k \<noteq> Some [])"

text \<open>An apply's batch holds rows of \<^verbatim>\<open>mvcc_kv\<close> and lease rows; the index rows and the revision are
  added when it commits.\<close>

fun row_op :: "store_op \<Rightarrow> bool" where
  "row_op (KvPut _ _ _) = True"
| "row_op (LeaseKeyPut _) = True"
| "row_op (LeaseKeyDelete _) = True"
| "row_op (LeaseDelete _) = True"
| "row_op _ = False"

definition ctx_ok :: "resident_index \<Rightarrow> engine \<Rightarrow> int \<Rightarrow> revision \<Rightarrow> apply_context \<Rightarrow> bool" where
  "ctx_ok ri snap n b ctx \<longleftrightarrow>
     tables_ok b (ctx_gens ri ctx) (ctx_kv snap ctx) (ctx_lk snap ctx) \<and>
     Revision (n + 1) 0 \<le> b \<and> list_all row_op (cx_batch ctx) \<and>
     (\<forall>k idx. fmlookup (cx_idx_cache ctx) k = Some idx \<longrightarrow> i_key idx = k \<and> i_generations idx \<noteq> [] \<and>
        n < rmain (fst (last (hist (i_generations idx))))) \<and>
     (\<forall>k. fmlookup (cx_latest ctx) k =
        (case fmlookup (cx_idx_cache ctx) k of
           Some idx \<Rightarrow> ctx_kv snap ctx (k, fst (last (hist (i_generations idx)))) | None \<Rightarrow> None)) \<and>
     (\<forall>k rv. fmlookup (cx_idx_cache ctx) k = None \<or> rmain rv \<le> n \<longrightarrow> ctx_kv snap ctx (k, rv) = eng_kv snap (k, rv)) \<and>
     (\<forall>r. rmain r \<le> n \<longrightarrow> at_rec (ctx_gens ri ctx) (ctx_kv snap ctx) r = at_rec (ri_gens ri) (eng_kv snap) r)"

definition work_ok :: "resident_index \<Rightarrow> engine \<Rightarrow> int \<Rightarrow> revision \<Rightarrow> work \<Rightarrow> bool" where
  "work_ok ri snap n b w \<longleftrightarrow> base_ok ri snap n \<and> cache_fits ri snap n (w_values w) \<and> ctx_ok ri snap n b (w_ctx w)"

definition models :: "resident_index \<Rightarrow> engine \<Rightarrow> apply_context \<Rightarrow> kv_model \<Rightarrow> bool" where
  "models ri snap ctx S \<longleftrightarrow>
     (\<forall>k. fmlookup (km_map S) k = cur_rec (ctx_gens ri ctx) (ctx_kv snap ctx) k) \<and>
     (\<forall>k. fmlookup (km_index S) k =
        (if ctx_gens ri ctx k = [] then None else Some (puts_of (ctx_gens ri ctx k))))"

section \<open>Reading through the caches\<close>

lemma ctx_ok_tables: "ctx_ok ri snap n b ctx \<Longrightarrow> tables_ok b (ctx_gens ri ctx) (ctx_kv snap ctx) (ctx_lk snap ctx)"
  by (simp add: ctx_ok_def)

lemma ctx_ok_key: "ctx_ok ri snap n b ctx \<Longrightarrow> key_ok k (ctx_gens ri ctx k) (ctx_kv snap ctx)"
  using ctx_ok_tables tables_ok_key by blast

lemma work_ok_key: "work_ok ri snap n b w \<Longrightarrow> key_ok k (ctx_gens ri (w_ctx w) k) (ctx_kv snap (w_ctx w))"
  unfolding work_ok_def using ctx_ok_key by blast

lemma base_ok_key: "base_ok ri snap n \<Longrightarrow> key_ok k (ri_gens ri k) (eng_kv snap)"
  using tables_ok_key by (auto simp: base_ok_def)

lemma cache_fits_get:
  assumes "cache_fits ri snap n vc" "vc_get k rv vc = (found, vc')"
  shows "cache_fits ri snap n vc'"
    and "found = Some rec \<Longrightarrow> (rv, False) \<in> set (hist (ri_gens ri k)) \<Longrightarrow> eng_kv snap (k, rv) = Some rec"
  using vc_get_result [OF _ assms(2), where P = "\<lambda>k rv rec. rmain rv \<le> n \<and>
      ((rv, False) \<in> set (hist (ri_gens ri k)) \<longrightarrow> eng_kv snap (k, rv) = Some rec)"] assms(1)
  by (auto simp: cache_fits_def)

lemma cache_fits_insert:
  assumes "cache_fits ri snap n vc" "rmain rv \<le> n" "eng_kv snap (k, rv) = Some rec"
  shows "cache_fits ri snap n (vc_insert k rv rec newer vc)"
  using vc_insert_result [OF _ refl, where P = "\<lambda>k rv rec. rmain rv \<le> n \<and>
      ((rv, False) \<in> set (hist (ri_gens ri k)) \<longrightarrow> eng_kv snap (k, rv) = Some rec)"] assms
  by (simp add: cache_fits_def)

text \<open>A committed event of the context is an event of the resident index.\<close>

lemma ctx_event_base:
  assumes "base_ok ri snap n" "ctx_ok ri snap n b ctx" "(rv, False) \<in> set (hist (ctx_gens ri ctx k))"
    and "fmlookup (cx_idx_cache ctx) k = None \<or> rmain rv \<le> n"
  shows "(rv, False) \<in> set (hist (ri_gens ri k))" "eng_kv snap (k, rv) = ctx_kv snap ctx (k, rv)"
proof -
  show eq: "eng_kv snap (k, rv) = ctx_kv snap ctx (k, rv)" using assms(2,4) unfolding ctx_ok_def by metis
  obtain rec where rec: "ctx_kv snap ctx (k, rv) = Some rec" "rec_ok k rv False rec"
    by (rule key_ok_get [OF ctx_ok_key [OF assms(2)] assms(3)])
  then have "rv \<in> fst ` set (hist (ri_gens ri k))"
    using base_ok_key [OF assms(1), of k] eq unfolding key_ok_def by (metis option.distinct(1))
  then obtain d where d: "(rv, d) \<in> set (hist (ri_gens ri k))" by force
  then have "rec_ok k rv d rec" using base_ok_key [OF assms(1), of k] rec(1) eq unfolding key_ok_def by metis
  then have "\<not> d" using rec(2) by (simp add: rec_ok_def)
  with d show "(rv, False) \<in> set (hist (ri_gens ri k))" by simp
qed

lemma take_index_result:
  assumes "ctx_ok ri snap n b ctx" "take_index ri ctx k = ((idx, from_ctx), ctx')"
  shows "i_key idx = k" "i_generations idx = ctx_gens ri ctx k"
    "ctx' = ctx\<lparr>cx_idx_cache := fmdrop k (cx_idx_cache ctx)\<rparr>" "restore_index idx from_ctx ctx' = ctx"
proof -
  have "i_key idx = k \<and> i_generations idx = ctx_gens ri ctx k \<and>
    ctx' = ctx\<lparr>cx_idx_cache := fmdrop k (cx_idx_cache ctx)\<rparr> \<and> restore_index idx from_ctx ctx' = ctx"
  proof (cases "fmlookup (cx_idx_cache ctx) k")
    case (Some i)
    then have "i_key i = k" using assms(1) by (simp add: ctx_ok_def)
    moreover have "fmupd k i (cx_idx_cache ctx) = cx_idx_cache ctx"
      by (rule fmap_ext) (use Some in auto)
    ultimately show ?thesis using assms(2) Some by (auto simp: take_index_def ctx_gens_def restore_index_def)
  next
    case None
    then show ?thesis
      using assms(2) by (auto simp: take_index_def ctx_gens_def ri_gens_def idx_get_def ki_new_def restore_index_def
          fmdrop_absent split: option.splits)
  qed
  then show "i_key idx = k" "i_generations idx = ctx_gens ri ctx k"
    "ctx' = ctx\<lparr>cx_idx_cache := fmdrop k (cx_idx_cache ctx)\<rparr>" "restore_index idx from_ctx ctx' = ctx" by auto
qed

lemma latest_record_result:
  assumes "base_ok ri snap n" "ctx_ok ri snap n b ctx" "cache_fits ri snap n vc"
    and "i_generations idx = ctx_gens ri ctx k" "gens_live (ctx_gens ri ctx k)"
    and "latest_record_in snap ctx k idx vc = (prev, vc')"
  shows "prev = cur_rec (ctx_gens ri ctx) (ctx_kv snap ctx) k" "cache_fits ri snap n vc'"
proof -
  obtain rv v where c: "gens_current (ctx_gens ri ctx k) = Some (rv, v)"
    using gens_current_live [OF key_ok_gens [OF ctx_ok_key [OF assms(2)]] assms(5)] by blast
  obtain rec where rec: "ctx_kv snap ctx (k, rv) = Some rec" "rec_ok k rv False rec"
    by (rule key_ok_get [OF ctx_ok_key [OF assms(2)] in_hist_current [OF c]])
  have cur: "cur_rec (ctx_gens ri ctx) (ctx_kv snap ctx) k = Some rec" using c rec by (simp add: cur_rec_def)
  have "prev = Some rec \<and> cache_fits ri snap n vc'"
  proof (cases "fmlookup (cx_idx_cache ctx) k")
    case (Some i)
    then have gi: "ctx_gens ri ctx k = i_generations i" by (simp add: ctx_gens_def)
    moreover have "fmlookup (cx_latest ctx) k = ctx_kv snap ctx (k, fst (last (hist (i_generations i))))"
      using assms(2) Some by (simp add: ctx_ok_def)
    ultimately have "fmlookup (cx_latest ctx) k = Some rec" using last_hist_current [OF c] rec(1) by simp
    then show ?thesis using assms(3,6) rec(2)
      by (auto simp: latest_record_in_def live_record_def is_tombstone_def rec_ok_def)
  next
    case None
    then have l: "fmlookup (cx_latest ctx) k = None" using assms(2) by (simp add: ctx_ok_def)
    note base = ctx_event_base [OF assms(1,2) in_hist_current [OF c] disjI1 [OF None]]
    obtain found vc1 where g: "vc_get k rv vc = (found, vc1)" by fastforce
    note fits = cache_fits_get [OF assms(3) g]
    have cidx: "current idx = Some (rv, v)" using c assms(4) by (simp add: current_def)
    show ?thesis
    proof (cases found)
      case None
      then show ?thesis
        using assms(6) l cidx g rec base(2) fits(1)
        by (simp add: latest_record_in_def latest_record_def eng_kv_def live_record_def is_tombstone_def rec_ok_def)
    next
      case (Some r)
      then have "r = rec" using fits(2) [OF _ base(1)] base(2) rec(1) by simp
      then show ?thesis using assms(6) l cidx g Some fits(1) by (simp add: latest_record_in_def latest_record_def)
    qed
  qed
  with cur show "prev = cur_rec (ctx_gens ri ctx) (ctx_kv snap ctx) k" "cache_fits ri snap n vc'" by auto
qed

text \<open>The index and the previous record a mutation starts from.\<close>

definition look_prev ::
  "resident_index \<Rightarrow> engine \<Rightarrow> bytes \<Rightarrow> work \<Rightarrow> ((key_index \<times> bool) \<times> apply_context) \<times> kv_record option \<times> value_cache" where
  "look_prev ri snap key w =
     (let ((idx, from_ctx), ctx) = take_index ri (w_ctx w) key;
          (prev, vc) = (if is_live idx then latest_record_in snap ctx key idx (w_values w) else (None, w_values w))
      in (((idx, from_ctx), ctx), prev, vc))"

lemma look_prev_result:
  assumes "work_ok ri snap n b w" "look_prev ri snap k w = (((idx, from_ctx), ctx), prev, vc)"
  shows "prev = cur_rec (ctx_gens ri (w_ctx w)) (ctx_kv snap (w_ctx w)) k"
    "cache_fits ri snap n vc" "i_key idx = k" "i_generations idx = ctx_gens ri (w_ctx w) k"
    "ctx = (w_ctx w)\<lparr>cx_idx_cache := fmdrop k (cx_idx_cache (w_ctx w))\<rparr>"
    "restore_index idx from_ctx ctx = w_ctx w"
proof -
  have ok: "base_ok ri snap n" "ctx_ok ri snap n b (w_ctx w)" "cache_fits ri snap n (w_values w)"
    using assms(1) by (simp_all add: work_ok_def)
  have t: "take_index ri (w_ctx w) k = ((idx, from_ctx), ctx)"
    and pv: "(if is_live idx then latest_record_in snap ctx k idx (w_values w) else (None, w_values w)) = (prev, vc)"
    using assms(2) by (auto simp: look_prev_def Let_def split: prod.splits)
  note ti = take_index_result [OF ok(2) t]
  show "i_key idx = k" "i_generations idx = ctx_gens ri (w_ctx w) k"
    "ctx = (w_ctx w)\<lparr>cx_idx_cache := fmdrop k (cx_idx_cache (w_ctx w))\<rparr>"
    "restore_index idx from_ctx ctx = w_ctx w" using ti by auto
  have same: "latest_record_in snap ctx k idx (w_values w) = latest_record_in snap (w_ctx w) k idx (w_values w)"
    by (simp add: ti(3) latest_record_in_def)
  have "prev = cur_rec (ctx_gens ri (w_ctx w)) (ctx_kv snap (w_ctx w)) k \<and> cache_fits ri snap n vc"
  proof (cases "gens_live (ctx_gens ri (w_ctx w) k)")
    case True
    then have "latest_record_in snap (w_ctx w) k idx (w_values w) = (prev, vc)"
      using pv same ti(2) by (simp add: is_live_def)
    then show ?thesis using latest_record_result [OF ok ti(2) True] by blast
  next
    case False
    then have "cur_rec (ctx_gens ri (w_ctx w)) (ctx_kv snap (w_ctx w)) k = None"
      using cur_rec_live [where G = "ctx_gens ri (w_ctx w)", OF ctx_ok_key [OF ok(2)]] by blast
    then show ?thesis using False pv ti(2) ok(3) by (simp add: is_live_def)
  qed
  then show "prev = cur_rec (ctx_gens ri (w_ctx w)) (ctx_kv snap (w_ctx w)) k" "cache_fits ri snap n vc" by auto
qed

section \<open>Writing through the context\<close>

text \<open>A context with one more event of \<open>k\<close>: its index, its record and its lease entries.\<close>

definition ctx_write :: "bytes \<Rightarrow> key_index \<Rightarrow> revision \<Rightarrow> kv_record \<Rightarrow> store_batch \<Rightarrow> mvcc_event \<Rightarrow> apply_context \<Rightarrow> apply_context" where
  "ctx_write k idx rv rec leases ev ctx =
     ctx\<lparr>cx_batch := cx_batch ctx @ [KvPut k rv rec] @ leases, cx_idx_cache := fmupd k idx (cx_idx_cache ctx),
         cx_latest := fmupd k rec (cx_latest ctx), cx_events := cx_events ctx @ [ev]\<rparr>"

fun lease_op :: "store_op \<Rightarrow> bool" where
  "lease_op (LeaseKeyPut _) = True"
| "lease_op (LeaseKeyDelete _) = True"
| "lease_op _ = False"

lemma lease_row_op: "lease_op op \<Longrightarrow> row_op op"
  by (cases op) auto

lemma lease_ops_kv: "list_all lease_op ops \<Longrightarrow> t_kv (engine_commit e ops) = t_kv e"
proof (induction ops arbitrary: e)
  case (Cons op ops)
  then show ?case by (cases op) auto
qed simp

lemma lease_switch_ops: "list_all lease_op (lease_switch a b k)"
  by (simp add: lease_switch_def)

lemma ctx_write_gens: "ctx_gens ri (ctx_write k idx rv rec ls ev ctx) = (ctx_gens ri ctx)(k := i_generations idx)"
  by (auto simp: ctx_gens_def ctx_write_def fun_eq_iff)

lemma ctx_write_kv:
  "list_all lease_op ls \<Longrightarrow> ctx_kv snap (ctx_write k idx rv rec ls ev ctx) = (ctx_kv snap ctx)((k, rv) \<mapsto> rec)"
  by (auto simp: ctx_kv_def eng_kv_def ctx_write_def lease_ops_kv fun_eq_iff)

lemma lease_switch_lk:
  "eng_lk (engine_commit e (lease_switch old new k)) x \<longleftrightarrow>
     (if old = new then eng_lk e x
      else (eng_lk e x \<and> \<not> (old \<noteq> 0 \<and> x = lease_key_index old k)) \<or> new \<noteq> 0 \<and> x = lease_key_index new k)"
  by (auto simp: lease_switch_def eng_lk_def)

lemma ctx_write_lk: "ctx_lk snap (ctx_write k idx rv rec ls ev ctx) = eng_lk (engine_commit (engine_commit snap (cx_batch ctx) \<lparr>t_kv := fmupd (k, rv) rec (t_kv (engine_commit snap (cx_batch ctx)))\<rparr>) ls)"
  by (simp add: ctx_lk_def ctx_write_def)

lemma ctx_write_ok:
  assumes ctx: "ctx_ok ri snap n b ctx" and rv: "n < rmain rv" "b \<le> b'"
    and idx: "i_key idx = k" "hist (i_generations idx) = hist (ctx_gens ri ctx k) @ [(rv, d)]" "i_generations idx \<noteq> []"
    and ls: "list_all lease_op ls"
    and tab: "tables_ok b' ((ctx_gens ri ctx)(k := i_generations idx)) ((ctx_kv snap ctx)((k, rv) \<mapsto> rec))
          (ctx_lk snap (ctx_write k idx rv rec ls ev ctx))"
    and at: "\<And>r. r < rv \<Longrightarrow> at_rec ((ctx_gens ri ctx)(k := i_generations idx)) ((ctx_kv snap ctx)((k, rv) \<mapsto> rec)) r =
          at_rec (ctx_gens ri ctx) (ctx_kv snap ctx) r"
  shows "ctx_ok ri snap n b' (ctx_write k idx rv rec ls ev ctx)" (is "ctx_ok _ _ _ _ ?ctx")
proof -
  note n = rv(1)
  have "Revision (n + 1) 0 \<le> b" using ctx by (simp add: ctx_ok_def)
  then have b': "Revision (n + 1) 0 \<le> b'" using rv by order
  have kv: "ctx_kv snap ?ctx = (ctx_kv snap ctx)((k, rv) \<mapsto> rec)" by (rule ctx_write_kv [OF ls])
  have lt: "r < rv" if "rmain r \<le> n" for r using that n by (simp add: less_revision_def)
  show ?thesis
    unfolding ctx_ok_def ctx_write_gens kv
  proof (intro conjI allI impI)
    show "tables_ok b' ((ctx_gens ri ctx)(k := i_generations idx)) ((ctx_kv snap ctx)((k, rv) \<mapsto> rec)) (ctx_lk snap ?ctx)"
      by (rule tab)
    show "Revision (n + 1) 0 \<le> b'" by (rule b')
    show "list_all row_op (cx_batch ?ctx)"
      using ctx ls lease_row_op by (auto simp: ctx_ok_def ctx_write_def list_all_iff)
    fix j i assume "fmlookup (cx_idx_cache ?ctx) j = Some i"
    then have j: "(j = k \<and> i = idx) \<or> (j \<noteq> k \<and> fmlookup (cx_idx_cache ctx) j = Some i)"
      by (auto simp: ctx_write_def split: if_splits)
    have old: "i_key i = j \<and> i_generations i \<noteq> [] \<and> n < rmain (fst (last (hist (i_generations i))))"
      if "fmlookup (cx_idx_cache ctx) j = Some i" using that ctx by (simp add: ctx_ok_def)
    show "i_key i = j" "i_generations i \<noteq> []" "n < rmain (fst (last (hist (i_generations i))))"
      using j old idx n by auto
  next
    fix j
    show "fmlookup (cx_latest ?ctx) j = (case fmlookup (cx_idx_cache ?ctx) j of
        Some i \<Rightarrow> ((ctx_kv snap ctx)((k, rv) \<mapsto> rec)) (j, fst (last (hist (i_generations i)))) | None \<Rightarrow> None)"
    proof (cases "j = k")
      case True
      then show ?thesis using idx(2) by (simp add: ctx_write_def)
    next
      case False
      then show ?thesis using ctx by (simp add: ctx_write_def ctx_ok_def split: option.split)
    qed
  next
    fix j r
    assume "fmlookup (cx_idx_cache ?ctx) j = None \<or> rmain r \<le> n"
    then have "(j, r) \<noteq> (k, rv) \<and> (fmlookup (cx_idx_cache ctx) j = None \<or> rmain r \<le> n)"
      using n by (auto simp: ctx_write_def split: if_splits)
    then show "((ctx_kv snap ctx)((k, rv) \<mapsto> rec)) (j, r) = eng_kv snap (j, r)"
      using ctx by (auto simp: ctx_ok_def)
  next
    fix r assume "rmain r \<le> n"
    then show "at_rec ((ctx_gens ri ctx)(k := i_generations idx)) ((ctx_kv snap ctx)((k, rv) \<mapsto> rec)) r =
        at_rec (ri_gens ri) (eng_kv snap) r"
      using at [OF lt] ctx by (simp add: ctx_ok_def)
  qed
qed

lemma ctx_write_events [simp]:
  "cx_events (ctx_write k idx rv rec ls ev ctx) = cx_events ctx @ [ev]"
  "cx_marks (ctx_write k idx rv rec ls ev ctx) = cx_marks ctx"
  by (simp_all add: ctx_write_def)

lemma models_put:
  assumes "models ri snap ctx S" "i_generations idx = fst (gens_put (ctx_gens ri ctx k) rv)" "list_all lease_op ls"
  shows "models ri snap (ctx_write k idx rv rec ls ev ctx)
    \<lparr>km_map = fmupd k rec (km_map S), km_index = fmupd k (puts_of (ctx_gens ri ctx k) + 1) (km_index S)\<rparr>"
  using assms(1) unfolding models_def ctx_write_gens ctx_write_kv [OF assms(3)] assms(2) cur_rec_put
  by (simp add: puts_of_put)

lemma models_delete:
  assumes "models ri snap ctx S" "i_generations idx = fst (gens_delete (ctx_gens ri ctx k) rv)" "list_all lease_op ls"
    and "ctx_gens ri ctx k \<noteq> []"
  shows "models ri snap (ctx_write k idx rv rec ls ev ctx) (kill (k, p) S)"
  using assms(1,4) unfolding models_def ctx_write_gens ctx_write_kv [OF assms(3)] assms(2) cur_rec_delete kill_def
  by (simp add: puts_of_delete)

lemma put_in_context:
  assumes ok: "work_ok ri snap n b w" and rv: "n < rmain rv" "b \<le> b'" "gens_below (ctx_gens ri (w_ctx w) k) rv" "rv < b'" "rv_ok rv"
    and idx: "i_key idx = k" "i_generations idx = fst (gens_put (ctx_gens ri (w_ctx w) k) rv)"
    and rec: "r_key rec = k" "r_mod_revision rec = rmain rv" "\<not> r_deleted rec" "i64_ok (r_lease rec)"
      "r_create_revision rec = rmain (snd (snd (gens_put (ctx_gens ri (w_ctx w) k) rv)))"
    and old: "old = (case cur_rec (ctx_gens ri (w_ctx w)) (ctx_kv snap (w_ctx w)) k of Some p \<Rightarrow> r_lease p | None \<Rightarrow> 0)"
  shows "ctx_ok ri snap n b' (ctx_write k idx rv rec (lease_switch old (r_lease rec) k) ev (w_ctx w))"
proof -
  have ctx: "ctx_ok ri snap n b (w_ctx w)" using ok by (simp add: work_ok_def)
  have rok: "rec_ok k rv False rec" using rec rv(5) by (simp add: rec_ok_def)
  let ?ls = "lease_switch old (r_lease rec) k"
  let ?e = "engine_commit snap (cx_batch (w_ctx w))"
  have oldL: "ctx_lk snap (w_ctx w) (lease_key_index old k)" if nz: "old \<noteq> 0"
  proof -
    have "lease_index (cur_rec (ctx_gens ri (w_ctx w)) (ctx_kv snap (w_ctx w))) (ctx_lk snap (w_ctx w))"
      using ctx_ok_tables [OF ctx] by (simp add: tables_ok_def)
    moreover obtain p where "cur_rec (ctx_gens ri (w_ctx w)) (ctx_kv snap (w_ctx w)) k = Some p" "r_lease p = old"
      using old nz by (auto split: option.splits)
    ultimately show ?thesis using nz unfolding lease_index_def by blast
  qed
  have lk: "\<forall>x. ctx_lk snap (ctx_write k idx rv rec ?ls ev (w_ctx w)) x \<longleftrightarrow>
      (ctx_lk snap (w_ctx w) x \<and> \<not> (old \<noteq> 0 \<and> x = lease_key_index old k)) \<or>
      r_lease rec \<noteq> 0 \<and> x = lease_key_index (r_lease rec) k"
  proof
    fix x
    have "ctx_lk snap (ctx_write k idx rv rec ?ls ev (w_ctx w)) x \<longleftrightarrow>
      (if old = r_lease rec then ctx_lk snap (w_ctx w) x
       else (ctx_lk snap (w_ctx w) x \<and> \<not> (old \<noteq> 0 \<and> x = lease_key_index old k)) \<or>
         r_lease rec \<noteq> 0 \<and> x = lease_key_index (r_lease rec) k)"
      unfolding ctx_write_lk lease_switch_lk by (simp add: eng_lk_def ctx_lk_def)
    then show "ctx_lk snap (ctx_write k idx rv rec ?ls ev (w_ctx w)) x \<longleftrightarrow>
      (ctx_lk snap (w_ctx w) x \<and> \<not> (old \<noteq> 0 \<and> x = lease_key_index old k)) \<or>
      r_lease rec \<noteq> 0 \<and> x = lease_key_index (r_lease rec) k"
      using oldL by (cases "old = r_lease rec") auto
  qed
  note put = tables_put [OF ctx_ok_tables [OF ctx] rv(3,4,2) rok rec(5) lk old]
  show ?thesis
    by (rule ctx_write_ok [where d = False, OF ctx rv(1,2) idx(1)])
      (use idx put lease_switch_ops in simp_all)
qed

lemma delete_in_context:
  assumes ok: "work_ok ri snap n b w" and rv: "n < rmain rv" "b \<le> b'" "gens_below (ctx_gens ri (w_ctx w) k) rv" "rv < b'" "rv_ok rv"
    and idx: "i_key idx = k" "i_generations idx = fst (gens_delete (ctx_gens ri (w_ctx w) k) rv)"
    and p: "cur_rec (ctx_gens ri (w_ctx w)) (ctx_kv snap (w_ctx w)) k = Some p"
  shows "ctx_ok ri snap n b' (ctx_write k idx rv (tombstone_record k rv)
    (if r_lease p \<noteq> 0 then [LeaseKeyDelete (lease_key_index (r_lease p) k)] else []) ev (w_ctx w))"
proof -
  have ctx: "ctx_ok ri snap n b (w_ctx w)" using ok by (simp add: work_ok_def)
  have rok: "rec_ok k rv True (tombstone_record k rv)"
    using rv(5) by (simp add: rec_ok_def tombstone_record_def i64_defs)
  have live: "gens_live (ctx_gens ri (w_ctx w) k)"
    using cur_rec_live [where G = "ctx_gens ri (w_ctx w)", OF ctx_ok_key [OF ctx]] p by blast
  let ?ls = "if r_lease p \<noteq> 0 then [LeaseKeyDelete (lease_key_index (r_lease p) k)] else []"
  have lk: "\<forall>x. ctx_lk snap (ctx_write k idx rv (tombstone_record k rv) ?ls ev (w_ctx w)) x \<longleftrightarrow>
      ctx_lk snap (w_ctx w) x \<and> \<not> (r_lease p \<noteq> 0 \<and> x = lease_key_index (r_lease p) k)"
    unfolding ctx_write_lk by (auto simp: eng_lk_def ctx_lk_def)
  have old: "r_lease p = (case cur_rec (ctx_gens ri (w_ctx w)) (ctx_kv snap (w_ctx w)) k of Some p \<Rightarrow> r_lease p | None \<Rightarrow> 0)"
    using p by simp
  note del = tables_delete [OF ctx_ok_tables [OF ctx] rv(3,4,2) rok live lk old]
  show ?thesis
    by (rule ctx_write_ok [where d = True, OF ctx rv(1,2) idx(1)])
      (use idx del hist_gens_delete [OF live] live in \<open>auto simp: gens_live_def\<close>)
qed

section \<open>Mutations\<close>

text \<open>What the tables show of revisions before \<open>m\<close> stays as it was.\<close>

definition past_kept :: "resident_index \<Rightarrow> engine \<Rightarrow> int \<Rightarrow> apply_context \<Rightarrow> apply_context \<Rightarrow> bool" where
  "past_kept ri snap m ctx ctx' \<longleftrightarrow>
     (\<forall>r. rmain r < m \<longrightarrow>
        at_rec (ctx_gens ri ctx') (ctx_kv snap ctx') r = at_rec (ctx_gens ri ctx) (ctx_kv snap ctx) r)"

lemma past_kept_refl [simp]: "past_kept ri snap m ctx ctx"
  by (simp add: past_kept_def)

lemma past_kept_trans: "past_kept ri snap m a b \<Longrightarrow> past_kept ri snap m b c \<Longrightarrow> past_kept ri snap m a c"
  by (simp add: past_kept_def)

lemma ctx_write_past:
  assumes ctx: "ctx_ok ri snap n b ctx" and new: "ctx_ok ri snap n b' (ctx_write k idx rv rec ls ev ctx)"
    and h: "hist (i_generations idx) = hist (ctx_gens ri ctx k) @ [(rv, d)]" and ls: "list_all lease_op ls"
  shows "past_kept ri snap (rmain rv) ctx (ctx_write k idx rv rec ls ev ctx)"
proof -
  have "gens_ok (i_generations idx)"
    using key_ok_gens [OF ctx_ok_key [OF new, of k]] by (simp add: ctx_write_gens)
  note at = at_rec_append [where G = "ctx_gens ri ctx", OF key_ok_gens [OF ctx_ok_key [OF ctx]] this h]
  have "r < rv" if "rmain r < rmain rv" for r using that by (simp add: less_revision_def)
  then show ?thesis using at unfolding past_kept_def ctx_write_gens ctx_write_kv [OF ls] by blast
qed

text \<open>A step from work state \<open>w\<close> to \<open>w'\<close> at revision \<open>m\<close> that adds the events \<open>es\<close> and stands for
  \<open>S'\<close>.\<close>

definition step_to ::
  "resident_index \<Rightarrow> engine \<Rightarrow> int \<Rightarrow> int \<Rightarrow> revision \<Rightarrow> work \<Rightarrow> mvcc_event list \<Rightarrow> kv_model \<Rightarrow> work \<Rightarrow> bool" where
  "step_to ri snap n m b w es S' w' \<longleftrightarrow>
     work_ok ri snap n b w' \<and> models ri snap (w_ctx w') S' \<and> past_kept ri snap m (w_ctx w) (w_ctx w') \<and>
     cx_events (w_ctx w') = cx_events (w_ctx w) @ es \<and> cx_marks (w_ctx w') = cx_marks (w_ctx w)"

lemma apply_put_look:
  "apply_put ri snap rv k v l iv il pkv w =
     (case look_prev ri snap k w of (((idx, from_ctx), ctx), prev, vc) \<Rightarrow>
        if (iv \<or> il) \<and> prev = None
        then (Inl (Refused KeyNotFound), w\<lparr>w_ctx := restore_index idx from_ctx ctx, w_values := vc\<rparr>)
        else
          let (idx', version, created) = record_put idx rv;
              rec = \<lparr>r_key = k, r_value = (if iv then r_value (the prev) else v), r_create_revision = rmain created,
                     r_mod_revision = rmain rv, r_version = version,
                     r_lease = (if il then r_lease (the prev) else l), r_deleted = False\<rparr>;
              old = (case prev of Some p \<Rightarrow> r_lease p | None \<Rightarrow> 0)
          in (Inr (\<lparr>mr_n = 1, mr_prev_kvs = (if pkv then option_list prev else [])\<rparr>, True),
              w\<lparr>w_ctx := ctx_write k idx' rv rec (lease_switch old (r_lease rec) k)
                   \<lparr>ev_kind = EvPut, ev_kv = rec, ev_prev_kv = prev\<rparr> ctx, w_values := vc\<rparr>))"
  by (simp add: apply_put_def look_prev_def ctx_write_def Let_def split_def split: if_split)

lemma ctx_write_drop [simp]:
  "ctx_write k idx rv rec ls ev (ctx\<lparr>cx_idx_cache := fmdrop k (cx_idx_cache ctx)\<rparr>) = ctx_write k idx rv rec ls ev ctx"
  by (simp add: ctx_write_def)

lemma models_index:
  assumes "models ri snap ctx S"
  shows "(case fmlookup (km_index S) k of Some n \<Rightarrow> n + 1 | None \<Rightarrow> 1) = puts_of (ctx_gens ri ctx k) + 1"
  using assms by (simp add: models_def puts_of_def gens_live_def)

lemma apply_put_sim:
  assumes ok: "work_ok ri snap n b w" and S: "models ri snap (w_ctx w) S"
    and rv: "n < rmain rv" "b \<le> b'" "gens_below (ctx_gens ri (w_ctx w) k) rv" "rv < b'" "rv_ok rv"
    and l: "i64_ok l"
  shows "case spec_put (rmain rv) k v l iv il pkv S of
      Inl e \<Rightarrow> \<exists>w'. apply_put ri snap rv k v l iv il pkv w = (Inl e, w') \<and> w_ctx w' = w_ctx w \<and> work_ok ri snap n b w'
    | Inr (res, es, S') \<Rightarrow> \<exists>w'. apply_put ri snap rv k v l iv il pkv w = (Inr (res, True), w') \<and>
        es \<noteq> [] \<and> step_to ri snap n (rmain rv) b' w es S' w'"
proof -
  let ?G = "ctx_gens ri (w_ctx w)" and ?K = "ctx_kv snap (w_ctx w)"
  obtain idx from_ctx ctx prev vc where lp: "look_prev ri snap k w = (((idx, from_ctx), ctx), prev, vc)"
    by (metis prod.collapse)
  note lpr = look_prev_result [OF ok lp]
  have prev: "fmlookup (km_map S) k = prev" using S lpr(1) by (simp add: models_def)
  show ?thesis
  proof (cases "(iv \<or> il) \<and> prev = None")
    case True
    then show ?thesis using ok lpr(2,6)
      by (simp add: spec_put_def prev apply_put_look lp work_ok_def Let_def)
  next
    case False
    have key: "key_ok k (?G k) ?K" by (rule work_ok_key [OF ok])
    obtain idx' version created where rp: "record_put idx rv = (idx', version, created)" by (metis prod_cases3)
    then have idx': "i_key idx' = k" "i_generations idx' = fst (gens_put (?G k) rv)"
      "version = puts_of (?G k) + 1" "created = snd (snd (gens_put (?G k) rv))"
      using lpr(3,4) by (auto simp: record_put_def Let_def gens_put_version [where rv = rv, symmetric] split: prod.splits)
    let ?rec = "\<lparr>r_key = k, r_value = (if iv then r_value (the prev) else v), r_create_revision = rmain created,
       r_mod_revision = rmain rv, r_version = version, r_lease = (if il then r_lease (the prev) else l), r_deleted = False\<rparr>"
    let ?old = "case prev of Some p \<Rightarrow> r_lease p | None \<Rightarrow> 0"
    have lease: "i64_ok (r_lease ?rec)"
      using l False cur_rec_ok(3) [where G = ?G, OF key] lpr(1) by (cases prev) auto
    let ?c = "ctx_write k idx' rv ?rec (lease_switch ?old (r_lease ?rec) k)
        \<lparr>ev_kind = EvPut, ev_kv = ?rec, ev_prev_kv = prev\<rparr> (w_ctx w)"
    let ?w' = "w\<lparr>w_ctx := ?c, w_values := vc\<rparr>"
    have okc: "ctx_ok ri snap n b' ?c"
      using put_in_context [OF ok rv idx'(1,2) _ _ _ lease] idx'(4) lpr(1) by simp
    have ctx: "ctx_ok ri snap n b (w_ctx w)" using ok by (simp add: work_ok_def)
    have "past_kept ri snap (rmain rv) (w_ctx w) ?c"
      by (rule ctx_write_past [where d = False, OF ctx okc _ lease_switch_ops]) (simp add: idx'(2))
    moreover from okc have okw: "work_ok ri snap n b' ?w'" using ok lpr(2) by (simp add: work_ok_def)
    moreover have "models ri snap (w_ctx ?w') \<lparr>km_map = fmupd k ?rec (km_map S), km_index = fmupd k (puts_of (?G k) + 1) (km_index S)\<rparr>"
      using models_put [OF S idx'(2) lease_switch_ops] by simp
    moreover have "rmain created = (case prev of Some p \<Rightarrow> r_create_revision p | None \<Rightarrow> rmain rv)"
      using gens_put_created [where G = ?G, OF key, of rv] idx'(4) lpr(1) by simp
    moreover have "apply_put ri snap rv k v l iv il pkv w =
        (Inr (\<lparr>mr_n = 1, mr_prev_kvs = (if pkv then option_list prev else [])\<rparr>, True), ?w')"
      using False by (simp add: apply_put_look lp rp lpr(5) Let_def)
    ultimately show ?thesis
      using okw False prev models_index [OF S, of k] idx'(3)
      by (simp add: spec_put_def step_to_def Let_def)
  qed
qed

text \<open>Deleting one key.\<close>

lemma delete_key_look:
  "delete_key ri snap rv pkv k (res, w) =
     (case look_prev ri snap k w of (((idx, from_ctx), ctx), prev, vc) \<Rightarrow>
        let (idx', closed) = record_delete idx rv in
        if \<not> closed then (res, w\<lparr>w_ctx := restore_index idx' from_ctx ctx, w_values := vc\<rparr>)
        else (res\<lparr>mr_n := mr_n res + 1,
                  mr_prev_kvs := mr_prev_kvs res @ (if pkv then option_list prev else [])\<rparr>,
              w\<lparr>w_ctx := ctx_write k idx' rv (tombstone_record k rv)
                   (case prev of Some p \<Rightarrow> if r_lease p \<noteq> 0 then [LeaseKeyDelete (lease_key_index (r_lease p) k)] else []
                     | None \<Rightarrow> [])
                   \<lparr>ev_kind = EvDelete, ev_kv = tombstone_record k rv, ev_prev_kv = prev\<rparr> ctx, w_values := vc\<rparr>))"
  by (simp add: delete_key_def look_prev_def ctx_write_def Let_def split_def)

lemma tombstone_record_main: "tombstone_record k rv = tombstone_record k (Revision (rmain rv) 0)"
  by (simp add: tombstone_record_def)

lemma delete_key_sim:
  assumes ok: "work_ok ri snap n b w" and S: "models ri snap (w_ctx w) S"
    and rv: "n < rmain rv" "b \<le> b'" "gens_below (ctx_gens ri (w_ctx w) k) rv" "rv < b'" "rv_ok rv"
    and p: "fmlookup (km_map S) k = Some p"
  shows "\<exists>w'. delete_key ri snap rv pkv k (res, w) =
      (res\<lparr>mr_n := mr_n res + 1, mr_prev_kvs := mr_prev_kvs res @ (if pkv then [p] else [])\<rparr>, w') \<and>
    step_to ri snap n (rmain rv) b' w [delete_event (rmain rv) (k, p)] (kill (k, p) S) w' \<and>
    (\<forall>j. j \<noteq> k \<longrightarrow> ctx_gens ri (w_ctx w') j = ctx_gens ri (w_ctx w) j)"
proof -
  let ?G = "ctx_gens ri (w_ctx w)" and ?K = "ctx_kv snap (w_ctx w)"
  obtain idx from_ctx ctx prev vc where lp: "look_prev ri snap k w = (((idx, from_ctx), ctx), prev, vc)"
    by (metis prod.collapse)
  note lpr = look_prev_result [OF ok lp]
  have cur: "cur_rec ?G ?K k = Some p" using S p by (simp add: models_def)
  then have prev: "prev = Some p" using lpr(1) by simp
  have live: "gens_live (?G k)" using cur_rec_live [where G = ?G, OF work_ok_key [OF ok]] cur by blast
  obtain idx' closed where rd: "record_delete idx rv = (idx', closed)" by fastforce
  then have idx': "i_key idx' = k" "i_generations idx' = fst (gens_delete (?G k) rv)" "closed"
    using lpr(3,4) gens_delete_live [of "?G k" rv] live
    by (auto simp: record_delete_def Let_def split: prod.splits)
  let ?ls = "if r_lease p \<noteq> 0 then [LeaseKeyDelete (lease_key_index (r_lease p) k)] else []"
  let ?ev = "\<lparr>ev_kind = EvDelete, ev_kv = tombstone_record k rv, ev_prev_kv = Some p\<rparr>"
  let ?c = "ctx_write k idx' rv (tombstone_record k rv) ?ls ?ev (w_ctx w)"
  let ?w' = "w\<lparr>w_ctx := ?c, w_values := vc\<rparr>"
  have okc: "ctx_ok ri snap n b' ?c" by (rule delete_in_context [OF ok rv idx'(1,2) cur])
  have ctx: "ctx_ok ri snap n b (w_ctx w)" using ok by (simp add: work_ok_def)
  have "past_kept ri snap (rmain rv) (w_ctx w) ?c"
    by (rule ctx_write_past [where d = True, OF ctx okc]) (simp_all add: idx'(2) hist_gens_delete [OF live])
  moreover from okc have "work_ok ri snap n b' ?w'" using ok lpr(2) by (simp add: work_ok_def)
  moreover have "models ri snap (w_ctx ?w') (kill (k, p) S)"
    using models_delete [OF S idx'(2), of ?ls] live by (simp add: gens_live_def)
  ultimately show ?thesis
    using idx'(3) tombstone_record_main [of k rv]
    by (simp add: delete_key_look lp rd prev lpr(5) step_to_def option_list_def delete_event_def ctx_write_gens)
qed

text \<open>Deleting a list of live keys, all at one revision.\<close>

lemma fold_delete_sim:
  assumes "work_ok ri snap n b w" "models ri snap (w_ctx w) S" "n < rmain rv" "rv < b" "rv_ok rv"
    and "distinct (map fst rows)"
    and "\<forall>(k, p) \<in> set rows. fmlookup (km_map S) k = Some p \<and> gens_below (ctx_gens ri (w_ctx w) k) rv"
  shows "\<exists>w'. fold (delete_key ri snap rv pkv) (map fst rows) (res, w) =
      (\<lparr>mr_n = mr_n res + int (length rows), mr_prev_kvs = mr_prev_kvs res @ (if pkv then map snd rows else [])\<rparr>, w') \<and>
    step_to ri snap n (rmain rv) b w (map (delete_event (rmain rv)) rows) (fold kill rows S) w'"
  using assms(1,2,6,7)
proof (induction rows arbitrary: w S res)
  case Nil
  then show ?case by (simp add: step_to_def)
next
  case (Cons r rows)
  obtain k p where r: "r = (k, p)" by fastforce
  have "fmlookup (km_map S) k = Some p" "gens_below (ctx_gens ri (w_ctx w) k) rv" using Cons.prems(4) r by auto
  from delete_key_sim [OF Cons.prems(1,2) assms(3) order.refl this(2) assms(4,5) this(1), of pkv res]
  obtain w1 where w1: "delete_key ri snap rv pkv k (res, w) =
      (res\<lparr>mr_n := mr_n res + 1, mr_prev_kvs := mr_prev_kvs res @ (if pkv then [p] else [])\<rparr>, w1)"
    "step_to ri snap n (rmain rv) b w [delete_event (rmain rv) (k, p)] (kill (k, p) S) w1"
    "\<forall>j. j \<noteq> k \<longrightarrow> ctx_gens ri (w_ctx w1) j = ctx_gens ri (w_ctx w) j" by blast
  have rest: "\<forall>(j, q) \<in> set rows. fmlookup (km_map (kill (k, p) S)) j = Some q \<and> gens_below (ctx_gens ri (w_ctx w1) j) rv"
  proof (clarify)
    fix j q assume jq: "(j, q) \<in> set rows"
    then have "j \<noteq> k" using Cons.prems(3) r by (auto simp: rev_image_eqI)
    then show "fmlookup (km_map (kill (k, p) S)) j = Some q \<and> gens_below (ctx_gens ri (w_ctx w1) j) rv"
      using Cons.prems(4) jq w1(3) by (auto simp: kill_def)
  qed
  let ?res = "res\<lparr>mr_n := mr_n res + 1, mr_prev_kvs := mr_prev_kvs res @ (if pkv then [p] else [])\<rparr>"
  have ok1: "work_ok ri snap n b w1" "models ri snap (w_ctx w1) (kill (k, p) S)" using w1(2) by (simp_all add: step_to_def)
  have "distinct (map fst rows)" using Cons.prems(3) by simp
  from Cons.IH [OF ok1 this rest, of ?res] obtain w' where
    "fold (delete_key ri snap rv pkv) (map fst rows) (?res, w1) =
      (\<lparr>mr_n = mr_n ?res + int (length rows), mr_prev_kvs = mr_prev_kvs ?res @ (if pkv then map snd rows else [])\<rparr>, w')"
    "step_to ri snap n (rmain rv) b w1 (map (delete_event (rmain rv)) rows) (fold kill rows (kill (k, p) S)) w'" by blast
  then show ?case using w1(1,2) r past_kept_trans by (auto simp: step_to_def)
qed

text \<open>The live keys of a range, from the index and the context.\<close>

lemma strict_sorted_keys: "sorted_keys xs \<Longrightarrow> sorted_wrt (<) (map fst xs)"
  by (simp add: sorted_keys_def)

lemma strict_sorted_sort: "distinct (xs :: 'a::linorder list) \<Longrightarrow> sorted_wrt (<) (sort xs)"
  by (simp add: strict_sorted_iff)

lemma rows_of_sorted: "sorted_keys (rows_of key range_end M)"
  unfolding rows_of_def by (simp add: sorted_keys_filter)

lemma rows_of_iff: "(k, rec) \<in> set (rows_of key range_end M) \<longleftrightarrow> fmlookup M k = Some rec \<and> in_range k key range_end"
  by (auto simp: rows_of_def)

lemma fst_rows_of: "fst ` set (rows_of key range_end M) = {k. in_range k key range_end \<and> fmlookup M k \<noteq> None}"
proof -
  have "k \<in> fst ` set (rows_of key range_end M) \<longleftrightarrow> (\<exists>rec. (k, rec) \<in> set (rows_of key range_end M))" for k by force
  then show ?thesis by (auto simp: rows_of_iff)
qed

text \<open>The rows of the resident index a range covers.\<close>

definition index_rows :: "resident_index \<Rightarrow> bytes \<Rightarrow> bytes \<Rightarrow> (bytes \<times> generation list) list" where
  "index_rows ri key range_end =
     (case index_bounds key range_end of Some (lo, hi) \<Rightarrow> idx_range ri lo hi | None \<Rightarrow> [])"

lemma index_rows_iff:
  "(k, g) \<in> set (index_rows ri key range_end) \<longleftrightarrow> fmlookup (ri_map ri) k = Some g \<and> in_range k key range_end"
  unfolding index_rows_def in_range_index_bounds
  by (cases "index_bounds key range_end") (auto simp: idx_range_def)

lemma index_rows_sorted: "sorted_keys (index_rows ri key range_end)"
  unfolding index_rows_def by (cases "index_bounds key range_end") (auto simp: idx_range_def)

lemma in_map_fst_filter: "k \<in> set (map fst (filter P xs)) \<longleftrightarrow> (\<exists>v. (k, v) \<in> set xs \<and> P (k, v))"
  by force

definition live_row :: "apply_context \<Rightarrow> bytes \<times> generation list \<Rightarrow> bool" where
  "live_row ctx p = (case fmlookup (cx_idx_cache ctx) (fst p) of Some c \<Rightarrow> is_live c | None \<Rightarrow> gens_live (snd p))"

definition index_live_keys :: "resident_index \<Rightarrow> apply_context \<Rightarrow> bytes \<Rightarrow> bytes \<Rightarrow> bytes list" where
  "index_live_keys ri ctx key range_end = map fst (filter (live_row ctx) (index_rows ri key range_end))"

definition created_keys :: "resident_index \<Rightarrow> apply_context \<Rightarrow> bytes \<Rightarrow> bytes \<Rightarrow> bytes list" where
  "created_keys ri ctx key range_end =
     map fst (filter (\<lambda>(k, idx). in_range k key range_end \<and> is_live idx \<and> k \<notin> set (index_live_keys ri ctx key range_end))
       (sorted_list_of_fmap (cx_idx_cache ctx)))"

lemma live_keys_split:
  "live_keys_in_range ri ctx key range_end =
     (let keys = index_live_keys ri ctx key range_end; created = created_keys ri ctx key range_end
      in if created \<noteq> [] then sort (keys @ created) else keys)"
proof -
  have "(\<lambda>(k, gens). case fmlookup (cx_idx_cache ctx) k of Some c \<Rightarrow> is_live c | None \<Rightarrow> gens_live gens) = live_row ctx"
    by (auto simp: live_row_def fun_eq_iff split: option.split)
  then have "(case index_bounds key range_end of
      Some (lo, hi) \<Rightarrow> map fst (filter (\<lambda>(k, gens). case fmlookup (cx_idx_cache ctx) k of
          Some c \<Rightarrow> is_live c | None \<Rightarrow> gens_live gens) (idx_range ri lo hi))
    | None \<Rightarrow> []) = index_live_keys ri ctx key range_end"
    by (cases "index_bounds key range_end") (auto simp: index_live_keys_def index_rows_def)
  then show ?thesis unfolding live_keys_in_range_def created_keys_def by simp
qed

lemma live_row_gens:
  "fmlookup (ri_map ri) k = Some g \<Longrightarrow> live_row ctx (k, g) \<longleftrightarrow> gens_live (ctx_gens ri ctx k)"
  by (cases "fmlookup (cx_idx_cache ctx) k") (simp_all add: live_row_def ctx_gens_def ri_gens_def is_live_def)

lemma in_index_live_keys:
  "k \<in> set (index_live_keys ri ctx key range_end) \<longleftrightarrow>
     in_range k key range_end \<and> fmlookup (ri_map ri) k \<noteq> None \<and> gens_live (ctx_gens ri ctx k)"
  unfolding index_live_keys_def in_map_fst_filter index_rows_iff
  using live_row_gens [of ri k _ ctx] by (cases "fmlookup (ri_map ri) k") auto

lemma in_created_keys:
  "k \<in> set (created_keys ri ctx key range_end) \<longleftrightarrow> k \<notin> set (index_live_keys ri ctx key range_end) \<and>
     in_range k key range_end \<and> fmlookup (cx_idx_cache ctx) k \<noteq> None \<and> gens_live (ctx_gens ri ctx k)"
  unfolding created_keys_def in_map_fst_filter in_sorted_list_of_fmap
  by (cases "fmlookup (cx_idx_cache ctx) k") (auto simp: ctx_gens_def is_live_def)

lemma live_keys_sorted: "sorted_wrt (<) (live_keys_in_range ri ctx key range_end)"
proof -
  have sk: "sorted_wrt (<) (index_live_keys ri ctx key range_end)"
    unfolding index_live_keys_def by (intro strict_sorted_keys sorted_keys_filter index_rows_sorted)
  have sc: "sorted_wrt (<) (created_keys ri ctx key range_end)"
    unfolding created_keys_def by (intro strict_sorted_keys sorted_keys_filter sorted_keys_sorted_list_of_fmap)
  have "distinct (index_live_keys ri ctx key range_end @ created_keys ri ctx key range_end)"
    using sk sc in_created_keys [of _ ri ctx key range_end] unfolding strict_sorted_iff by auto
  from strict_sorted_sort [OF this] sk show ?thesis unfolding live_keys_split Let_def by (simp only: if_split) simp
qed

lemma models_live:
  assumes "ctx_ok ri snap n b ctx" "models ri snap ctx S"
  shows "fmlookup (km_map S) k \<noteq> None \<longleftrightarrow> gens_live (ctx_gens ri ctx k)"
  using assms(2) cur_rec_live [where G = "ctx_gens ri ctx", OF ctx_ok_key [OF assms(1)]] unfolding models_def by metis

lemma live_keys_result:
  assumes ok: "ctx_ok ri snap n b ctx" and S: "models ri snap ctx S"
  shows "live_keys_in_range ri ctx key range_end = map fst (rows_of key range_end (km_map S))"
proof (rule strict_sorted_equal [OF strict_sorted_keys [OF rows_of_sorted] live_keys_sorted])
  have "fmlookup (ri_map ri) k \<noteq> None \<or> fmlookup (cx_idx_cache ctx) k \<noteq> None" if "gens_live (ctx_gens ri ctx k)" for k
    using that by (cases "fmlookup (ri_map ri) k"; cases "fmlookup (cx_idx_cache ctx) k")
      (simp_all add: ctx_gens_def ri_gens_def gens_live_def)
  moreover have "set (live_keys_in_range ri ctx key range_end) =
      set (index_live_keys ri ctx key range_end) \<union> set (created_keys ri ctx key range_end)"
    by (auto simp: live_keys_split Let_def)
  ultimately have "k \<in> set (live_keys_in_range ri ctx key range_end) \<longleftrightarrow>
      in_range k key range_end \<and> gens_live (ctx_gens ri ctx k)" for k
    using in_index_live_keys [of k ri ctx key range_end] in_created_keys [of k ri ctx key range_end] by blast
  then show "set (live_keys_in_range ri ctx key range_end) = set (map fst (rows_of key range_end (km_map S)))"
    unfolding set_map fst_rows_of using models_live [OF ok S] by blast
qed

end
