(* ===== verification/Mvcc_Simulation.thy ===== *)
theory Mvcc_Simulation
  imports Mvcc_Refine
begin

text \<open>
  The rest of the simulation between an apply in progress and the specification: whole mutations
  and lists of them, ranges and compares through the context, and the operations of a
  transaction.
\<close>

section \<open>Mutations\<close>

lemma ctx_ok_mono: "ctx_ok ri snap n b ctx \<Longrightarrow> b \<le> b' \<Longrightarrow> ctx_ok ri snap n b' ctx"
  unfolding ctx_ok_def using tables_ok_mono order.trans by blast

lemma work_ok_mono: "work_ok ri snap n b w \<Longrightarrow> b \<le> b' \<Longrightarrow> work_ok ri snap n b' w"
  unfolding work_ok_def using ctx_ok_mono by blast

lemma work_ok_below: "work_ok ri snap n b w \<Longrightarrow> b \<le> rv \<Longrightarrow> gens_below (ctx_gens ri (w_ctx w) k) rv"
  unfolding work_ok_def using ctx_ok_tables tables_ok_below gens_below_mono by blast

lemma work_ok_ctx: "work_ok ri snap n b w \<Longrightarrow> ctx_ok ri snap n b (w_ctx w)"
  by (simp add: work_ok_def)

lemma work_ok_ops [simp]: "work_ok ri snap n b (w\<lparr>w_ops := x\<rparr>) = work_ok ri snap n b w"
  by (simp add: work_ok_def)

lemma step_to_ops [simp]: "step_to ri snap n m b w es S (w'\<lparr>w_ops := x\<rparr>) = step_to ri snap n m b w es S w'"
  by (simp add: step_to_def)

lemma step_to_trans:
  "step_to ri snap n m b w es S1 w1 \<Longrightarrow> step_to ri snap n m b' w1 es' S2 w2 \<Longrightarrow> step_to ri snap n m b' w (es @ es') S2 w2"
  using past_kept_trans by (simp add: step_to_def) blast

text \<open>The lease a put names is an i64, as its type says.\<close>

fun mut_ok :: "mutation \<Rightarrow> bool" where
  "mut_ok (MutPut _ _ l _ _ _) = i64_ok l"
| "mut_ok (MutDeleteRange _ _ _) = True"

definition next_rv :: "revision \<Rightarrow> revision" where
  "next_rv rv = Revision (rmain rv) (rsub rv + 1)"

lemma next_rv_less [simp]: "rv < next_rv rv"
  by (simp add: next_rv_def less_revision_def)

lemma delete_range_sim:
  assumes ok: "work_ok ri snap n b w" and S: "models ri snap (w_ctx w) S"
    and rv: "b \<le> rv" "n < rmain rv" "rv_ok rv"
  shows "\<exists>w'. apply_one_uncounted ri snap rv (MutDeleteRange k e pkv) w =
      (let (res, es, S') = spec_delete_range (rmain rv) k e pkv S in (Inr (res, es \<noteq> []), w')) \<and>
    (let (res, es, S') = spec_delete_range (rmain rv) k e pkv S in
       step_to ri snap n (rmain rv) (next_rv rv) w es S' w' \<and> (es = [] \<longrightarrow> w_ctx w' = w_ctx w))"
proof -
  let ?rows = "rows_of k e (km_map S)"
  have b': "b \<le> next_rv rv" using rv(1) next_rv_less [of rv] by order
  have rows: "\<forall>(j, p) \<in> set ?rows. fmlookup (km_map S) j = Some p \<and> gens_below (ctx_gens ri (w_ctx w) j) rv"
    using work_ok_below [OF ok rv(1)] by (auto simp: rows_of_iff)
  have "distinct (map fst ?rows)" using rows_of_sorted by (rule sorted_keys_distinct)
  from fold_delete_sim [OF work_ok_mono [OF ok b'] S rv(2) next_rv_less rv(3) this rows, of pkv mutation_result_default]
  obtain w' where w': "fold (delete_key ri snap rv pkv) (map fst ?rows) (mutation_result_default, w) =
      (\<lparr>mr_n = int (length ?rows), mr_prev_kvs = (if pkv then map snd ?rows else [])\<rparr>, w')"
    "step_to ri snap n (rmain rv) (next_rv rv) w (map (delete_event (rmain rv)) ?rows) (fold kill ?rows S) w'"
    by (auto simp: mutation_result_default_def)
  then have "?rows = [] \<longrightarrow> w' = w" by auto
  with w' show ?thesis
    using live_keys_result [OF work_ok_ctx [OF ok] S, of k e]
    by (intro exI [of _ w']) (simp add: spec_delete_range_def Let_def)
qed

lemma apply_one_sim:
  assumes ok: "work_ok ri snap n b w" and S: "models ri snap (w_ctx w) S"
    and rv: "b \<le> rv" "n < rmain rv" "rv_ok rv" and m: "mut_ok m"
  shows "case spec_mutation (rmain rv) m S of
      Inl e \<Rightarrow> \<exists>w'. apply_one ri snap rv m w = (Inl e, w') \<and> w_ctx w' = w_ctx w \<and> work_ok ri snap n b w'
    | Inr (res, es, S') \<Rightarrow> \<exists>w'. apply_one ri snap rv m w = (Inr (res, es \<noteq> []), w') \<and>
        step_to ri snap n (rmain rv) (next_rv rv) w es S' w' \<and> (es = [] \<longrightarrow> w_ctx w' = w_ctx w)"
proof (cases m)
  case (MutPut k v l iv il pkv)
  have b': "b \<le> next_rv rv" using rv(1) next_rv_less [of rv] by order
  have "i64_ok l" using m MutPut by simp
  note put = apply_put_sim [OF ok S rv(2) b' work_ok_below [OF ok rv(1)] next_rv_less rv(3) this, of k v iv il pkv]
  show ?thesis
  proof (cases "spec_put (rmain rv) k v l iv il pkv S")
    case (Inl e)
    then show ?thesis using put MutPut by (auto simp: apply_one_def)
  next
    case (Inr x)
    then show ?thesis using put MutPut by (cases x) (auto simp: apply_one_def)
  qed
next
  case (MutDeleteRange k e pkv)
  obtain res es S' where sp: "spec_delete_range (rmain rv) k e pkv S = (res, es, S')" by (metis prod_cases3)
  from delete_range_sim [OF ok S rv, of k e pkv] obtain w' where
    "apply_one_uncounted ri snap rv (MutDeleteRange k e pkv) w = (Inr (res, es \<noteq> []), w')"
    "step_to ri snap n (rmain rv) (next_rv rv) w es S' w'" "es = [] \<longrightarrow> w_ctx w' = w_ctx w" unfolding sp by auto
  then show ?thesis
    unfolding MutDeleteRange apply_one_def spec_mutation.simps sp by (simp del: apply_one_uncounted.simps)
qed

lemma apply_loop_sim:
  assumes "work_ok ri snap n (Revision main (int sub)) w" "models ri snap (w_ctx w) S"
    and "n < main" "0 \<le> n" "int (sub + length ms) \<le> i64_max" "\<forall>m \<in> set ms. mut_ok m"
  shows "case spec_mutations main ms S of
      Inl e \<Rightarrow> \<exists>w'. apply_loop ri snap main sub ms w = (Inl e, w') \<and> cache_fits ri snap n (w_values w') \<and>
        (length ms = 1 \<longrightarrow> w_ctx w' = w_ctx w)
    | Inr (rs, es, S') \<Rightarrow> \<exists>w'. apply_loop ri snap main sub ms w = (Inr (rs, es \<noteq> []), w') \<and>
        step_to ri snap n main (Revision main (int (sub + length ms))) w es S' w' \<and> (es = [] \<longrightarrow> w_ctx w' = w_ctx w)"
  using assms
proof (induction ms arbitrary: sub w S)
  case Nil
  then show ?case by (auto simp: step_to_def)
next
  case (Cons m ms)
  let ?rv = "Revision main (int sub)"
  have rv: "n < rmain ?rv" "rv_ok ?rv" using Cons.prems by (auto simp: rv_ok_def)
  have "mut_ok m" using Cons.prems(6) by simp
  note one = apply_one_sim [OF Cons.prems(1,2) order.refl rv this]
  have nx: "next_rv ?rv = Revision main (int (sub + 1))" by (simp add: next_rv_def)
  show ?case
  proof (cases "spec_mutation main m S")
    case (Inl e)
    then obtain w' where "apply_one ri snap ?rv m w = (Inl e, w')" "w_ctx w' = w_ctx w" "work_ok ri snap n ?rv w'"
      using one by auto
    then show ?thesis using Inl by (auto simp: bind_res_def work_ok_def)
  next
    case (Inr x)
    obtain res es S1 where x: "x = (res, es, S1)" by (metis prod_cases3)
    with Inr one nx obtain w1 where w1: "apply_one ri snap ?rv m w = (Inr (res, es \<noteq> []), w1)"
      "step_to ri snap n main (Revision main (int (sub + 1))) w es S1 w1" "es = [] \<longrightarrow> w_ctx w1 = w_ctx w" by auto
    then have ok1: "work_ok ri snap n (Revision main (int (sub + 1))) w1" "models ri snap (w_ctx w1) S1"
      by (simp_all add: step_to_def)
    have "int (sub + 1 + length ms) \<le> i64_max" "\<forall>m \<in> set ms. mut_ok m" using Cons.prems by auto
    note ih = Cons.IH [OF ok1 Cons.prems(3,4) this]
    show ?thesis
    proof (cases "spec_mutations main ms S1")
      case Inl2: (Inl e)
      then obtain w' where "apply_loop ri snap main (sub + 1) ms w1 = (Inl e, w')" "cache_fits ri snap n (w_values w')"
        using ih by auto
      moreover have "ms \<noteq> []" using Inl2 by auto
      ultimately show ?thesis using Inr x w1(1) Inl2 by (simp add: bind_res_def)
    next
      case Inr2: (Inr y)
      obtain rs es' S2 where y: "y = (rs, es', S2)" by (metis prod_cases3)
      with Inr2 ih obtain w' where w': "apply_loop ri snap main (sub + 1) ms w1 = (Inr (rs, es' \<noteq> []), w')"
        "step_to ri snap n main (Revision main (int (sub + 1 + length ms))) w1 es' S2 w'"
        "es' = [] \<longrightarrow> w_ctx w' = w_ctx w1" by auto
      have "step_to ri snap n main (Revision main (int (sub + length (m # ms)))) w (es @ es') S2 w'"
        using step_to_trans [OF w1(2) w'(2)] by simp
      then show ?thesis using Inr Inr2 x y w1(1,3) w'(1,3) by (simp add: bind_res_def)
    qed
  qed
qed

section \<open>Ranges\<close>

text \<open>The records a read of a revision finds, as one map.\<close>

definition shows_at :: "resident_index \<Rightarrow> engine \<Rightarrow> apply_context \<Rightarrow> revision \<Rightarrow> kv_map \<Rightarrow> bool" where
  "shows_at ri snap ctx r M \<longleftrightarrow> (\<forall>k. fmlookup M k = at_rec (ctx_gens ri ctx) (ctx_kv snap ctx) r k)"

definition hit_of :: "resident_index \<Rightarrow> apply_context \<Rightarrow> revision \<Rightarrow> bytes \<times> kv_record \<Rightarrow> bytes \<times> revision" where
  "hit_of ri ctx r p = (fst p, the (revision_at (ctx_gens ri ctx (fst p)) r))"

definition row_hit :: "apply_context \<Rightarrow> revision \<Rightarrow> bytes \<times> generation list \<Rightarrow> (bytes \<times> revision) option" where
  "row_hit ctx r kg = map_option (Pair (fst kg)) (revision_at
     (case fmlookup (cx_idx_cache ctx) (fst kg) of Some c \<Rightarrow> i_generations c | None \<Rightarrow> snd kg) r)"

definition new_hit ::
  "resident_index \<Rightarrow> bytes \<Rightarrow> bytes \<Rightarrow> revision \<Rightarrow> bytes \<times> key_index \<Rightarrow> (bytes \<times> revision) option" where
  "new_hit ri key range_end r ki =
     (if \<not> in_range (fst ki) key range_end \<or> idx_contains ri (fst ki) then None
      else map_option (Pair (fst ki)) (revision_at (i_generations (snd ki)) r))"

definition capped :: "nat option \<Rightarrow> 'a list \<Rightarrow> 'a list" where
  "capped cap xs = (case cap of None \<Rightarrow> xs | Some n \<Rightarrow> take n xs)"

lemma row_hit_pair:
  "row_hit ctx r (k, g) = map_option (Pair k) (revision_at
     (case fmlookup (cx_idx_cache ctx) k of Some c \<Rightarrow> i_generations c | None \<Rightarrow> g) r)"
  by (cases "fmlookup (cx_idx_cache ctx) k") (simp_all add: row_hit_def)

lemma plan_fold:
  "foldl (plan_step cap ctx r) (capped cap hs, t) rows =
     (capped cap (hs @ List.map_filter (row_hit ctx r) rows), t + int (length (List.map_filter (row_hit ctx r) rows)))"
proof (induction rows arbitrary: hs t)
  case (Cons kg rows)
  obtain k g where kg: "kg = (k, g)" by fastforce
  show ?case
  proof (cases "row_hit ctx r kg")
    case None
    then have "plan_step cap ctx r (capped cap hs, t) kg = (capped cap hs, t)"
      unfolding kg row_hit_pair by (simp add: plan_step_def)
    then show ?thesis using Cons.IH [of hs t] None by (simp add: map_filter_simps)
  next
    case (Some h)
    then have "plan_step cap ctx r (capped cap hs, t) kg = (capped cap (hs @ [h]), t + 1)"
      unfolding kg row_hit_pair by (cases cap) (auto simp: plan_step_def capped_def)
    then show ?thesis using Cons.IH [of "hs @ [h]" "t + 1"] Some by (simp add: map_filter_simps)
  qed
qed (simp add: map_filter_simps)

lemma overlay_fold:
  "foldl (overlay_step ri key range_end r count_only) (hs, t, a) kis =
     (let new = List.map_filter (new_hit ri key range_end r) kis
      in (if count_only then hs else hs @ new, t + int (length new), a \<or> \<not> count_only \<and> new \<noteq> []))"
proof (induction kis arbitrary: hs t a)
  case (Cons ki kis)
  obtain k i where ki: "ki = (k, i)" by fastforce
  show ?case
  proof (cases "new_hit ri key range_end r ki")
    case None
    then have "overlay_step ri key range_end r count_only (hs, t, a) ki = (hs, t, a)"
      unfolding ki by (auto simp: overlay_step_def new_hit_def split: if_splits)
    then show ?thesis using Cons.IH None by (simp add: map_filter_simps)
  next
    case (Some h)
    then have "overlay_step ri key range_end r count_only (hs, t, a) ki =
        (if count_only then (hs, t + 1, a) else (hs @ [h], t + 1, True))"
      unfolding ki by (auto simp: overlay_step_def new_hit_def split: if_splits)
    then show ?thesis using Cons.IH Some by (auto simp: map_filter_simps Let_def)
  qed
qed (simp add: map_filter_simps)

lemma in_map_filter: "y \<in> set (List.map_filter f xs) \<longleftrightarrow> (\<exists>x \<in> set xs. f x = Some y)"
  by (induction xs) (auto simp: map_filter_simps split: option.splits)

lemma map_filter_sorted:
  assumes "sorted_keys xs" "\<And>x y. f x = Some y \<Longrightarrow> fst y = fst x"
  shows "sorted_keys (List.map_filter f xs)"
  using assms(1)
proof (induction xs)
  case (Cons x xs)
  then have ih: "sorted_keys (List.map_filter f xs)" by (simp add: sorted_keys_Cons)
  have "fst x < fst y" if "y \<in> set (List.map_filter f xs)" for y
    using that Cons.prems assms(2) by (metis in_map_filter sorted_keys_Cons)
  then show ?case
    using ih assms(2) by (cases "f x") (simp_all add: map_filter_simps sorted_keys_Cons)
qed (simp add: map_filter_simps)

lemma sorted_keys_sort_key:
  "distinct (map fst xs) \<Longrightarrow> sorted_keys (sort_key fst (xs :: ('a::linorder \<times> 'b) list))"
  unfolding sorted_keys_def strict_sorted_iff by (simp add: distinct_map)

lemma sorted_keys_set_eq:
  assumes "sorted_keys xs" "sorted_keys ys" "set xs = set ys"
  shows "xs = ys"
  using sorted_keys_unique [OF assms(1,2)] sorted_keys_map_of [OF assms(1)] sorted_keys_map_of [OF assms(2)] assms(3)
  by (metis not_Some_eq ext)

lemma at_rec_revision:
  assumes "key_ok k (G k) K"
  shows "at_rec G K r k \<noteq> None \<longleftrightarrow> revision_at (G k) r \<noteq> None"
proof (cases "revision_at (G k) r")
  case (Some rv)
  then obtain rec where "K (k, rv) = Some rec"
    using key_ok_get [OF assms revision_at_in_hist(1) [OF key_ok_gens [OF assms] Some]] by metis
  then show ?thesis using Some by (simp add: at_rec_def)
qed (simp add: at_rec_def)

definition all_hits :: "resident_index \<Rightarrow> apply_context \<Rightarrow> revision \<Rightarrow> bytes \<Rightarrow> bytes \<Rightarrow> kv_map \<Rightarrow> (bytes \<times> revision) list" where
  "all_hits ri ctx r key range_end M = map (hit_of ri ctx r) (rows_of key range_end M)"

lemma all_hits_sorted: "sorted_keys (all_hits ri ctx r key range_end M)"
  using rows_of_sorted [of key range_end M]
  by (simp add: all_hits_def sorted_keys_def sorted_wrt_map hit_of_def)

lemma all_hits_iff:
  assumes "ctx_ok ri snap n b ctx" "shows_at ri snap ctx r M"
  shows "(k, rv) \<in> set (all_hits ri ctx r key range_end M) \<longleftrightarrow>
    in_range k key range_end \<and> revision_at (ctx_gens ri ctx k) r = Some rv"
proof -
  have "fmlookup M k \<noteq> None \<longleftrightarrow> revision_at (ctx_gens ri ctx k) r \<noteq> None"
    using at_rec_revision [where G = "ctx_gens ri ctx", OF ctx_ok_key [OF assms(1)]] assms(2)
    unfolding shows_at_def by metis
  moreover have "(k, rv) \<in> set (all_hits ri ctx r key range_end M) \<longleftrightarrow>
      (\<exists>rec. (k, rec) \<in> set (rows_of key range_end M) \<and> rv = the (revision_at (ctx_gens ri ctx k) r))"
    unfolding all_hits_def hit_of_def by force
  ultimately show ?thesis by (auto simp: rows_of_iff)
qed

lemma row_hits_iff:
  "(k, rv) \<in> set (List.map_filter (row_hit ctx r) (index_rows ri key range_end)) \<longleftrightarrow>
     in_range k key range_end \<and> fmlookup (ri_map ri) k \<noteq> None \<and> revision_at (ctx_gens ri ctx k) r = Some rv"
proof -
  have "row_hit ctx r (j, g) = map_option (Pair j) (revision_at (ctx_gens ri ctx j) r)"
    if "(j, g) \<in> set (index_rows ri key range_end)" for j g
    using that unfolding index_rows_iff row_hit_pair ctx_gens_def ri_gens_def
    by (cases "fmlookup (cx_idx_cache ctx) j") auto
  then have "(k, rv) \<in> set (List.map_filter (row_hit ctx r) (index_rows ri key range_end)) \<longleftrightarrow>
      (\<exists>g. (k, g) \<in> set (index_rows ri key range_end) \<and> revision_at (ctx_gens ri ctx k) r = Some rv)"
    unfolding in_map_filter by fastforce
  then show ?thesis by (auto simp: index_rows_iff)
qed

lemma new_hits_iff:
  "(k, rv) \<in> set (List.map_filter (new_hit ri key range_end r) (sorted_list_of_fmap (cx_idx_cache ctx))) \<longleftrightarrow>
     in_range k key range_end \<and> fmlookup (ri_map ri) k = None \<and> revision_at (ctx_gens ri ctx k) r = Some rv"
proof -
  have n: "revision_at [] r = None" by (simp add: revision_at_def)
  have "(k, rv) \<in> set (List.map_filter (new_hit ri key range_end r) (sorted_list_of_fmap (cx_idx_cache ctx))) \<longleftrightarrow>
      (\<exists>i. fmlookup (cx_idx_cache ctx) k = Some i \<and> in_range k key range_end \<and> \<not> idx_contains ri k \<and>
         revision_at (i_generations i) r = Some rv)"
    unfolding in_map_filter Bex_def split_paired_Ex in_sorted_list_of_fmap new_hit_def
    by (auto split: if_splits)
  then show ?thesis
    by (cases "fmlookup (cx_idx_cache ctx) k") (auto simp: idx_contains_def ctx_gens_def ri_gens_def n)
qed

lemma hits_merge:
  fixes key range_end :: bytes
  assumes "ctx_ok ri snap n b ctx" "shows_at ri snap ctx r M"
  defines "H \<equiv> List.map_filter (row_hit ctx r) (index_rows ri key range_end)"
    and "N \<equiv> List.map_filter (new_hit ri key range_end r) (sorted_list_of_fmap (cx_idx_cache ctx))"
  shows "sort_key fst (H @ N) = all_hits ri ctx r key range_end M"
    "N = [] \<Longrightarrow> H = all_hits ri ctx r key range_end M"
    "length H + length N = length (rows_of key range_end M)"
proof -
  have sH: "sorted_keys H" unfolding H_def
    by (rule map_filter_sorted [OF index_rows_sorted]) (auto simp: row_hit_def)
  have sN: "sorted_keys N" unfolding N_def
    by (rule map_filter_sorted [OF sorted_keys_sorted_list_of_fmap]) (auto simp: new_hit_def split: if_splits)
  have set_eq: "set (H @ N) = set (all_hits ri ctx r key range_end M)"
    unfolding H_def N_def set_append by (auto simp: all_hits_iff [OF assms(1,2)] row_hits_iff new_hits_iff)
  have disj: "fst ` set H \<inter> fst ` set N = {}"
    unfolding H_def N_def by (auto simp: row_hits_iff new_hits_iff)
  have dist: "distinct (map fst (H @ N))"
    using sorted_keys_distinct [OF sH] sorted_keys_distinct [OF sN] disj by simp
  show all: "sort_key fst (H @ N) = all_hits ri ctx r key range_end M"
    using sorted_keys_set_eq [OF sorted_keys_sort_key [OF dist] all_hits_sorted] set_eq by simp
  show "H = all_hits ri ctx r key range_end M" if "N = []"
    using sorted_keys_set_eq [OF sH all_hits_sorted] set_eq that by simp
  have "length (sort_key fst (H @ N)) = length H + length N" by simp
  then show "length H + length N = length (rows_of key range_end M)" unfolding all by (simp add: all_hits_def)
qed

lemma plan_range_result:
  assumes "ctx_ok ri snap n b ctx" "shows_at ri snap ctx r M"
  shows "plan_range ri ctx key range_end r limit count_only =
    \<lparr>rp_hits = (if count_only then [] else limited limit (all_hits ri ctx r key range_end M)),
     rp_total = int (length (rows_of key range_end M)),
     rp_more = (\<not> count_only \<and> limit > 0 \<and> length (rows_of key range_end M) > limit)\<rparr>"
proof -
  let ?H = "List.map_filter (row_hit ctx r) (index_rows ri key range_end)"
  let ?N = "List.map_filter (new_hit ri key range_end r) (sorted_list_of_fmap (cx_idx_cache ctx))"
  note m = hits_merge [OF assms, where key = key and range_end = range_end]
  have rows: "(case index_bounds key range_end of
      Some (lo, hi) \<Rightarrow> foldl (plan_step cap ctx r) ([], 0) (idx_range ri lo hi) | None \<Rightarrow> ([], 0)) =
    (capped cap ?H, int (length ?H))" for cap
  proof -
    have c: "capped cap ([] :: (bytes \<times> revision) list) = []" by (cases cap) (simp_all add: capped_def)
    have "foldl (plan_step cap ctx r) ([], 0) xs =
        (capped cap (List.map_filter (row_hit ctx r) xs), int (length (List.map_filter (row_hit ctx r) xs)))" for xs
      using plan_fold [of cap ctx r "[]" 0 xs] c by simp
    then show ?thesis
      using c by (cases "index_bounds key range_end") (auto simp: index_rows_def map_filter_simps)
  qed
  have len: "int (length ?H) + int (length ?N) = int (length (rows_of key range_end M))" using m(3) by linarith
  show ?thesis
  proof (cases "cx_idx_cache ctx = fmempty")
    case True
    then have N: "?N = []" by (simp add: map_filter_simps)
    then show ?thesis
      using m(2) [OF N] len True
      by (simp add: plan_range_def rows Let_def capped_def limited_def)
  next
    case False
    then show ?thesis
      using m(1,2) len
      by (auto simp: plan_range_def rows Let_def capped_def limited_def overlay_fold)
  qed
qed

text \<open>A read of a key's revision through the context, the value cache and the engine. The revision
  is committed, or it is the latest one of its key.\<close>

definition hit_ok :: "resident_index \<Rightarrow> int \<Rightarrow> apply_context \<Rightarrow> bytes \<times> revision \<Rightarrow> bool" where
  "hit_ok ri n ctx h \<longleftrightarrow> (snd h, False) \<in> set (hist (ctx_gens ri ctx (fst h))) \<and>
     (rmain (snd h) \<le> n \<or> snd h = fst (last (hist (ctx_gens ri ctx (fst h)))))"

lemma ctx_record_at_result:
  assumes ok: "ctx_ok ri snap n b ctx" and hit: "hit_ok ri n ctx (k, rv)"
  shows "ctx_record_at ctx k rv =
    (if fmlookup (cx_idx_cache ctx) k = None \<or> rmain rv \<le> n then None else ctx_kv snap ctx (k, rv))"
proof -
  have inh: "(rv, False) \<in> set (hist (ctx_gens ri ctx k))" using hit by (simp add: hit_ok_def)
  obtain rec where rec: "ctx_kv snap ctx (k, rv) = Some rec" "rec_ok k rv False rec"
    by (rule key_ok_get [OF ctx_ok_key [OF ok] inh])
  show ?thesis
  proof (cases "fmlookup (cx_idx_cache ctx) k")
    case None
    then have "fmlookup (cx_latest ctx) k = None" using ok by (simp add: ctx_ok_def)
    then show ?thesis using None by (simp add: ctx_record_at_def)
  next
    case (Some i)
    let ?l = "last (hist (i_generations i))"
    have g: "ctx_gens ri ctx k = i_generations i" using Some by (simp add: ctx_gens_def)
    have lat: "fmlookup (cx_latest ctx) k = ctx_kv snap ctx (k, fst ?l)" and new: "n < rmain (fst ?l)"
      using ok Some by (simp_all add: ctx_ok_def)
    have "?l \<in> set (hist (ctx_gens ri ctx k))" using inh g by (intro last_in_set [THEN back_subst [of "\<lambda>x. ?l \<in> set x"]]) auto
    then have lin: "(fst ?l, snd ?l) \<in> set (hist (ctx_gens ri ctx k))" by simp
    obtain lrec where lrec: "ctx_kv snap ctx (k, fst ?l) = Some lrec" "rec_ok k (fst ?l) (snd ?l) lrec"
      by (rule key_ok_get [OF ctx_ok_key [OF ok] lin])
    show ?thesis
    proof (cases "rmain rv \<le> n")
      case True
      then have "r_mod_revision lrec \<noteq> rmain rv" using lrec(2) new by (simp add: rec_ok_def)
      then show ?thesis using True lat lrec(1) by (simp add: ctx_record_at_def)
    next
      case False
      then have "rv = fst ?l" using hit g by (simp add: hit_ok_def)
      then show ?thesis using False Some lat rec by (simp add: ctx_record_at_def rec_ok_def is_tombstone_def)
    qed
  qed
qed

lemma record_at_result:
  assumes base: "base_ok ri snap n" and ok: "ctx_ok ri snap n b ctx" and vc: "cache_fits ri snap n vc"
    and hit: "hit_ok ri n ctx (k, rv)"
  shows "\<exists>vc'. record_at snap ctx k rv vc = (Inr (the (ctx_kv snap ctx (k, rv))), vc') \<and> cache_fits ri snap n vc'"
proof -
  have inh: "(rv, False) \<in> set (hist (ctx_gens ri ctx k))" using hit by (simp add: hit_ok_def)
  obtain rec where rec: "ctx_kv snap ctx (k, rv) = Some rec" by (rule key_ok_get [OF ctx_ok_key [OF ok] inh])
  show ?thesis
  proof (cases "fmlookup (cx_idx_cache ctx) k = None \<or> rmain rv \<le> n")
    case True
    note b = ctx_event_base [OF base ok inh True]
    obtain found vc1 where g: "vc_get k rv vc = (found, vc1)" by fastforce
    note fits = cache_fits_get [OF vc g]
    show ?thesis
      using ctx_record_at_result [OF ok hit] True g fits(1) fits(2) [OF _ b(1)] b(2) rec
      by (cases found) (auto simp: record_at_def read_record_def eng_kv_def)
  next
    case False
    then have "ctx_record_at ctx k rv = Some rec" using ctx_record_at_result [OF ok hit] rec by simp
    then show ?thesis using rec vc by (simp add: record_at_def)
  qed
qed

text \<open>\<open>fetch_records\<close> is \<open>record_at\<close> for every hit, with the engine's answers kept in the cache
  when asked to.\<close>

lemma hit_committed:
  assumes base: "base_ok ri snap n" and ok: "ctx_ok ri snap n b ctx" and hit: "hit_ok ri n ctx (k, rv)"
    and none: "ctx_record_at ctx k rv = None"
  shows "rmain rv \<le> n" "eng_kv snap (k, rv) = ctx_kv snap ctx (k, rv)"
proof -
  have inh: "(rv, False) \<in> set (hist (ctx_gens ri ctx k))" using hit by (simp add: hit_ok_def)
  obtain rec where rec: "ctx_kv snap ctx (k, rv) = Some rec" by (rule key_ok_get [OF ctx_ok_key [OF ok] inh])
  then have c: "fmlookup (cx_idx_cache ctx) k = None \<or> rmain rv \<le> n"
    using ctx_record_at_result [OF ok hit] none by (auto split: if_splits)
  note b = ctx_event_base [OF base ok inh c]
  have "gens_below (ri_gens ri k) (Revision (n + 1) 0)" using base tables_ok_below by (auto simp: base_ok_def)
  then have "rv \<le> Revision n i64_max" using below_seen [OF base_ok_key [OF base] _ b(1)] by simp
  then show "rmain rv \<le> n" by (cases rv) (auto simp: less_eq_revision_def less_revision_def)
  show "eng_kv snap (k, rv) = ctx_kv snap ctx (k, rv)" by (rule b(2))
qed

lemma fetch_one:
  assumes "base_ok ri snap n" "ctx_ok ri snap n b ctx" "cache_fits ri snap n vc" "hit_ok ri n ctx (k, rv)"
  shows "\<exists>d vc'. (case ctx_record_at ctx k rv of
           Some rec \<Rightarrow> (Inr rec, 0, vc)
         | None \<Rightarrow>
             (case vc_get k rv vc of
                (Some rec, vc) \<Rightarrow> (Inr rec, 0, vc)
              | (None, vc) \<Rightarrow>
                  (case read_record snap k rv of
                     Inl e \<Rightarrow> (Inl e, 1, vc)
                   | Inr rec \<Rightarrow> (Inr rec, 1, if fill then vc_insert k rv rec True vc else vc)))) =
      (Inr (the (ctx_kv snap ctx (k, rv))), d :: nat, vc') \<and> cache_fits ri snap n vc'"
proof -
  obtain vc1 where r: "record_at snap ctx k rv vc = (Inr (the (ctx_kv snap ctx (k, rv))), vc1)" "cache_fits ri snap n vc1"
    using record_at_result [OF assms] by blast
  obtain found vc2 where g: "vc_get k rv vc = (found, vc2)" by fastforce
  show ?thesis
  proof (cases "ctx_record_at ctx k rv")
    case None
    note c = hit_committed [OF assms(1,2,4) None]
    show ?thesis
    proof (cases found)
      case f: None
      then have rr: "read_record snap k rv = Inr (the (ctx_kv snap ctx (k, rv)))" "vc2 = vc1"
        using r(1) None g by (simp_all add: record_at_def)
      then have "eng_kv snap (k, rv) = Some (the (ctx_kv snap ctx (k, rv)))"
        by (auto simp: read_record_def eng_kv_def split: option.splits)
      then have "cache_fits ri snap n (vc_insert k rv (the (ctx_kv snap ctx (k, rv))) True vc1)"
        by (rule cache_fits_insert [OF r(2) c(1)])
      then show ?thesis using None f g rr r(2) by simp
    next
      case (Some x)
      then show ?thesis using r None g by (auto simp: record_at_def)
    qed
  next
    case (Some x)
    then show ?thesis using r by (auto simp: record_at_def)
  qed
qed

lemma fetch_records_result:
  assumes "base_ok ri snap n" "ctx_ok ri snap n b ctx" "cache_fits ri snap n vc" "\<forall>h \<in> set hits. hit_ok ri n ctx h"
  shows "\<exists>d vc'. fetch_records snap ctx keys_only fill hits vc =
      (Inr (map (\<lambda>h. trim (the (ctx_kv snap ctx h)) keys_only) hits, d), vc') \<and> cache_fits ri snap n vc'"
  using assms(3,4)
proof (induction hits arbitrary: vc)
  case (Cons h hits)
  obtain k rv where h: "h = (k, rv)" by fastforce
  have "hit_ok ri n ctx (k, rv)" using Cons.prems(2) h by simp
  from fetch_one [OF assms(1,2) Cons.prems(1) this, of fill] obtain d vc1 where one:
    "(case ctx_record_at ctx k rv of
           Some rec \<Rightarrow> (Inr rec, 0, vc)
         | None \<Rightarrow>
             (case vc_get k rv vc of
                (Some rec, vc) \<Rightarrow> (Inr rec, 0, vc)
              | (None, vc) \<Rightarrow>
                  (case read_record snap k rv of
                     Inl e \<Rightarrow> (Inl e, 1, vc)
                   | Inr rec \<Rightarrow> (Inr rec, 1, if fill then vc_insert k rv rec True vc else vc)))) =
      (Inr (the (ctx_kv snap ctx (k, rv))), d :: nat, vc1)" "cache_fits ri snap n vc1" by blast
  from Cons.IH [OF one(2)] Cons.prems(2) obtain d' vc2 where
    "fetch_records snap ctx keys_only fill hits vc1 =
      (Inr (map (\<lambda>h. trim (the (ctx_kv snap ctx h)) keys_only) hits, d'), vc2)" "cache_fits ri snap n vc2" by auto
  then show ?case unfolding h fetch_records.simps one(1) by simp
qed simp

text \<open>The events a read sees are those of a committed revision, or all of them.\<close>

definition sees :: "resident_index \<Rightarrow> int \<Rightarrow> apply_context \<Rightarrow> revision \<Rightarrow> bool" where
  "sees ri n ctx r \<longleftrightarrow> rmain r \<le> n \<or> (\<forall>k. \<forall>e \<in> set (hist (ctx_gens ri ctx k)). fst e \<le> r)"

lemma sees_hit_ok:
  assumes ok: "ctx_ok ri snap n b ctx" and r: "sees ri n ctx r" and at: "revision_at (ctx_gens ri ctx k) r = Some rv"
  shows "hit_ok ri n ctx (k, rv)"
proof -
  note g = key_ok_gens [OF ctx_ok_key [OF ok, of k]]
  note inh = revision_at_in_hist [OF g at]
  have "rmain rv \<le> rmain r" using inh(2) by (auto simp: less_eq_revision_def less_revision_def)
  moreover have "rv = fst (last (hist (ctx_gens ri ctx k)))" if nr: "\<not> rmain r \<le> n"
  proof -
    have "revision_at (ctx_gens ri ctx k) r = map_option fst (gens_current (ctx_gens ri ctx k))"
      using r nr by (intro revision_at_current [OF g]) (auto simp: sees_def)
    then obtain v where "gens_current (ctx_gens ri ctx k) = Some (rv, v)"
      using at by (cases "gens_current (ctx_gens ri ctx k)") auto
    then show ?thesis using last_hist_current by simp
  qed
  ultimately show ?thesis using inh(1) by (cases "rmain r \<le> n") (auto simp: hit_ok_def)
qed

lemma hits_records:
  assumes "ctx_ok ri snap n b ctx" "shows_at ri snap ctx r M"
  shows "map (\<lambda>h. the (ctx_kv snap ctx h)) (all_hits ri ctx r key range_end M) = map snd (rows_of key range_end M)"
proof -
  have "ctx_kv snap ctx (hit_of ri ctx r p) = Some (snd p)" if "p \<in> set (rows_of key range_end M)" for p
  proof -
    obtain k rec where p: "p = (k, rec)" by fastforce
    then have "at_rec (ctx_gens ri ctx) (ctx_kv snap ctx) r k = Some rec"
      using that assms(2) by (simp add: shows_at_def rows_of_iff)
    then show ?thesis using p by (auto simp: hit_of_def at_rec_def split: option.splits)
  qed
  then show ?thesis by (simp add: all_hits_def)
qed

lemma range_fetch:
  fixes r :: range_op
  assumes ok: "work_ok ri snap n b w" and M: "shows_at ri snap (w_ctx w) rr M" and seen: "sees ri n (w_ctx w) rr"
  defines "rplan \<equiv> plan_range ri (w_ctx w) (ro_key r) (ro_range_end r) rr (ro_limit r) (ro_count_only r)"
  shows "\<exists>kvs d vc. fetch_records snap (w_ctx w) (ro_keys_only r) fill (rp_hits rplan) (w_values w) = (Inr (kvs, d), vc) \<and>
    into_result rplan kvs (ro_count_only r) = spec_range M r \<and> cache_fits ri snap n vc"
proof -
  note ctx = work_ok_ctx [OF ok]
  let ?all = "all_hits ri (w_ctx w) rr (ro_key r) (ro_range_end r) M"
  let ?hits = "if ro_count_only r then [] else limited (ro_limit r) ?all"
  let ?kvs = "map (\<lambda>h. trim (the (ctx_kv snap (w_ctx w) h)) (ro_keys_only r)) ?hits"
  note rp = plan_range_result [OF ctx M, of "ro_key r" "ro_range_end r" "ro_limit r" "ro_count_only r", folded rplan_def]
  have "set ?hits \<subseteq> set ?all" by (auto simp: limited_def dest: in_set_takeD)
  then have "\<forall>h \<in> set ?hits. hit_ok ri n (w_ctx w) h"
    using sees_hit_ok [OF ctx seen] all_hits_iff [OF ctx M] by fastforce
  moreover have "base_ok ri snap n" "cache_fits ri snap n (w_values w)" using ok by (simp_all add: work_ok_def)
  ultimately obtain d vc where f: "fetch_records snap (w_ctx w) (ro_keys_only r) fill ?hits (w_values w) =
      (Inr (?kvs, d), vc)" "cache_fits ri snap n vc"
    using fetch_records_result [OF _ ctx] by blast
  have "map (\<lambda>h. trim (the (ctx_kv snap (w_ctx w) h)) (ro_keys_only r)) (limited (ro_limit r) ?all) =
      map (\<lambda>rec. trim rec (ro_keys_only r)) (limited (ro_limit r) (map snd (rows_of (ro_key r) (ro_range_end r) M)))"
    unfolding hits_records [OF ctx M, symmetric] by (simp add: limited_def take_map)
  then have "into_result rplan ?kvs (ro_count_only r) = spec_range M r"
    by (simp add: into_result_def spec_range_def rp Let_def)
  then show ?thesis using f rp by auto
qed

lemma range_inner_result:
  assumes ok: "work_ok ri snap n b w" and rr: "check_read_rev st (ro_revision r) = Inr rr"
    and M: "shows_at ri snap (w_ctx w) rr M" and seen: "sees ri n (w_ctx w) rr"
  shows "\<exists>w'. range_inner ri snap st r w = (Inr (spec_range M r), w') \<and> w_ctx w' = w_ctx w \<and> work_ok ri snap n b w'"
  using range_fetch [OF ok M seen, where r = r and fill = False] rr ok
  by (auto simp: range_inner_def Let_def work_ok_def)

section \<open>Compares\<close>

lemma models_record:
  assumes "models ri snap ctx S"
  shows "live_or_zero S k = (case gens_current (ctx_gens ri ctx k) of
      Some (rv, _) \<Rightarrow> (case ctx_kv snap ctx (k, rv) of Some rec \<Rightarrow> rec | None \<Rightarrow> implicit_zero_record k)
    | None \<Rightarrow> implicit_zero_record k)"
  using assms by (simp add: live_or_zero_def models_def cur_rec_def split: option.split prod.split)

definition target_ok :: "resident_index \<Rightarrow> apply_context \<Rightarrow> bytes \<times> revision option \<Rightarrow> bool" where
  "target_ok ri ctx t \<longleftrightarrow> snd t = map_option fst (gens_current (ctx_gens ri ctx (fst t)))"

lemma eval_keys_result:
  assumes base: "base_ok ri snap n" and ok: "ctx_ok ri snap n b ctx" and S: "models ri snap ctx S"
    and vc: "cache_fits ri snap n vc" and t: "\<forall>t \<in> set ts. target_ok ri ctx t"
  shows "\<exists>vc'. eval_keys snap ctx cmp ts vc =
      (Inr (list_all (\<lambda>t. eval_compare (live_or_zero S (fst t)) (cmp_op cmp) (cmp_target cmp)) ts), vc') \<and>
    cache_fits ri snap n vc'"
  using vc t
proof (induction ts arbitrary: vc)
  case (Cons t ts)
  obtain k rv where t: "t = (k, rv)" by fastforce
  have rv: "rv = map_option fst (gens_current (ctx_gens ri ctx k))" using Cons.prems(2) t by (simp add: target_ok_def)
  have "\<exists>vc1. (case rv of None \<Rightarrow> (Inr (implicit_zero_record k), vc) | Some r \<Rightarrow> record_at snap ctx k r vc) =
      (Inr (live_or_zero S k), vc1) \<and> cache_fits ri snap n vc1"
  proof (cases "gens_current (ctx_gens ri ctx k)")
    case None
    then show ?thesis using rv Cons.prems(1) models_record [OF S] by simp
  next
    case (Some p)
    then obtain r v where c: "gens_current (ctx_gens ri ctx k) = Some (r, v)" by fastforce
    have "hit_ok ri n ctx (k, r)" using in_hist_current [OF c] last_hist_current [OF c] by (simp add: hit_ok_def)
    note rec = record_at_result [OF base ok Cons.prems(1) this]
    obtain x where "ctx_kv snap ctx (k, r) = Some x"
      by (rule key_ok_get [OF ctx_ok_key [OF ok] in_hist_current [OF c]])
    then show ?thesis using rec rv c models_record [OF S] by simp
  qed
  then obtain vc1 where one: "(case rv of None \<Rightarrow> (Inr (implicit_zero_record k), vc) | Some r \<Rightarrow> record_at snap ctx k r vc) =
      (Inr (live_or_zero S k), vc1)" "cache_fits ri snap n vc1" by blast
  then show ?case
    using Cons.IH [OF one(2)] Cons.prems(2) unfolding t eval_keys.simps one(1) by auto
qed simp

lemma target_rev_ok: "target_rev ctx k (fmlookup (ri_map ri) k) = map_option fst (gens_current (ctx_gens ri ctx k))"
  by (cases "fmlookup (cx_idx_cache ctx) k"; cases "fmlookup (ri_map ri) k")
    (simp_all add: target_rev_def ctx_gens_def ri_gens_def current_def current_of_gens_current gens_current_def)

lemma compare_targets_ok: "\<forall>t \<in> set (compare_target_keys ri ctx cmp). target_ok ri ctx t"
proof -
  have idx: "(case index_bounds (cmp_key cmp) (cmp_range_end cmp) of
      Some (lo, hi) \<Rightarrow> map (\<lambda>(k, g). (k, target_rev ctx k (Some g))) (idx_range ri lo hi) | None \<Rightarrow> []) =
    map (\<lambda>(k, g). (k, target_rev ctx k (Some g))) (index_rows ri (cmp_key cmp) (cmp_range_end cmp))"
    by (simp add: index_rows_def split: option.split prod.split)
  have "target_rev ctx k (Some g) = map_option fst (gens_current (ctx_gens ri ctx k))"
    if "(k, g) \<in> set (index_rows ri key range_end)" for k g key range_end
    using that target_rev_ok [of ctx k ri] by (simp add: index_rows_iff)
  moreover have "map_option fst (current i) = map_option fst (gens_current (ctx_gens ri ctx k))"
    if "fmlookup (cx_idx_cache ctx) k = Some i" for k i
    using that by (simp add: ctx_gens_def current_def)
  ultimately show ?thesis
    using target_rev_ok [of ctx "cmp_key cmp" ri]
    unfolding compare_target_keys_def idx by (auto simp: target_ok_def idx_get_generations_def Let_def)
qed

lemma ctx_gens_present:
  assumes "base_ok ri snap n" "ctx_ok ri snap n b ctx"
  shows "ctx_gens ri ctx k \<noteq> [] \<longleftrightarrow> fmlookup (ri_map ri) k \<noteq> None \<or> fmlookup (cx_idx_cache ctx) k \<noteq> None"
  using assms by (cases "fmlookup (cx_idx_cache ctx) k"; cases "fmlookup (ri_map ri) k")
    (auto simp: ctx_gens_def ri_gens_def base_ok_def ctx_ok_def)

lemma compare_targets_keys:
  assumes "base_ok ri snap n" "ctx_ok ri snap n b ctx"
  shows "fst ` set (compare_target_keys ri ctx cmp) =
    {k. in_range k (cmp_key cmp) (cmp_range_end cmp) \<and> ctx_gens ri ctx k \<noteq> []}"
proof (cases "cmp_range_end cmp = []")
  case True
  then show ?thesis
    unfolding compare_target_keys_def ctx_gens_present [OF assms]
    by (auto simp: in_range_def idx_get_generations_def Let_def)
next
  case False
  have idx: "fst ` set (case index_bounds (cmp_key cmp) (cmp_range_end cmp) of
      Some (lo, hi) \<Rightarrow> map (\<lambda>(k, g). (k, target_rev ctx k (Some g))) (idx_range ri lo hi) | None \<Rightarrow> []) =
    {k. in_range k (cmp_key cmp) (cmp_range_end cmp) \<and> fmlookup (ri_map ri) k \<noteq> None}" (is "fst ` set ?I = _")
  proof -
    have "fst ` set ?I = fst ` set (index_rows ri (cmp_key cmp) (cmp_range_end cmp))"
      by (cases "index_bounds (cmp_key cmp) (cmp_range_end cmp)") (auto simp: index_rows_def image_image split_def)
    moreover have "k \<in> fst ` set (index_rows ri key range_end) \<longleftrightarrow> (\<exists>g. (k, g) \<in> set (index_rows ri key range_end))"
      for k key range_end by force
    ultimately show ?thesis by (auto simp: index_rows_iff)
  qed
  let ?N = "map (\<lambda>(k, idx). (k, map_option fst (current idx)))
      (filter (\<lambda>(k, idx). in_range k (cmp_key cmp) (cmp_range_end cmp) \<and> \<not> idx_contains ri k)
        (sorted_list_of_fmap (cx_idx_cache ctx)))"
  have m: "map fst ?N = map fst (filter (\<lambda>(k, idx). in_range k (cmp_key cmp) (cmp_range_end cmp) \<and> \<not> idx_contains ri k)
        (sorted_list_of_fmap (cx_idx_cache ctx)))" by (simp add: split_def comp_def)
  have new: "fst ` set ?N = {k. in_range k (cmp_key cmp) (cmp_range_end cmp) \<and> fmlookup (ri_map ri) k = None \<and>
      fmlookup (cx_idx_cache ctx) k \<noteq> None}"
    unfolding set_map [of fst, symmetric] m
    by (rule set_eqI) (simp only: in_map_fst_filter, auto simp: idx_contains_def)
  have ts: "compare_target_keys ri ctx cmp = (case index_bounds (cmp_key cmp) (cmp_range_end cmp) of
      Some (lo, hi) \<Rightarrow> map (\<lambda>(k, g). (k, target_rev ctx k (Some g))) (idx_range ri lo hi) | None \<Rightarrow> []) @ ?N"
    using False by (simp add: compare_target_keys_def)
  show ?thesis
    unfolding ctx_gens_present [OF assms] ts set_append image_Un idx new by (rule set_eqI) (simp del: not_None_eq, metis)
qed

lemma compare_result:
  fixes cmp :: compare
  assumes base: "base_ok ri snap n" and ok: "ctx_ok ri snap n b ctx" and S: "models ri snap ctx S"
  defines "ts \<equiv> compare_target_keys ri ctx cmp"
  shows "spec_compare S cmp =
    (if cmp_range_end cmp = [] \<and> ts = [] then eval_compare (implicit_zero_record (cmp_key cmp)) (cmp_op cmp) (cmp_target cmp)
     else list_all (\<lambda>t. eval_compare (live_or_zero S (fst t)) (cmp_op cmp) (cmp_target cmp)) ts)"
proof -
  note keys = compare_targets_keys [OF base ok, of cmp, folded ts_def]
  let ?P = "\<lambda>k. eval_compare (live_or_zero S k) (cmp_op cmp) (cmp_target cmp)"
  have "list_all (\<lambda>t. ?P (fst t)) ts \<longleftrightarrow> (\<forall>k \<in> fst ` set ts. ?P k)" by (simp add: list_all_iff)
  then have all: "list_all (\<lambda>t. ?P (fst t)) ts \<longleftrightarrow>
      (\<forall>k. in_range k (cmp_key cmp) (cmp_range_end cmp) \<and> ctx_gens ri ctx k \<noteq> [] \<longrightarrow> ?P k)" unfolding keys by blast
  have index: "fmlookup (km_index S) k \<noteq> None \<longleftrightarrow> ctx_gens ri ctx k \<noteq> []" for k using S by (simp add: models_def)
  show ?thesis
  proof (cases "cmp_range_end cmp = []")
    case True
    have "ts = [] \<longleftrightarrow> fst ` set ts = {}" by simp
    then have empty: "ts = [] \<longleftrightarrow> ctx_gens ri ctx (cmp_key cmp) = []"
      unfolding keys using True by (auto simp: in_range_def)
    have sc: "spec_compare S cmp = ?P (cmp_key cmp)" using True by (simp add: spec_compare_def)
    show ?thesis
    proof (cases "ts = []")
      case nil: True
      then have "live_or_zero S (cmp_key cmp) = implicit_zero_record (cmp_key cmp)"
        using empty models_record [OF S, of "cmp_key cmp"] by (simp add: gens_current_def)
      then show ?thesis using sc nil True by simp
    next
      case False
      then have "list_all (\<lambda>t. ?P (fst t)) ts \<longleftrightarrow> ?P (cmp_key cmp)"
        unfolding all using True empty by (simp add: in_range_def)
      then show ?thesis using sc False by simp
    qed
  next
    case False
    have "spec_compare S cmp \<longleftrightarrow> (\<forall>k. fmlookup (km_index S) k \<noteq> None \<longrightarrow>
        in_range k (cmp_key cmp) (cmp_range_end cmp) \<longrightarrow> ?P k)"
      using False by (auto simp: spec_compare_def list_all_iff ball_sorted_list_of_fmap)
    also have "\<dots> \<longleftrightarrow> list_all (\<lambda>t. ?P (fst t)) ts" unfolding all index by blast
    finally show ?thesis using False by simp
  qed
qed

lemma evaluate_compares_result:
  assumes base: "base_ok ri snap n" and ok: "ctx_ok ri snap n b ctx" and S: "models ri snap ctx S"
    and vc: "cache_fits ri snap n vc"
  shows "\<exists>vc'. evaluate_compares ri snap ctx cs vc = (Inr (list_all (spec_compare S) cs), vc') \<and> cache_fits ri snap n vc'"
  unfolding evaluate_compares_def compare_targets_in_def using vc
proof (induction cs arbitrary: vc)
  case (Cons c cs)
  obtain vc1 where e: "eval_keys snap ctx c (compare_target_keys ri ctx c) vc =
      (Inr (list_all (\<lambda>t. eval_compare (live_or_zero S (fst t)) (cmp_op c) (cmp_target c)) (compare_target_keys ri ctx c)), vc1)"
    "cache_fits ri snap n vc1"
    using eval_keys_result [OF base ok S Cons.prems compare_targets_ok] by blast
  note c = compare_result [OF base ok S, where cmp = c]
  let ?zero = "cmp_range_end c = [] \<and> compare_target_keys ri ctx c = []"
  show ?case
  proof (cases ?zero)
    case True
    then have "spec_compare S c = eval_compare (implicit_zero_record (cmp_key c)) (cmp_op c) (cmp_target c)"
      using c by simp
    then show ?thesis
      using Cons.IH [OF Cons.prems] Cons.prems
      unfolding list.map evaluate_compares_with.simps if_P [OF True] by simp
  next
    case False
    have sc: "spec_compare S c =
        list_all (\<lambda>t. eval_compare (live_or_zero S (fst t)) (cmp_op c) (cmp_target c)) (compare_target_keys ri ctx c)"
      using c unfolding if_not_P [OF False] .
    show ?thesis
      using Cons.IH [OF e(2)] e(2)
      unfolding list.map evaluate_compares_with.simps if_not_P [OF False] e(1) sc [symmetric]
      by (cases "spec_compare S c") simp_all
  qed
qed simp

end
