(* ===== verification/Mvcc_Requests.thy ===== *)
theory Mvcc_Requests
  imports Mvcc_Simulation Mvcc_Store
begin

text \<open>
  The operations of a transaction, and then whole requests: what a commit makes of a context, the
  invariant of a store at rest, and that applies, transactions and shared commits refine the
  specification.
\<close>

section \<open>The operations of a transaction\<close>

text \<open>The maps of the past are what the tables show, from the compacted revision on.\<close>

definition past_ok :: "resident_index \<Rightarrow> engine \<Rightarrow> int \<Rightarrow> int \<Rightarrow> (int \<Rightarrow> kv_map) \<Rightarrow> bool" where
  "past_ok ri snap n compacted past \<longleftrightarrow>
     (\<forall>r. r \<le> n \<and> r \<noteq> 0 \<and> (r < 0 \<or> compacted \<le> r) \<longrightarrow>
        (\<forall>k. fmlookup (past r) k = at_rec (ri_gens ri) (eng_kv snap) (Revision r i64_max) k))"

fun op_muts :: "txn_op list \<Rightarrow> mutation list" where
  "op_muts [] = []"
| "op_muts (OpRange _ # ops) = op_muts ops"
| "op_muts (OpMutation m # ops) = m # op_muts ops"
| "op_muts (OpTxn _ success failure # ops) = op_muts success @ op_muts failure @ op_muts ops"

definition fresh :: "resident_index \<Rightarrow> int \<Rightarrow> apply_context \<Rightarrow> bool" where
  "fresh ri main ctx \<longleftrightarrow> (\<forall>k. gens_below (ctx_gens ri ctx k) (Revision main 0))"

definition txn_at :: "resident_index \<Rightarrow> engine \<Rightarrow> int \<Rightarrow> int \<Rightarrow> nat \<Rightarrow> bool \<Rightarrow> kv_model \<Rightarrow> work \<Rightarrow> bool" where
  "txn_at ri snap n main sub wrote S w \<longleftrightarrow>
     work_ok ri snap n (Revision main (int sub)) w \<and> models ri snap (w_ctx w) S \<and>
     (wrote \<or> fresh ri main (w_ctx w))"

lemma sees_now:
  assumes at: "txn_at ri snap n main sub wrote S w" and sub: "int sub \<le> i64_max"
  shows "\<forall>k. \<forall>e \<in> set (hist (ctx_gens ri (w_ctx w) k)). fst e \<le> Revision (if wrote then main else main - 1) i64_max"
proof (intro allI ballI)
  fix k e
  assume e: "e \<in> set (hist (ctx_gens ri (w_ctx w) k))"
  have ok: "work_ok ri snap n (Revision main (int sub)) w" using at by (simp add: txn_at_def)
  show "fst e \<le> Revision (if wrote then main else main - 1) i64_max"
  proof (cases wrote)
    case True
    have "fst e < Revision main (int sub)" using work_ok_below [OF ok order.refl] e by (auto simp: gens_below_def)
    then show ?thesis using True sub by (cases "fst e") (auto simp: less_eq_revision_def less_revision_def)
  next
    case False
    then have "gens_below (ctx_gens ri (w_ctx w) k) (Revision (main - 1 + 1) 0)"
      using at by (simp add: txn_at_def fresh_def)
    from below_seen [OF work_ok_key [OF ok] this e] show ?thesis using False by simp
  qed
qed

lemma shows_now:
  assumes at: "txn_at ri snap n main sub wrote S w" and sub: "int sub \<le> i64_max"
  shows "shows_at ri snap (w_ctx w) (Revision (if wrote then main else main - 1) i64_max) (km_map S)"
  unfolding shows_at_def
proof
  fix k
  have ok: "work_ok ri snap n (Revision main (int sub)) w" using at by (simp add: txn_at_def)
  have "key_ok k (ctx_gens ri (w_ctx w) k) (ctx_kv snap (w_ctx w))" by (rule work_ok_key [OF ok])
  from at_rec_current [where G = "ctx_gens ri (w_ctx w)", OF this] sees_now [OF assms]
  show "fmlookup (km_map S) k =
      at_rec (ctx_gens ri (w_ctx w)) (ctx_kv snap (w_ctx w)) (Revision (if wrote then main else main - 1) i64_max) k"
    using at by (simp add: txn_at_def models_def)
qed

lemma range_op_sim:
  assumes at: "txn_at ri snap n main sub wrote S w" and sub: "int sub \<le> i64_max"
    and st: "rv_current st = main - 1" "0 < main" and past: "past_ok ri snap n (rv_compact st) past"
    and rev: "ro_revision r = 0 \<or> n = main - 1"
  shows "case spec_read st main past r wrote (km_map S) of
      Inl e \<Rightarrow> \<exists>w'. range_inner ri snap (if wrote then st\<lparr>rv_current := main\<rparr> else st) r w = (Inl e, w') \<and>
        w_values w' = w_values w
    | Inr res \<Rightarrow> \<exists>w'. range_inner ri snap (if wrote then st\<lparr>rv_current := main\<rparr> else st) r w = (Inr res, w') \<and>
        w_ctx w' = w_ctx w \<and> work_ok ri snap n (Revision main (int sub)) w'"
proof -
  let ?st = "if wrote then st\<lparr>rv_current := main\<rparr> else st"
  have ok: "work_ok ri snap n (Revision main (int sub)) w" using at by (simp add: txn_at_def)
  show ?thesis
  proof (cases "check_read_rev ?st (ro_revision r)")
    case (Inl e)
    then show ?thesis by (simp add: spec_read_def range_inner_def)
  next
    case (Inr rr)
    let ?M = "if ro_revision r = 0 \<or> ro_revision r = main then km_map S else past (ro_revision r)"
    have "shows_at ri snap (w_ctx w) rr ?M \<and> sees ri n (w_ctx w) rr"
    proof (cases "ro_revision r = 0 \<or> ro_revision r = main \<and> wrote")
      case True
      then have "rr = Revision (if wrote then main else main - 1) i64_max"
        using Inr st(1) by (auto simp: check_read_rev_def split: if_splits)
      then show ?thesis using True shows_now [OF at sub] sees_now [OF at sub] by (auto simp: sees_def)
    next
      case False
      then have rr: "rr = Revision (ro_revision r) i64_max" "ro_revision r \<le> n" "ro_revision r \<noteq> main" "ro_revision r \<noteq> 0"
          "ro_revision r < 0 \<or> rv_compact st \<le> ro_revision r"
        using Inr st rev by (auto simp: check_read_rev_def split: if_splits)
      then have "at_rec (ctx_gens ri (w_ctx w)) (ctx_kv snap (w_ctx w)) rr = at_rec (ri_gens ri) (eng_kv snap) rr"
        using work_ok_ctx [OF ok] by (simp add: ctx_ok_def)
      then show ?thesis using rr past by (simp add: shows_at_def sees_def past_ok_def)
    qed
    from range_inner_result [OF ok Inr conjunct1 [OF this] conjunct2 [OF this]] show ?thesis
      using Inr by (simp add: spec_read_def)
  qed
qed

text \<open>What holds during the operations of a transaction: a transaction alone in its commit may read
  the past and nest, one of a shared commit is plain.\<close>

definition txn_env ::
  "bool \<Rightarrow> resident_index \<Rightarrow> engine \<Rightarrow> int \<Rightarrow> kv_model \<Rightarrow> revs \<Rightarrow> int \<Rightarrow> (int \<Rightarrow> kv_map) \<Rightarrow> bool" where
  "txn_env alone ri snap n before st main past \<longleftrightarrow>
     0 \<le> n \<and> n < main \<and> rv_current st = main - 1 \<and> past_ok ri snap n (rv_compact st) past \<and>
     (alone \<longrightarrow> n = main - 1 \<and> models ri snap ctx_default before)"

definition ops_fit :: "bool \<Rightarrow> nat \<Rightarrow> txn_op list \<Rightarrow> bool" where
  "ops_fit alone sub ops \<longleftrightarrow> int (sub + length (op_muts ops)) \<le> i64_max \<and> (\<forall>m \<in> set (op_muts ops). mut_ok m) \<and>
     (alone \<or> list_all plain_op ops)"

definition txn_sim ::
  "resident_index \<Rightarrow> engine \<Rightarrow> int \<Rightarrow> int \<Rightarrow> nat \<Rightarrow> work \<Rightarrow> mvcc_error + txn_op_result list \<times> mvcc_event list \<times> bool \<times> kv_model \<Rightarrow>
   (mvcc_error + txn_op_result list) \<times> txn_exec \<times> work \<Rightarrow> bool" where
  "txn_sim ri snap n main hi w spec impl \<longleftrightarrow>
     (case spec of
        Inl e \<Rightarrow> \<exists>ex w'. impl = (Inl e, ex, w') \<and> cache_fits ri snap n (w_values w')
      | Inr (rs, es, wrote, S) \<Rightarrow> \<exists>sub w'.
          impl = (Inr rs, \<lparr>tx_main = main, tx_sub = int sub, tx_produced_any = wrote\<rparr>, w') \<and> sub \<le> hi \<and>
          txn_at ri snap n main sub wrote S w' \<and>
          past_kept ri snap main (w_ctx w) (w_ctx w') \<and>
          cx_events (w_ctx w') = cx_events (w_ctx w) @ es \<and> cx_marks (w_ctx w') = cx_marks (w_ctx w))"

lemma txn_at_values: "txn_at ri snap n main sub wrote S w \<Longrightarrow> cache_fits ri snap n (w_values w)"
  by (simp add: txn_at_def work_ok_def)

lemma txn_at_ctx:
  "txn_at ri snap n main sub wrote S w \<Longrightarrow> w_ctx w' = w_ctx w \<Longrightarrow> work_ok ri snap n (Revision main (int sub)) w' \<Longrightarrow>
   txn_at ri snap n main sub wrote S w'"
  by (simp add: txn_at_def)

lemma txn_at_step:
  assumes at: "txn_at ri snap n main sub wrote S w" and env: "0 \<le> n" "n < main" "int sub \<le> i64_max" and m: "mut_ok m"
  shows "case spec_mutation main m S of
      Inl e \<Rightarrow> \<exists>w'. apply_one ri snap (Revision main (int sub)) m w = (Inl e, w') \<and> cache_fits ri snap n (w_values w')
    | Inr (res, es, S') \<Rightarrow> \<exists>w'. apply_one ri snap (Revision main (int sub)) m w = (Inr (res, es \<noteq> []), w') \<and>
        txn_at ri snap n main (sub + 1) (wrote \<or> es \<noteq> []) S' w' \<and> past_kept ri snap main (w_ctx w) (w_ctx w') \<and>
        cx_events (w_ctx w') = cx_events (w_ctx w) @ es \<and> cx_marks (w_ctx w') = cx_marks (w_ctx w)"
proof -
  let ?rv = "Revision main (int sub)"
  have ok: "work_ok ri snap n ?rv w" and S: "models ri snap (w_ctx w) S" using at by (simp_all add: txn_at_def)
  have rv: "n < rmain ?rv" "rv_ok ?rv" using env by (simp_all add: rv_ok_def)
  note one = apply_one_sim [OF ok S order.refl rv m]
  show ?thesis
  proof (cases "spec_mutation main m S")
    case (Inl e)
    then show ?thesis using one by (auto simp: work_ok_def)
  next
    case (Inr x)
    obtain res es S' where x: "x = (res, es, S')" by (metis prod_cases3)
    from one Inr x obtain w' where w': "apply_one ri snap ?rv m w = (Inr (res, es \<noteq> []), w')"
      "step_to ri snap n main (next_rv ?rv) w es S' w'" "es = [] \<longrightarrow> w_ctx w' = w_ctx w" by auto
    have "next_rv ?rv = Revision main (int (sub + 1))" by (simp add: next_rv_def)
    then have "txn_at ri snap n main (sub + 1) (wrote \<or> es \<noteq> []) S' w'"
      using w'(2,3) at by (auto simp: txn_at_def step_to_def)
    then show ?thesis using Inr x w' by (simp add: step_to_def)
  qed
qed

lemma ctx_default_tables [simp]:
  "ctx_gens ri ctx_default = ri_gens ri" "ctx_kv snap ctx_default = eng_kv snap" "ctx_lk snap ctx_default = eng_lk snap"
  by (simp_all add: ctx_default_def ctx_gens_def ctx_kv_def ctx_lk_def fun_eq_iff)

lemma ctx_default_ok: "base_ok ri snap n \<Longrightarrow> ctx_ok ri snap n (Revision (n + 1) 0) ctx_default"
  unfolding ctx_ok_def ctx_default_tables by (simp add: base_ok_def ctx_default_def)

lemma ops_fit_nested:
  assumes "ops_fit alone sub (OpTxn cs success failure # ops)"
  shows "alone" "ops_fit alone sub (if c then success else failure)"
    "sub' \<le> sub + length (op_muts (if c then success else failure)) \<Longrightarrow> ops_fit alone sub' ops"
  using assms by (cases c; auto simp: ops_fit_def)+

lemma nested_txn_sim:
  fixes before st main past success failure wrote S compares
  defines "inner \<equiv> if list_all (spec_compare before) compares then success else failure"
  assumes ev: "evaluate_compares ri snap ctx_default compares (w_values w) = (Inr (list_all (spec_compare before) compares), vc)"
    and inner: "txn_sim ri snap n main hi (w\<lparr>w_values := vc\<rparr>) (spec_ops before st main past inner wrote S)
      (txn_ops ri snap st inner \<lparr>tx_main = main, tx_sub = int sub, tx_produced_any = wrote\<rparr> (w\<lparr>w_values := vc\<rparr>))"
    and rest: "\<And>rs es wrote1 S1 sub1 w1. spec_ops before st main past inner wrote S = Inr (rs, es, wrote1, S1) \<Longrightarrow>
        txn_at ri snap n main sub1 wrote1 S1 w1 \<Longrightarrow> sub1 \<le> hi \<Longrightarrow>
        txn_sim ri snap n main (sub1 + length (op_muts ops)) w1 (spec_ops before st main past ops wrote1 S1)
          (txn_ops ri snap st ops \<lparr>tx_main = main, tx_sub = int sub1, tx_produced_any = wrote1\<rparr> w1)"
    and hi: "hi + length (op_muts ops) \<le> hi'"
  shows "txn_sim ri snap n main hi' w (spec_ops before st main past (OpTxn compares success failure # ops) wrote S)
    (txn_ops ri snap st (OpTxn compares success failure # ops) \<lparr>tx_main = main, tx_sub = int sub, tx_produced_any = wrote\<rparr> w)"
proof (cases "spec_ops before st main past inner wrote S")
  case (Inl e)
  then show ?thesis using inner ev by (auto simp: txn_sim_def Let_def inner_def)
next
  case (Inr x)
  obtain rs es wrote1 S1 where x: "x = (rs, es, wrote1, S1)" by (metis prod_cases4)
  from inner Inr x obtain sub1 w1 where w1:
    "txn_ops ri snap st inner \<lparr>tx_main = main, tx_sub = int sub, tx_produced_any = wrote\<rparr> (w\<lparr>w_values := vc\<rparr>) =
      (Inr rs, \<lparr>tx_main = main, tx_sub = int sub1, tx_produced_any = wrote1\<rparr>, w1)"
    "sub1 \<le> hi" "txn_at ri snap n main sub1 wrote1 S1 w1" "past_kept ri snap main (w_ctx w) (w_ctx w1)"
    "cx_events (w_ctx w1) = cx_events (w_ctx w) @ es" "cx_marks (w_ctx w1) = cx_marks (w_ctx w)"
    by (auto simp: txn_sim_def)
  note more = rest [OF Inr [unfolded x] w1(3,2)]
  show ?thesis
  proof (cases "spec_ops before st main past ops wrote1 S1")
    case Inl2: (Inl e)
    then show ?thesis using more Inr x ev w1(1) by (auto simp: txn_sim_def Let_def inner_def)
  next
    case Inr2: (Inr y)
    obtain rs' es' wrote2 S2 where y: "y = (rs', es', wrote2, S2)" by (metis prod_cases4)
    from more Inr2 y obtain sub2 w2 where w2:
      "txn_ops ri snap st ops \<lparr>tx_main = main, tx_sub = int sub1, tx_produced_any = wrote1\<rparr> w1 =
        (Inr rs', \<lparr>tx_main = main, tx_sub = int sub2, tx_produced_any = wrote2\<rparr>, w2)"
      "sub2 \<le> sub1 + length (op_muts ops)" "txn_at ri snap n main sub2 wrote2 S2 w2"
      "past_kept ri snap main (w_ctx w1) (w_ctx w2)"
      "cx_events (w_ctx w2) = cx_events (w_ctx w1) @ es'" "cx_marks (w_ctx w2) = cx_marks (w_ctx w1)"
      by (auto simp: txn_sim_def)
    have "sub2 \<le> hi'" using w2(2) w1(2) hi by linarith
    then show ?thesis
      using Inr Inr2 x y ev w1 w2 past_kept_trans [OF w1(4) w2(4)] by (auto simp: txn_sim_def Let_def inner_def)
  qed
qed

lemma txn_ops_sim:
  assumes "txn_env alone ri snap n before st main past" "txn_at ri snap n main sub wrote S w" "ops_fit alone sub ops"
  shows "txn_sim ri snap n main (sub + length (op_muts ops)) w (spec_ops before st main past ops wrote S)
    (txn_ops ri snap st ops \<lparr>tx_main = main, tx_sub = int sub, tx_produced_any = wrote\<rparr> w)"
  using assms
proof (induction before st main past ops wrote S arbitrary: sub w rule: spec_ops.induct)
  case (1 before st main past wrote S)
  then show ?case by (auto simp: txn_sim_def)
next
  case (2 before st main past r ops wrote S)
  have sub: "int sub \<le> i64_max" and ops: "ops_fit alone sub ops" and rev: "ro_revision r = 0 \<or> n = main - 1"
    using "2.prems"(1,3) by (auto simp: ops_fit_def txn_env_def)
  have env: "rv_current st = main - 1" "0 < main" "past_ok ri snap n (rv_compact st) past"
    using "2.prems"(1) by (auto simp: txn_env_def)
  note rd = range_op_sim [OF "2.prems"(2) sub env rev]
  show ?case
  proof (cases "spec_read st main past r wrote (km_map S)")
    case (Inl e)
    then show ?thesis using rd txn_at_values [OF "2.prems"(2)] by (auto simp: txn_sim_def)
  next
    case (Inr res)
    with rd obtain w1 where w1: "range_inner ri snap (if wrote then st\<lparr>rv_current := main\<rparr> else st) r w = (Inr res, w1)"
      "w_ctx w1 = w_ctx w" "work_ok ri snap n (Revision main (int sub)) w1" by auto
    note ih = "2.IH" [OF Inr "2.prems"(1) txn_at_ctx [OF "2.prems"(2) w1(2,3)] ops]
    then show ?thesis
      using Inr w1(1,2) by (cases "spec_ops before st main past ops wrote S") (fastforce simp: txn_sim_def)+
  qed
next
  case (3 before st main past m ops wrote S)
  have sub: "int sub \<le> i64_max" and ops: "ops_fit alone (sub + 1) ops" and m: "mut_ok m"
    using "3.prems"(3) by (auto simp: ops_fit_def)
  have env: "0 \<le> n" "n < main" using "3.prems"(1) by (auto simp: txn_env_def)
  note one = txn_at_step [OF "3.prems"(2) env sub m]
  show ?case
  proof (cases "spec_mutation main m S")
    case (Inl e)
    then show ?thesis using one by (auto simp: txn_sim_def)
  next
    case (Inr x)
    obtain res es S' where x: "x = (res, es, S')" by (metis prod_cases3)
    from one Inr x obtain w1 where w1: "apply_one ri snap (Revision main (int sub)) m w = (Inr (res, es \<noteq> []), w1)"
      "txn_at ri snap n main (sub + 1) (wrote \<or> es \<noteq> []) S' w1" "past_kept ri snap main (w_ctx w) (w_ctx w1)"
      "cx_events (w_ctx w1) = cx_events (w_ctx w) @ es" "cx_marks (w_ctx w1) = cx_marks (w_ctx w)" by auto
    note ih = "3.IH" [OF Inr x [symmetric] refl "3.prems"(1) w1(2) ops]
    then show ?thesis
      using Inr x w1(1,3-5) past_kept_trans [OF w1(3)] by (cases "spec_ops before st main past ops (wrote \<or> es \<noteq> []) S'")
        (fastforce simp: txn_sim_def add.commute)+
  qed
next
  case (4 before st main past compares success failure ops wrote S)
  let ?inner = "if list_all (spec_compare before) compares then success else failure"
  note fit = ops_fit_nested [OF "4.prems"(3)]
  have base: "base_ok ri snap n" using "4.prems"(2) by (simp add: txn_at_def work_ok_def)
  have "models ri snap ctx_default before" using "4.prems"(1) fit(1) by (simp add: txn_env_def)
  from evaluate_compares_result [OF base ctx_default_ok [OF base] this txn_at_values [OF "4.prems"(2)], of compares]
  obtain vc where ev: "evaluate_compares ri snap ctx_default compares (w_values w) =
      (Inr (list_all (spec_compare before) compares), vc)" "cache_fits ri snap n vc" by blast
  have at: "txn_at ri snap n main sub wrote S (w\<lparr>w_values := vc\<rparr>)"
    using "4.prems"(2) ev(2) by (simp add: txn_at_def work_ok_def)
  show ?case
    by (rule nested_txn_sim [OF ev(1) "4.IH"(1) [OF refl "4.prems"(1) at fit(2)]
          "4.IH"(2) [OF refl _ refl refl refl "4.prems"(1) _ fit(3)]]) auto
qed

end
