(* ===== verification/Mvcc_Commit.thy ===== *)
theory Mvcc_Commit
  imports Mvcc_Requests
begin

text \<open>
  The store at rest: its invariant, and what committing a context makes of it. The tables of the
  engine, the resident index, the value cache, the read view and the counters in \<^verbatim>\<open>mvcc_meta\<close>
  agree, and a commit keeps them so while moving the store to the state the context stands for.
\<close>

section \<open>The invariant\<close>

text \<open>The index table is the resident index, key by key.\<close>

definition idx_agrees :: "engine \<Rightarrow> resident_index \<Rightarrow> bool" where
  "idx_agrees e ri \<longleftrightarrow>
     (\<forall>k. fmlookup (t_idx e) k = map_option (\<lambda>g. \<lparr>i_key = k, i_generations = g\<rparr>) (fmlookup (ri_map ri) k))"

text \<open>The keys of \<^verbatim>\<open>mvcc_meta\<close> that staged raft metadata may write.\<close>

definition raft_key :: "string \<Rightarrow> bool" where
  "raft_key k \<longleftrightarrow> k \<in> {META_KEY_RAFT_APPLIED, META_KEY_RAFT_MEMBERSHIP, META_KEY_RAFT_BATCH, META_KEY_BATCHED}"

definition meta_ok :: "mvcc_store \<Rightarrow> bool" where
  "meta_ok st \<longleftrightarrow>
     i64_ok (current_rev (s_ws st)) \<and> i64_ok (compact_rev (s_ws st)) \<and> i64_ok (next_lease_id (s_ws st)) \<and>
     or_zero (read_i64 (s_engine st) META_KEY_CURRENT_REV) = current_rev (s_ws st) \<and>
     or_zero (read_i64 (s_engine st) META_KEY_COMPACT_REV) = compact_rev (s_ws st) \<and>
     or_zero (read_i64 (s_engine st) META_KEY_NEXT_LEASE_ID) = next_lease_id (s_ws st) \<and>
     list_all (\<lambda>p. raft_key (fst p)) (s_pending st)"

definition store_ok :: "mvcc_store \<Rightarrow> bool" where
  "store_ok st \<longleftrightarrow>
     base_ok (s_index st) (s_engine st) (current_rev (s_ws st)) \<and>
     cache_fits (s_index st) (s_engine st) (current_rev (s_ws st)) (s_values st) \<and>
     idx_agrees (s_engine st) (s_index st) \<and> ri_ok (s_index st) \<and> meta_ok st \<and>
     0 \<le> current_rev (s_ws st) \<and> v_revs (s_view st) = ws_revs (s_ws st)"

text \<open>The specification's state the store stands for.\<close>

definition stands_for :: "mvcc_store \<Rightarrow> spec_store \<Rightarrow> bool" where
  "stands_for st sp \<longleftrightarrow>
     sp_revs sp = ws_revs (s_ws st) \<and> models (s_index st) (s_engine st) ctx_default (sp_now sp) \<and>
     past_ok (s_index st) (s_engine st) (current_rev (s_ws st)) (compact_rev (s_ws st)) (sp_past sp)"

section \<open>Batches\<close>

fun meta_op :: "store_op \<Rightarrow> bool" where
  "meta_op (MetaPut _ _) = True"
| "meta_op _ = False"

lemma row_ops_keep:
  "list_all row_op b \<Longrightarrow> t_idx (engine_commit e b) = t_idx e \<and> t_meta (engine_commit e b) = t_meta e \<and>
     t_auth (engine_commit e b) = t_auth e"
proof (induction b arbitrary: e)
  case (Cons op b)
  then show ?case by (cases op) auto
qed simp

lemma meta_ops_keep:
  "list_all meta_op b \<Longrightarrow> t_idx (engine_commit e b) = t_idx e \<and> t_kv (engine_commit e b) = t_kv e \<and>
     t_lease_keys (engine_commit e b) = t_lease_keys e \<and> t_lease (engine_commit e b) = t_lease e \<and>
     t_auth (engine_commit e b) = t_auth e"
proof (induction b arbitrary: e)
  case (Cons op b)
  then show ?case by (cases op) auto
qed simp

lemma meta_puts_lookup:
  "k \<notin> fst ` set ps \<Longrightarrow>
   fmlookup (t_meta (engine_commit e (map (\<lambda>(k, v). MetaPut k v) ps))) k = fmlookup (t_meta e) k"
  by (induction ps arbitrary: e) (auto split: prod.splits)

lemma idx_puts_keep:
  "t_kv (engine_commit e (map (\<lambda>(k, i). IdxPut k i) rows)) = t_kv e \<and>
   t_lease_keys (engine_commit e (map (\<lambda>(k, i). IdxPut k i) rows)) = t_lease_keys e \<and>
   t_meta (engine_commit e (map (\<lambda>(k, i). IdxPut k i) rows)) = t_meta e \<and>
   t_lease (engine_commit e (map (\<lambda>(k, i). IdxPut k i) rows)) = t_lease e \<and>
   t_auth (engine_commit e (map (\<lambda>(k, i). IdxPut k i) rows)) = t_auth e"
  by (induction rows arbitrary: e) (auto split: prod.splits)

lemma idx_puts_lookup:
  assumes "distinct (map fst rows)"
  shows "fmlookup (t_idx (engine_commit e (map (\<lambda>(k, i). IdxPut k i) rows))) k =
    (case map_of rows k of Some i \<Rightarrow> Some i | None \<Rightarrow> fmlookup (t_idx e) k)"
  using assms
proof (induction rows arbitrary: e)
  case (Cons r rows)
  obtain j i where r: "r = (j, i)" by fastforce
  then have "map_of rows j = None" using Cons.prems by (simp add: map_of_eq_None_iff)
  then show ?case using Cons r by (auto split: option.split)
qed simp

lemma idx_sets_lookup:
  assumes "distinct (map fst rows)" "\<forall>(k, i) \<in> set rows. i_generations i \<noteq> []"
  shows "fmlookup (ri_map (fold (\<lambda>(k, i). idx_set k (i_generations i)) rows ri)) k =
    (case map_of rows k of Some i \<Rightarrow> Some (i_generations i) | None \<Rightarrow> fmlookup (ri_map ri) k)"
  using assms
proof (induction rows arbitrary: ri)
  case (Cons r rows)
  obtain j i where r: "r = (j, i)" by fastforce
  then have "map_of rows j = None" using Cons.prems by (simp add: map_of_eq_None_iff)
  then show ?case using Cons r by (auto split: option.split)
qed simp

lemma idx_sets_ok: "ri_ok ri \<Longrightarrow> ri_ok (fold (\<lambda>(k, i). idx_set k (i_generations i)) rows ri)"
  by (induction rows arbitrary: ri) (auto simp: idx_set_ok)

section \<open>Committing\<close>

lemma commit_folded_eq:
  "commit_folded b st = st\<lparr>s_pending := [],
     s_engine := engine_commit (s_engine st) (b @ map (\<lambda>(k, v). MetaPut k v) (s_pending st))\<rparr>"
  by (cases "s_pending st = []") (simp_all add: commit_folded_def fold_raft_meta_def)

lemma meta_puts_ops: "list_all meta_op (map (\<lambda>(k, v). MetaPut k v) ps)"
  by (simp add: list_all_iff split_def)

lemma fmap_rows: "distinct (map fst (sorted_list_of_fmap m))" "map_of (sorted_list_of_fmap m) = fmlookup m"
  by (simp_all add: sorted_keys_distinct)

definition cache_gens :: "apply_context \<Rightarrow> bool" where
  "cache_gens ctx \<longleftrightarrow> (\<forall>k i. fmlookup (cx_idx_cache ctx) k = Some i \<longrightarrow> i_key i = k \<and> i_generations i \<noteq> [])"

lemma ctx_ok_cache_gens: "ctx_ok ri snap n b ctx \<Longrightarrow> cache_gens ctx"
  by (simp add: ctx_ok_def cache_gens_def)

lemma commit_engine:
  fixes e :: engine and main :: int and ps :: "(string \<times> bytes) list"
  assumes "list_all row_op (cx_batch ctx)"
  defines "e' \<equiv> engine_commit e (commit_batch main ctx @ map (\<lambda>(k, v). MetaPut k v) ps)"
  shows "eng_kv e' = ctx_kv e ctx" "eng_lk e' = ctx_lk e ctx"
    "fmlookup (t_idx e') k = (case fmlookup (cx_idx_cache ctx) k of Some i \<Rightarrow> Some i | None \<Rightarrow> fmlookup (t_idx e) k)"
    "t_auth e' = t_auth e"
    "m \<noteq> META_KEY_CURRENT_REV \<Longrightarrow> m \<notin> fst ` set ps \<Longrightarrow> fmlookup (t_meta e') m = fmlookup (t_meta e) m"
    "META_KEY_CURRENT_REV \<notin> fst ` set ps \<Longrightarrow> fmlookup (t_meta e') META_KEY_CURRENT_REV = Some (i64_to_be_bytes main)"
proof -
  let ?r = "engine_commit e (cx_batch ctx)" and ?rows = "sorted_list_of_fmap (cx_idx_cache ctx)"
  let ?i = "engine_commit ?r (map (\<lambda>(k, i). IdxPut k i) ?rows)"
  have e': "e' = engine_commit (?i\<lparr>t_meta := fmupd META_KEY_CURRENT_REV (i64_to_be_bytes main) (t_meta ?i)\<rparr>)
      (map (\<lambda>(k, v). MetaPut k v) ps)"
    by (simp add: e'_def commit_batch_def write_i64_def)
  note keep = meta_ops_keep [OF meta_puts_ops, of _ ps] idx_puts_keep [of ?r ?rows] row_ops_keep [OF assms(1), of e]
  show "eng_kv e' = ctx_kv e ctx" "eng_lk e' = ctx_lk e ctx" "t_auth e' = t_auth e"
    using keep by (simp_all add: e' eng_kv_def eng_lk_def ctx_kv_def ctx_lk_def fun_eq_iff)
  show "fmlookup (t_idx e') k = (case fmlookup (cx_idx_cache ctx) k of Some i \<Rightarrow> Some i | None \<Rightarrow> fmlookup (t_idx e) k)"
    using keep by (simp add: e' idx_puts_lookup [OF fmap_rows(1)] split: option.split)
  show "fmlookup (t_meta e') m = fmlookup (t_meta e) m" if "m \<noteq> META_KEY_CURRENT_REV" "m \<notin> fst ` set ps"
    using keep that by (simp add: e' meta_puts_lookup)
  show "fmlookup (t_meta e') META_KEY_CURRENT_REV = Some (i64_to_be_bytes main)" if "META_KEY_CURRENT_REV \<notin> fst ` set ps"
    using that by (simp add: e' meta_puts_lookup)
qed

lemma commit_index:
  fixes ri :: resident_index
  assumes "cache_gens ctx"
  defines "ri' \<equiv> fold (\<lambda>(k, i). idx_set k (i_generations i)) (sorted_list_of_fmap (cx_idx_cache ctx)) ri"
  shows "fmlookup (ri_map ri') k =
      (case fmlookup (cx_idx_cache ctx) k of Some i \<Rightarrow> Some (i_generations i) | None \<Rightarrow> fmlookup (ri_map ri) k)"
    "ri_gens ri' = ctx_gens ri ctx"
proof -
  have "\<forall>(k, i) \<in> set (sorted_list_of_fmap (cx_idx_cache ctx)). i_generations i \<noteq> []"
    using assms(1) by (auto simp: cache_gens_def)
  from idx_sets_lookup [OF fmap_rows(1) this, of ri]
  show l: "fmlookup (ri_map ri') k =
      (case fmlookup (cx_idx_cache ctx) k of Some i \<Rightarrow> Some (i_generations i) | None \<Rightarrow> fmlookup (ri_map ri) k)" for k
    by (simp add: ri'_def)
  show "ri_gens ri' = ctx_gens ri ctx"
    by (rule ext) (simp add: ri_gens_def ctx_gens_def l split: option.split)
qed

text \<open>The value cache after a commit.\<close>

lemma cache_fits_commit:
  assumes base: "base_ok ri snap n" and ok: "ctx_ok ri snap n b ctx" and vc: "cache_fits ri snap n vc" and n: "n \<le> n'"
    and ri': "ri_gens ri' = ctx_gens ri ctx" and snap': "eng_kv snap' = ctx_kv snap ctx"
  shows "cache_fits ri' snap' n' vc"
proof -
  let ?P = "\<lambda>k rv rec. rmain rv \<le> n \<and> ((rv, False) \<in> set (hist (ri_gens ri k)) \<longrightarrow> eng_kv snap (k, rv) = Some rec)"
  have all: "vc_ok vc" "vc_all ?P vc" using vc by (simp_all add: cache_fits_def)
  have "vc_all (\<lambda>k rv rec. rmain rv \<le> n' \<and>
      ((rv, False) \<in> set (hist (ri_gens ri' k)) \<longrightarrow> eng_kv snap' (k, rv) = Some rec)) vc"
  proof (rule vc_all_mono [OF all(2)])
    fix k rv rec
    assume P: "?P k rv rec"
    have "eng_kv snap' (k, rv) = Some rec" if h: "(rv, False) \<in> set (hist (ri_gens ri' k))"
      using P ctx_event_base [OF base ok h [unfolded ri']] unfolding snap' by simp
    then show "rmain rv \<le> n' \<and> ((rv, False) \<in> set (hist (ri_gens ri' k)) \<longrightarrow> eng_kv snap' (k, rv) = Some rec)"
      using P n by simp
  qed
  then show ?thesis using all(1) by (simp add: cache_fits_def)
qed

lemma cache_fits_remove: "cache_fits ri snap n vc \<Longrightarrow> cache_fits ri snap n (vc_remove k vc)"
  using vc_remove_result by (simp add: cache_fits_def)

lemma cache_record_fits:
  assumes vc: "cache_fits ri snap n vc" and rec: "fmlookup (cx_latest ctx) k = Some rec"
    and row: "\<And>i rv v. fmlookup (cx_idx_cache ctx) k = Some i \<Longrightarrow> current i = Some (rv, v) \<Longrightarrow>
        rmain rv \<le> n \<and> eng_kv snap (k, rv) = Some rec"
  shows "cache_fits ri snap n (cache_record ctx (k, rec) vc)"
proof (cases "Option.bind (fmlookup (cx_idx_cache ctx) k) current")
  case None
  then show ?thesis using cache_fits_remove [OF vc] by (simp add: cache_record_def)
next
  case (Some p)
  then obtain i rv v where "fmlookup (cx_idx_cache ctx) k = Some i" "current i = Some (rv, v)" "p = (rv, v)"
    by (cases p) (auto simp: bind_eq_Some_conv)
  then show ?thesis
    using row Some cache_fits_remove [OF vc] cache_fits_insert [OF vc] by (auto simp: cache_record_def)
qed

lemma cache_records_fits:
  assumes vc: "cache_fits ri snap n vc" and rows: "\<forall>(k, rec) \<in> set rows. fmlookup (cx_latest ctx) k = Some rec"
    and row: "\<And>k rec i rv v. fmlookup (cx_latest ctx) k = Some rec \<Longrightarrow> fmlookup (cx_idx_cache ctx) k = Some i \<Longrightarrow>
        current i = Some (rv, v) \<Longrightarrow> rmain rv \<le> n \<and> eng_kv snap (k, rv) = Some rec"
  shows "cache_fits ri snap n (fold (cache_record ctx) rows vc)"
  using vc rows
proof (induction rows arbitrary: vc)
  case (Cons r rows)
  obtain k rec where r: "r = (k, rec)" by fastforce
  have "cache_fits ri snap n (cache_record ctx (k, rec) vc)"
    by (rule cache_record_fits [OF Cons.prems(1)]) (use Cons.prems(2) r row in auto)
  then show ?case using Cons r by simp
qed simp

text \<open>The records of a context are those of its newest events.\<close>

lemma ctx_latest_current:
  assumes ok: "ctx_ok ri snap n b ctx" and b: "b \<le> Revision (main + 1) 0"
    and rec: "fmlookup (cx_latest ctx) k = Some rec" and i: "fmlookup (cx_idx_cache ctx) k = Some i"
    and c: "current i = Some (rv, v)"
  shows "rmain rv \<le> main \<and> ctx_kv snap ctx (k, rv) = Some rec"
proof -
  have g: "ctx_gens ri ctx k = i_generations i" using i by (simp add: ctx_gens_def)
  then have gc: "gens_current (ctx_gens ri ctx k) = Some (rv, v)" using c by (simp add: current_def)
  have "gens_below (ctx_gens ri ctx k) (Revision (main + 1) 0)"
    using gens_below_mono [OF tables_ok_below [OF ctx_ok_tables [OF ok]] b] .
  from below_seen [OF ctx_ok_key [OF ok] this in_hist_current [OF gc]] have "rmain rv \<le> main"
    by (cases rv) (auto simp: less_eq_revision_def less_revision_def)
  moreover have "ctx_kv snap ctx (k, fst (last (hist (i_generations i)))) = Some rec"
    using ok rec i by (simp add: ctx_ok_def)
  ultimately show ?thesis using last_hist_current [OF gc] g by simp
qed

lemma raft_key_meta: "raft_key k \<Longrightarrow> k \<noteq> META_KEY_CURRENT_REV \<and> k \<noteq> META_KEY_COMPACT_REV \<and>
    k \<noteq> META_KEY_NEXT_LEASE_ID \<and> k \<noteq> META_KEY_CLUSTER_ID"
  by (auto simp: raft_key_def meta_keys)

lemma pending_keys:
  assumes "list_all (\<lambda>p. raft_key (fst p)) ps"
  shows "META_KEY_CURRENT_REV \<notin> fst ` set ps" "META_KEY_COMPACT_REV \<notin> fst ` set ps"
    "META_KEY_NEXT_LEASE_ID \<notin> fst ` set ps"
  using assms raft_key_meta by (fastforce simp: list_all_iff)+

lemma commit_ok:
  assumes st: "store_ok st" and ok: "work_ok (s_index st) (s_engine st) (current_rev (s_ws st)) b w"
    and main: "current_rev (s_ws st) \<le> main" "main \<le> i64_max" "b \<le> Revision (main + 1) 0"
  defines "st' \<equiv> commit_ctx main (w_ctx w) (end_work w st)"
  shows "store_ok st'" "ri_gens (s_index st') = ctx_gens (s_index st) (w_ctx w)"
    "eng_kv (s_engine st') = ctx_kv (s_engine st) (w_ctx w)" "s_ws st' = (s_ws st)\<lparr>current_rev := main\<rparr>"
    "s_events st' = s_events st @ event_batches main (w_ctx w)"
proof -
  let ?ctx = "w_ctx w" and ?n = "current_rev (s_ws st)" and ?ps = "s_pending st"
  have base: "base_ok (s_index st) (s_engine st) ?n" and ctx: "ctx_ok (s_index st) (s_engine st) ?n b ?ctx"
    and vc: "cache_fits (s_index st) (s_engine st) ?n (w_values w)" using ok by (simp_all add: work_ok_def)
  have rows: "list_all row_op (cx_batch ?ctx)" using ctx by (simp add: ctx_ok_def)
  have pend: "list_all (\<lambda>p. raft_key (fst p)) ?ps" using st by (simp add: store_ok_def meta_ok_def)
  have eng: "s_engine st' = engine_commit (s_engine st) (commit_batch main ?ctx @ map (\<lambda>(k, v). MetaPut k v) ?ps)"
    by (simp add: st'_def commit_ctx_def commit_folded_eq end_work_def Let_def)
  have idx: "s_index st' = fold (\<lambda>(k, i). idx_set k (i_generations i)) (sorted_list_of_fmap (cx_idx_cache ?ctx)) (s_index st)"
    by (simp add: st'_def commit_ctx_def commit_folded_eq end_work_def Let_def)
  note ce = commit_engine [OF rows, where e = "s_engine st" and main = main and ps = ?ps, folded eng]
  note ci = commit_index [OF ctx_ok_cache_gens [OF ctx], where ri = "s_index st", folded idx]
  show gens: "ri_gens (s_index st') = ctx_gens (s_index st) ?ctx" by (rule ci(2))
  show kv: "eng_kv (s_engine st') = ctx_kv (s_engine st) ?ctx" by (rule ce(1))
  show ws: "s_ws st' = (s_ws st)\<lparr>current_rev := main\<rparr>"
    "s_events st' = s_events st @ event_batches main ?ctx"
    by (simp_all add: st'_def commit_ctx_def commit_folded_eq end_work_def Let_def)
  have "tables_ok (Revision (main + 1) 0) (ri_gens (s_index st')) (eng_kv (s_engine st')) (eng_lk (s_engine st'))"
    unfolding gens kv ce(2) using tables_ok_mono [OF ctx_ok_tables [OF ctx] main(3)] .
  moreover have "fmlookup (ri_map (s_index st')) k \<noteq> Some []" for k
    using base ctx by (simp add: ci(1) base_ok_def ctx_ok_def split: option.split)
  ultimately have b': "base_ok (s_index st') (s_engine st') main" by (simp add: base_ok_def)
  have "cache_fits (s_index st') (s_engine st') main (w_values w)"
    by (rule cache_fits_commit [OF base ctx vc main(1) gens kv])
  then have c': "cache_fits (s_index st') (s_engine st') main
      (fold (cache_record ?ctx) (sorted_list_of_fmap (cx_latest ?ctx)) (w_values w))"
    by (rule cache_records_fits) (use ctx_latest_current [OF ctx main(3)] kv in auto)
  have pd: "s_pending st' = []" by (simp add: st'_def commit_ctx_def commit_folded_eq end_work_def Let_def)
  have vals: "s_values st' = fold (cache_record ?ctx) (sorted_list_of_fmap (cx_latest ?ctx)) (w_values w)"
    by (simp add: st'_def commit_ctx_def commit_folded_eq end_work_def Let_def)
  have "fmlookup (t_idx (s_engine st')) k =
      map_option (\<lambda>g. \<lparr>i_key = k, i_generations = g\<rparr>) (fmlookup (ri_map (s_index st')) k)" for k
    using st ctx by (auto simp: ce(3) ci(1) store_ok_def idx_agrees_def ctx_ok_def split: option.split)
  then have a': "idx_agrees (s_engine st') (s_index st')" by (simp add: idx_agrees_def)
  have "i64_ok main" using st main by (simp add: store_ok_def i64_defs)
  then have m': "meta_ok st'"
    using st ce(5,6) pending_keys [OF pend] ws(1) pd
    by (simp add: store_ok_def meta_ok_def read_i64_def i64_roundtrip or_zero_def meta_keys)
  show "store_ok st'"
    using b' c' a' m' st main idx_sets_ok [of "s_index st"] ws(1) vals idx
    by (simp add: store_ok_def ws_revs_def) (simp add: st'_def commit_ctx_def commit_folded_eq end_work_def Let_def view_publish_def view_store_def)
qed

end
