(* ===== verification/Mvcc_Batches.thy ===== *)
theory Mvcc_Batches
  imports Mvcc_Commit
begin

text \<open>
  Requests: an apply, a transaction and a shared commit of several of them each give the
  specification's answer and events, and leave a store that stands for the specification's state.
  A shared commit is the same as its requests one by one.
\<close>

section \<open>Between two requests of one commit\<close>

text \<open>The revisions a context shows, pending ones included.\<close>

definition ctx_past :: "resident_index \<Rightarrow> engine \<Rightarrow> apply_context \<Rightarrow> int \<Rightarrow> int \<Rightarrow> (int \<Rightarrow> kv_map) \<Rightarrow> bool" where
  "ctx_past ri snap ctx cur compacted past \<longleftrightarrow>
     (\<forall>r. r \<le> cur \<and> r \<noteq> 0 \<and> (r < 0 \<or> compacted \<le> r) \<longrightarrow>
        (\<forall>k. fmlookup (past r) k = at_rec (ctx_gens ri ctx) (ctx_kv snap ctx) (Revision r i64_max) k))"

definition batch_at :: "mvcc_store \<Rightarrow> int \<Rightarrow> work \<Rightarrow> spec_store \<Rightarrow> bool" where
  "batch_at st cur w sp \<longleftrightarrow>
     work_ok (s_index st) (s_engine st) (current_rev (s_ws st)) (Revision (cur + 1) 0) w \<and>
     models (s_index st) (s_engine st) (w_ctx w) (sp_now sp) \<and>
     sp_revs sp = \<lparr>rv_current = cur, rv_compact = compact_rev (s_ws st)\<rparr> \<and>
     ctx_past (s_index st) (s_engine st) (w_ctx w) cur (compact_rev (s_ws st)) (sp_past sp) \<and>
     current_rev (s_ws st) \<le> cur \<and> 0 \<le> current_rev (s_ws st)"

lemma start_work_simps [simp]:
  "w_ctx (start_work st) = ctx_default" "w_values (start_work st) = s_values st"
  by (simp_all add: start_work_def)

lemma batch_start:
  assumes "store_ok st" "stands_for st sp"
  shows "batch_at st (current_rev (s_ws st)) (start_work st) sp"
  using assms ctx_default_ok by (simp add: batch_at_def store_ok_def stands_for_def work_ok_def ws_revs_def ctx_past_def past_ok_def)

lemma batch_past_ok:
  assumes "batch_at st cur w sp"
  shows "past_ok (s_index st) (s_engine st) (current_rev (s_ws st)) (rv_compact (sp_revs sp)) (sp_past sp)"
proof -
  have "at_rec (ctx_gens (s_index st) (w_ctx w)) (ctx_kv (s_engine st) (w_ctx w)) (Revision r i64_max) =
      at_rec (ri_gens (s_index st)) (eng_kv (s_engine st)) (Revision r i64_max)" if "r \<le> current_rev (s_ws st)" for r
    using assms that work_ok_ctx unfolding batch_at_def ctx_ok_def by (metis revision.sel(1))
  then show ?thesis using assms by (simp add: past_ok_def batch_at_def ctx_past_def)
qed

text \<open>A request that changes the store moves it to the next revision.\<close>

lemma batch_advance:
  assumes at: "batch_at st cur w sp" and ok: "work_ok (s_index st) (s_engine st) (current_rev (s_ws st)) b w'"
    and b: "b \<le> Revision (cur + 2) 0" and S: "models (s_index st) (s_engine st) (w_ctx w') S"
    and past: "past_kept (s_index st) (s_engine st) (cur + 1) (w_ctx w) (w_ctx w')"
  shows "batch_at st (cur + 1) w' (spec_advance (cur + 1) S sp)"
proof -
  let ?G = "ctx_gens (s_index st) (w_ctx w')" and ?K = "ctx_kv (s_engine st) (w_ctx w')"
  have ok': "work_ok (s_index st) (s_engine st) (current_rev (s_ws st)) (Revision (cur + 1 + 1) 0) w'"
    using work_ok_mono [OF ok b] by (simp add: add.commute)
  have now: "at_rec ?G ?K (Revision (cur + 1) i64_max) k = fmlookup (km_map S) k" for k
  proof -
    have "\<forall>e \<in> set (hist (?G k)). fst e \<le> Revision (cur + 1) i64_max"
      using below_seen [OF work_ok_key [OF ok'] work_ok_below [OF ok' order.refl]] by blast
    from at_rec_current [where G = ?G, OF work_ok_key [OF ok'] this] show ?thesis using S by (simp add: models_def)
  qed
  have "ctx_past (s_index st) (s_engine st) (w_ctx w') (cur + 1) (compact_rev (s_ws st)) ((sp_past sp)(cur + 1 := km_map S))"
    unfolding ctx_past_def
  proof (intro allI impI)
    fix r k
    assume r: "r \<le> cur + 1 \<and> r \<noteq> 0 \<and> (r < 0 \<or> compact_rev (s_ws st) \<le> r)"
    show "fmlookup (((sp_past sp)(cur + 1 := km_map S)) r) k = at_rec ?G ?K (Revision r i64_max) k"
    proof (cases "r = cur + 1")
      case True
      then show ?thesis using now by simp
    next
      case False
      then have "rmain (Revision r i64_max) < cur + 1" using r by simp
      then show ?thesis using past at r False unfolding past_kept_def batch_at_def ctx_past_def by simp
    qed
  qed
  then show ?thesis using at ok' S by (simp add: batch_at_def spec_advance_def)
qed

text \<open>One that changes nothing leaves it.\<close>

lemma work_ok_fresh:
  assumes ok: "work_ok ri snap n b w" and f: "fresh ri (cur + 1) (w_ctx w)" and n: "n \<le> cur"
  shows "work_ok ri snap n (Revision (cur + 1) 0) w"
proof -
  have "Revision (n + 1) 0 \<le> Revision (cur + 1) 0" using n by (auto simp: less_eq_revision_def less_revision_def)
  then show ?thesis using ok f by (simp add: work_ok_def ctx_ok_def tables_ok_def fresh_def)
qed

lemma batch_fresh: "batch_at st cur w sp \<Longrightarrow> fresh (s_index st) (cur + 1) (w_ctx w)"
  using work_ok_below by (simp add: batch_at_def fresh_def) blast

lemma batch_keep:
  assumes "batch_at st cur w sp" "w_ctx w' = w_ctx w"
    "cache_fits (s_index st) (s_engine st) (current_rev (s_ws st)) (w_values w')"
  shows "batch_at st cur w' sp"
  using assms by (simp add: batch_at_def work_ok_def)

section \<open>Requests without effect\<close>

lemma spec_mutation_no_event:
  assumes "spec_mutation main m S = Inr (res, [], S')"
  shows "S' = S"
proof (cases m)
  case (MutPut k v l iv il p)
  then show ?thesis using assms by (simp add: spec_put_def Let_def split: if_split_asm)
next
  case (MutDeleteRange k e p)
  then show ?thesis using assms by (auto simp: spec_delete_range_def Let_def)
qed

lemma spec_mutations_no_event: "spec_mutations main ms S = Inr (rs, [], S') \<Longrightarrow> S' = S"
proof (induction ms arbitrary: S rs)
  case (Cons m ms)
  from Cons.prems obtain r S1 rs' where "spec_mutation main m S = Inr (r, [], S1)"
    "spec_mutations main ms S1 = Inr (rs', [], S')" by (auto simp: bind_res_eq_Inr)
  then show ?case using Cons.IH spec_mutation_no_event by blast
qed simp

lemma spec_ops_no_event:
  "spec_ops before st main past ops wrote S = Inr (rs, es, wrote', S') \<Longrightarrow>
     (wrote' \<longleftrightarrow> wrote \<or> es \<noteq> []) \<and> (es = [] \<longrightarrow> S' = S)"
proof (induction before st main past ops wrote S arbitrary: rs es wrote' S' rule: spec_ops.induct)
  case (2 before st main past r ops wrote S)
  from "2.prems" obtain res rs2 where r: "spec_read st main past r wrote (km_map S) = Inr res"
    and o: "spec_ops before st main past ops wrote S = Inr (rs2, es, wrote', S')"
    by (auto simp: bind_res_eq_Inr)
  from "2.IH" [OF r o] show ?case .
next
  case (3 before st main past m ops wrote S)
  from "3.prems" obtain res es1 S1 rs2 es2 where m: "spec_mutation main m S = Inr (res, es1, S1)"
    and o: "spec_ops before st main past ops (wrote \<or> es1 \<noteq> []) S1 = Inr (rs2, es2, wrote', S')" "es = es1 @ es2"
    by (auto simp: bind_res_eq_Inr)
  have "(wrote' \<longleftrightarrow> (wrote \<or> es1 \<noteq> []) \<or> es2 \<noteq> []) \<and> (es2 = [] \<longrightarrow> S' = S1)" by (rule "3.IH" [OF m refl refl o(1)])
  moreover have "S1 = S" if "es1 = []" using spec_mutation_no_event m that by blast
  ultimately show ?case using o(2) by (cases "es1 = []") simp_all
next
  case (4 before st main past cs success failure ops wrote S)
  let ?inner = "if list_all (spec_compare before) cs then success else failure"
  from "4.prems" obtain rs1 es1 wrote1 S1 rs2 es2 where
    i: "spec_ops before st main past ?inner wrote S = Inr (rs1, es1, wrote1, S1)"
    and o: "spec_ops before st main past ops wrote1 S1 = Inr (rs2, es2, wrote', S')" "es = es1 @ es2"
    by (auto simp: bind_res_eq_Inr Let_def)
  have "(wrote1 \<longleftrightarrow> wrote \<or> es1 \<noteq> []) \<and> (es1 = [] \<longrightarrow> S1 = S)" by (rule "4.IH"(1) [OF refl i])
  moreover have "(wrote' \<longleftrightarrow> wrote1 \<or> es2 \<noteq> []) \<and> (es2 = [] \<longrightarrow> S' = S1)"
    by (rule "4.IH"(2) [OF refl i refl refl refl o(1)])
  ultimately show ?case using o(2) by (cases "es1 = []") simp_all
qed simp

section \<open>One request\<close>

definition muts_fit :: "mutation list \<Rightarrow> bool" where
  "muts_fit ms \<longleftrightarrow> int (length ms) \<le> i64_max \<and> list_all mut_ok ms"

text \<open>What a request makes of the state between two requests: nothing, or the next revision with
  its events.\<close>

definition moved :: "mvcc_store \<Rightarrow> int \<Rightarrow> work \<Rightarrow> spec_store \<Rightarrow> mvcc_event list \<Rightarrow> spec_store \<Rightarrow> work \<Rightarrow> bool" where
  "moved st cur w sp es sp' w' \<longleftrightarrow>
     batch_at st (if es = [] then cur else cur + 1) w' sp' \<and> (es = [] \<longrightarrow> sp' = sp) \<and>
     cx_events (w_ctx w') = cx_events (w_ctx w) @ es \<and> cx_marks (w_ctx w') = cx_marks (w_ctx w)"

lemma main_bound: "int sub \<le> i64_max \<Longrightarrow> Revision (cur + 1) (int sub) \<le> Revision (cur + 2) 0"
  by (simp add: less_eq_revision_def less_revision_def)

lemma apply_inner_sim:
  assumes at: "batch_at st cur w sp" and ms: "muts_fit ms"
  shows "case spec_mutations (cur + 1) ms (sp_now sp) of
      Inl e \<Rightarrow> \<exists>w'. apply_inner (s_index st) (s_engine st) cur ms w = (Inl e, w') \<and>
        cache_fits (s_index st) (s_engine st) (current_rev (s_ws st)) (w_values w') \<and>
        (length ms = 1 \<longrightarrow> w_ctx w' = w_ctx w)
    | Inr (rs, es, S) \<Rightarrow> \<exists>w'. apply_inner (s_index st) (s_engine st) cur ms w = (Inr (cur + 1, rs, es \<noteq> []), w') \<and>
        moved st cur w sp es (if es = [] then sp else spec_advance (cur + 1) S sp) w'"
proof -
  let ?n = "current_rev (s_ws st)"
  have ok: "work_ok (s_index st) (s_engine st) ?n (Revision (cur + 1) (int 0)) w"
    and S: "models (s_index st) (s_engine st) (w_ctx w) (sp_now sp)" and n: "?n < cur + 1" "0 \<le> ?n"
    using at by (simp_all add: batch_at_def)
  have fit: "int (0 + length ms) \<le> i64_max" "\<forall>m \<in> set ms. mut_ok m" using ms by (simp_all add: muts_fit_def list_all_iff)
  note loop = apply_loop_sim [OF ok S n fit]
  show ?thesis
  proof (cases "spec_mutations (cur + 1) ms (sp_now sp)")
    case (Inl e)
    then show ?thesis using loop by (auto simp: apply_inner_def)
  next
    case (Inr x)
    obtain rs es S' where x: "x = (rs, es, S')" by (metis prod_cases3)
    from loop Inr x obtain w' where w': "apply_loop (s_index st) (s_engine st) (cur + 1) 0 ms w = (Inr (rs, es \<noteq> []), w')"
      "step_to (s_index st) (s_engine st) ?n (cur + 1) (Revision (cur + 1) (int (0 + length ms))) w es S' w'"
      "es = [] \<longrightarrow> w_ctx w' = w_ctx w" by auto
    have "moved st cur w sp es (if es = [] then sp else spec_advance (cur + 1) S' sp) w'"
    proof (cases "es = []")
      case True
      then show ?thesis using w' at batch_keep [OF at] by (simp add: moved_def step_to_def work_ok_def)
    next
      case False
      then show ?thesis
        using batch_advance [OF at _ main_bound [OF fit(1)]] w'(2) by (simp add: moved_def step_to_def)
    qed
    then show ?thesis using Inr x w'(1) by (auto simp: apply_inner_def)
  qed
qed

lemma batch_still:
  assumes at: "batch_at st cur w sp" and ok: "work_ok (s_index st) (s_engine st) (current_rev (s_ws st)) b w'"
    and fr: "fresh (s_index st) (cur + 1) (w_ctx w')" and S: "models (s_index st) (s_engine st) (w_ctx w') (sp_now sp)"
    and past: "past_kept (s_index st) (s_engine st) (cur + 1) (w_ctx w) (w_ctx w')"
  shows "batch_at st cur w' sp"
proof -
  have "current_rev (s_ws st) \<le> cur" using at by (simp add: batch_at_def)
  from work_ok_fresh [OF ok fr this]
  have "work_ok (s_index st) (s_engine st) (current_rev (s_ws st)) (Revision (cur + 1) 0) w'" .
  moreover have "ctx_past (s_index st) (s_engine st) (w_ctx w') cur (compact_rev (s_ws st)) (sp_past sp)"
    using at past by (simp add: batch_at_def ctx_past_def past_kept_def)
  ultimately show ?thesis using at S by (simp add: batch_at_def)
qed

definition spec_branch :: "spec_store \<Rightarrow> compare list \<Rightarrow> txn_op list \<Rightarrow> txn_op list \<Rightarrow> txn_op list" where
  "spec_branch sp cs success failure = (if list_all (spec_compare (sp_now sp)) cs then success else failure)"

lemma txn_run_sim:
  assumes at: "batch_at st cur w sp" and fit: "ops_fit alone 0 ops"
    and alone: "alone \<Longrightarrow> w_ctx w = ctx_default \<and> cur = current_rev (s_ws st)"
  shows "case spec_ops (sp_now sp) (sp_revs sp) (cur + 1) (sp_past sp) ops False (sp_now sp) of
      Inl e \<Rightarrow> \<exists>ex w'. txn_ops (s_index st) (s_engine st) (sp_revs sp) ops
          \<lparr>tx_main = cur + 1, tx_sub = 0, tx_produced_any = False\<rparr> w = (Inl e, ex, w') \<and>
        cache_fits (s_index st) (s_engine st) (current_rev (s_ws st)) (w_values w')
    | Inr (rs, es, wrote, S) \<Rightarrow> \<exists>sub w'. txn_ops (s_index st) (s_engine st) (sp_revs sp) ops
          \<lparr>tx_main = cur + 1, tx_sub = 0, tx_produced_any = False\<rparr> w =
            (Inr rs, \<lparr>tx_main = cur + 1, tx_sub = int sub, tx_produced_any = wrote\<rparr>, w') \<and>
        (wrote \<longleftrightarrow> es \<noteq> []) \<and> moved st cur w sp es (if es = [] then sp else spec_advance (cur + 1) S sp) w'"
proof -
  let ?n = "current_rev (s_ws st)" and ?ri = "s_index st" and ?snap = "s_engine st"
  have n: "0 \<le> ?n" "?n < cur + 1" "rv_current (sp_revs sp) = cur + 1 - 1" "models ?ri ?snap (w_ctx w) (sp_now sp)"
    using at by (simp_all add: batch_at_def)
  have env: "txn_env alone ?ri ?snap ?n (sp_now sp) (sp_revs sp) (cur + 1) (sp_past sp)"
    using n batch_past_ok [OF at] alone by (cases alone) (simp_all add: txn_env_def)
  have txn: "txn_at ?ri ?snap ?n (cur + 1) 0 False (sp_now sp) w"
    using at batch_fresh [OF at] by (simp add: txn_at_def batch_at_def)
  note sim = txn_ops_sim [OF env txn fit]
  show ?thesis
  proof (cases "spec_ops (sp_now sp) (sp_revs sp) (cur + 1) (sp_past sp) ops False (sp_now sp)")
    case (Inl e)
    then show ?thesis using sim by (simp add: txn_sim_def)
  next
    case (Inr x)
    obtain rs es wrote S where x: "x = (rs, es, wrote, S)" by (metis prod_cases4)
    have ne: "(wrote \<longleftrightarrow> es \<noteq> []) \<and> (es = [] \<longrightarrow> S = sp_now sp)" using spec_ops_no_event [OF Inr [unfolded x]] by simp
    from sim Inr x obtain sub w' where w':
      "txn_ops ?ri ?snap (sp_revs sp) ops \<lparr>tx_main = cur + 1, tx_sub = 0, tx_produced_any = False\<rparr> w =
        (Inr rs, \<lparr>tx_main = cur + 1, tx_sub = int sub, tx_produced_any = wrote\<rparr>, w')"
      "sub \<le> length (op_muts ops)" "txn_at ?ri ?snap ?n (cur + 1) sub wrote S w'"
      "past_kept ?ri ?snap (cur + 1) (w_ctx w) (w_ctx w')"
      "cx_events (w_ctx w') = cx_events (w_ctx w) @ es" "cx_marks (w_ctx w') = cx_marks (w_ctx w)"
      by (auto simp: txn_sim_def)
    have ok': "work_ok ?ri ?snap ?n (Revision (cur + 1) (int sub)) w'" and S: "models ?ri ?snap (w_ctx w') S"
      using w'(3) by (simp_all add: txn_at_def)
    have "int sub \<le> i64_max" using w'(2) fit by (simp add: ops_fit_def)
    note adv = batch_advance [OF at ok' main_bound [OF this] S w'(4)]
    have "moved st cur w sp es (if es = [] then sp else spec_advance (cur + 1) S sp) w'"
    proof (cases "es = []")
      case True
      then have "fresh ?ri (cur + 1) (w_ctx w')" "S = sp_now sp" using ne w'(3) by (simp_all add: txn_at_def)
      then show ?thesis using True batch_still [OF at ok' _ _ w'(4)] S w'(5,6) by (simp add: moved_def)
    next
      case False
      then show ?thesis using adv w'(5,6) by (simp add: moved_def)
    qed
    then show ?thesis using Inr x w'(1) ne by auto
  qed
qed

section \<open>Ending a commit\<close>

lemma end_work_ok:
  assumes "store_ok st" "cache_fits (s_index st) (s_engine st) (current_rev (s_ws st)) (w_values w)"
  shows "store_ok (end_work w st)"
  using assms by (simp add: store_ok_def meta_ok_def end_work_def)

lemma end_work_stands: "stands_for (end_work w st) sp = stands_for st sp"
  by (simp add: stands_for_def end_work_def)

lemma end_work_events [simp]: "s_events (end_work w st) = s_events st"
  by (simp add: end_work_def)

lemma ops_count_ok [simp]:
  "store_ok (st\<lparr>s_ops := x\<rparr>) = store_ok st" "stands_for (st\<lparr>s_ops := x\<rparr>) sp = stands_for st sp"
  by (simp_all add: store_ok_def meta_ok_def stands_for_def)

lemma values_eq_end_work: "st\<lparr>s_values := vc\<rparr> = end_work \<lparr>w_ctx = ctx_default, w_values = vc, w_ops = s_ops st\<rparr> st"
  by (simp add: end_work_def)

lemma commit_batch_at:
  assumes st: "store_ok st" and at: "batch_at st cur w sp" and cur: "cur \<le> i64_max"
  shows "store_ok (commit_ctx cur (w_ctx w) (end_work w st))" "stands_for (commit_ctx cur (w_ctx w) (end_work w st)) sp"
    "s_events (commit_ctx cur (w_ctx w) (end_work w st)) = s_events st @ event_batches cur (w_ctx w)"
proof -
  let ?st' = "commit_ctx cur (w_ctx w) (end_work w st)"
  have ok: "work_ok (s_index st) (s_engine st) (current_rev (s_ws st)) (Revision (cur + 1) 0) w"
    and le: "current_rev (s_ws st) \<le> cur" using at by (simp_all add: batch_at_def)
  note c = commit_ok [OF st ok le cur order.refl]
  show "store_ok ?st'" "s_events ?st' = s_events st @ event_batches cur (w_ctx w)" using c by simp_all
  have "models (s_index ?st') (s_engine ?st') ctx_default (sp_now sp)"
    using at c(2,3) by (simp add: models_def batch_at_def)
  moreover have "past_ok (s_index ?st') (s_engine ?st') cur (compact_rev (s_ws st)) (sp_past sp)"
    using at c(2,3) by (simp add: past_ok_def batch_at_def ctx_past_def)
  ultimately show "stands_for ?st' sp" using at c(4) by (simp add: stands_for_def ws_revs_def batch_at_def)
qed

definition refines ::
  "(mvcc_error + 'a) \<times> event_batch list \<times> spec_store \<Rightarrow> mvcc_store \<Rightarrow> (mvcc_error + 'a) \<times> mvcc_store \<Rightarrow> bool" where
  "refines spec st impl \<longleftrightarrow>
     (case (spec, impl) of ((r, bs, sp'), (r', st')) \<Rightarrow>
        r' = r \<and> store_ok st' \<and> stands_for st' sp' \<and> s_events st' = s_events st @ bs)"

lemma one_batch:
  "cx_marks ctx = [] \<Longrightarrow> cx_events ctx = es \<Longrightarrow> es \<noteq> [] \<Longrightarrow>
   event_batches m ctx = [\<lparr>eb_revision = m, eb_events = es\<rparr>]"
  by (simp add: event_batches_def)

lemma apply_refines_spec:
  assumes st: "store_ok st" and sp: "stands_for st sp" and ms: "muts_fit ms" and cur: "current_rev (s_ws st) < i64_max"
  shows "refines (spec_apply ms sp) st (apply_mutations ms st)"
proof -
  let ?n = "current_rev (s_ws st)"
  have rv: "rv_current (sp_revs sp) = ?n" "rv_current (v_revs (s_view st)) = ?n"
    using st sp by (simp_all add: stands_for_def store_ok_def ws_revs_def)
  note sim = apply_inner_sim [OF batch_start [OF st sp] ms]
  show ?thesis
  proof (cases "ms = []")
    case True
    then show ?thesis using st sp rv by (simp add: refines_def spec_apply_def apply_mutations_def)
  next
    case ne: False
    show ?thesis
    proof (cases "spec_mutations (?n + 1) ms (sp_now sp)")
      case (Inl e)
      then show ?thesis
        using sim ne rv sp end_work_ok [OF st]
        by (auto simp: refines_def spec_apply_def apply_mutations_def end_work_stands)
    next
      case (Inr x)
      obtain rs es S where x: "x = (rs, es, S)" by (metis prod_cases3)
      from sim Inr x obtain w' where w': "apply_inner (s_index st) (s_engine st) ?n ms (start_work st) = (Inr (?n + 1, rs, es \<noteq> []), w')"
        "moved st ?n (start_work st) sp es (if es = [] then sp else spec_advance (?n + 1) S sp) w'" by auto
      show ?thesis
      proof (cases "es = []")
        case True
        then have "cache_fits (s_index st) (s_engine st) ?n (w_values w')" using w'(2) by (simp add: moved_def batch_at_def work_ok_def)
        then show ?thesis
          using True Inr x ne rv sp w'(1) end_work_ok [OF st]
          by (simp add: refines_def spec_apply_def apply_mutations_def end_work_stands Let_def)
      next
        case False
        then have m: "batch_at st (?n + 1) w' (spec_advance (?n + 1) S sp)" "cx_events (w_ctx w') = es" "cx_marks (w_ctx w') = []"
          using w'(2) by (simp_all add: moved_def ctx_default_def)
        note c = commit_batch_at [OF st m(1)]
        show ?thesis
          using False Inr x ne rv w'(1) c cur one_batch [OF m(3,2) False]
          by (simp add: refines_def spec_apply_def apply_mutations_def Let_def)
      qed
    qed
  qed
qed

lemma compares_sim:
  assumes "batch_at st cur w sp"
  shows "\<exists>vc. evaluate_compares (s_index st) (s_engine st) (w_ctx w) cs (w_values w) =
      (Inr (list_all (spec_compare (sp_now sp)) cs), vc) \<and> batch_at st cur (w\<lparr>w_values := vc\<rparr>) sp"
proof -
  have "base_ok (s_index st) (s_engine st) (current_rev (s_ws st))"
    "ctx_ok (s_index st) (s_engine st) (current_rev (s_ws st)) (Revision (cur + 1) 0) (w_ctx w)"
    "models (s_index st) (s_engine st) (w_ctx w) (sp_now sp)"
    "cache_fits (s_index st) (s_engine st) (current_rev (s_ws st)) (w_values w)"
    using assms by (simp_all add: batch_at_def work_ok_def)
  from evaluate_compares_result [OF this, of cs] show ?thesis using batch_keep [OF assms] by fastforce
qed

lemma txn_refines_spec:
  assumes st: "store_ok st" and sp: "stands_for st sp" and cur: "current_rev (s_ws st) < i64_max"
    and fit: "ops_fit True 0 success" "ops_fit True 0 failure"
  shows "refines (spec_txn cs success failure sp) st (txn cs success failure st)"
proof -
  let ?n = "current_rev (s_ws st)" and ?succ = "list_all (spec_compare (sp_now sp)) cs"
  let ?ops = "if ?succ then success else failure"
  have rv: "sp_revs sp = ws_revs (s_ws st)" "rv_current (ws_revs (s_ws st)) = ?n"
    using sp by (simp_all add: stands_for_def ws_revs_def)
  from compares_sim [OF batch_start [OF st sp], of cs] obtain vc where
    ev: "evaluate_compares (s_index st) (s_engine st) ctx_default cs (s_values st) = (Inr ?succ, vc)"
    and at: "batch_at st ?n ((start_work st)\<lparr>w_values := vc\<rparr>) sp" by auto
  have "ops_fit True 0 ?ops" using fit by simp
  note sim = txn_run_sim [OF at this]
  show ?thesis
  proof (cases "spec_ops (sp_now sp) (sp_revs sp) (?n + 1) (sp_past sp) ?ops False (sp_now sp)")
    case (Inl e)
    with sim obtain ex w' where "txn_ops (s_index st) (s_engine st) (sp_revs sp) ?ops
        \<lparr>tx_main = ?n + 1, tx_sub = 0, tx_produced_any = False\<rparr> ((start_work st)\<lparr>w_values := vc\<rparr>) = (Inl e, ex, w')"
      "cache_fits (s_index st) (s_engine st) ?n (w_values w')" by auto
    then show ?thesis
      using Inl ev rv sp end_work_ok [OF st] by (simp add: refines_def spec_txn_def txn_def end_work_stands Let_def)
  next
    case (Inr x)
    obtain rs es wrote S where x: "x = (rs, es, wrote, S)" by (metis prod_cases4)
    from sim Inr x obtain sub w' where w': "txn_ops (s_index st) (s_engine st) (sp_revs sp) ?ops
        \<lparr>tx_main = ?n + 1, tx_sub = 0, tx_produced_any = False\<rparr> ((start_work st)\<lparr>w_values := vc\<rparr>) =
          (Inr rs, \<lparr>tx_main = ?n + 1, tx_sub = int sub, tx_produced_any = wrote\<rparr>, w')"
      "wrote \<longleftrightarrow> es \<noteq> []"
      "moved st ?n ((start_work st)\<lparr>w_values := vc\<rparr>) sp es (if es = [] then sp else spec_advance (?n + 1) S sp) w'"
      by auto
    show ?thesis
    proof (cases "es = []")
      case True
      then have "cache_fits (s_index st) (s_engine st) ?n (w_values w')" using w'(3) by (simp add: moved_def batch_at_def work_ok_def)
      then show ?thesis
        using True Inr x ev rv sp w'(1,2) end_work_ok [OF st]
        by (simp add: refines_def spec_txn_def txn_def end_work_stands Let_def) (simp add: end_work_def)
    next
      case False
      then have m: "batch_at st (?n + 1) w' (spec_advance (?n + 1) S sp)" "cx_events (w_ctx w') = es" "cx_marks (w_ctx w') = []"
        using w'(3) by (simp_all add: moved_def ctx_default_def)
      note c = commit_batch_at [OF st m(1)]
      show ?thesis
        using False Inr x ev rv w'(1,2) c cur one_batch [OF m(3,2) False]
        by (simp add: refines_def spec_txn_def txn_def Let_def)
    qed
  qed
qed

section \<open>Shared commits\<close>

text \<open>The marks of a context cut its events into the batches of its revisions.\<close>

fun marks_cover :: "nat \<Rightarrow> (int \<times> nat) list \<Rightarrow> mvcc_event list \<Rightarrow> bool" where
  "marks_cover start [] es \<longleftrightarrow> es = []"
| "marks_cover start ((_, stop) # ms) es \<longleftrightarrow>
     start \<le> stop \<and> stop - start \<le> length es \<and> marks_cover stop ms (drop (stop - start) es)"

lemma marks_cover_snoc:
  assumes "marks_cover start ms es"
  shows "marks_cover start (ms @ [(r, start + length es + length new)]) (es @ new) \<and>
    marked_batches start (ms @ [(r, start + length es + length new)]) (es @ new) =
      marked_batches start ms es @ (if new = [] then [] else [\<lparr>eb_revision = r, eb_events = new\<rparr>])"
  using assms
proof (induction start ms es rule: marks_cover.induct)
  case (2 start r0 stop ms es)
  let ?d = "drop (stop - start) es"
  have "start + length es = stop + length ?d" using "2.prems" by auto
  moreover have "drop (stop - start) (es @ new) = ?d @ new" "take (stop - start) (es @ new) = take (stop - start) es"
    using "2.prems" by auto
  ultimately show ?case using "2.IH" "2.prems" by (auto simp: Let_def)
qed simp

text \<open>The items a shared commit may hold: what \<open>item_mutations\<close> and \<open>item_txn\<close> let through.\<close>

fun item_fits :: "apply_item \<Rightarrow> bool" where
  "item_fits (ItemMutations ms) \<longleftrightarrow> item_mutations ms \<noteq> None \<and> muts_fit ms"
| "item_fits (ItemTxn cs success failure) \<longleftrightarrow> item_txn cs success failure \<noteq> None \<and>
     ops_fit False 0 success \<and> ops_fit False 0 failure"

lemma spec_mutations_accepted:
  assumes "\<not> list_ex ignores_prev ms"
  shows "\<exists>x. spec_mutations main ms S = Inr x"
  using assms
proof (induction ms arbitrary: S)
  case (Cons m ms)
  then obtain r es S1 where "spec_mutation main m S = Inr (r, es, S1)" by (cases m) (auto simp: spec_put_def spec_delete_range_def Let_def)
  moreover obtain rs es' S2 where "spec_mutations main ms S1 = Inr (rs, es', S2)"
    using Cons.IH [of S1] Cons.prems by auto
  ultimately show ?case by simp
qed simp

lemma spec_mutations_refusal:
  assumes "item_mutations ms \<noteq> None" "spec_mutations main ms S = Inl e"
  shows "length ms = 1 \<and> e = Refused KeyNotFound"
proof -
  have "length ms = 1 \<or> \<not> list_ex ignores_prev ms" using assms(1) by (auto simp: item_mutations_def split: if_splits)
  then have "length ms = 1" using assms(2) spec_mutations_accepted [of ms main S] by auto
  then obtain m where "ms = [m]" by (cases ms) auto
  with assms(2) show ?thesis by (cases m) (auto simp: spec_put_def spec_delete_range_def Let_def split: if_splits)
qed

lemma spec_plain_accepted:
  assumes "list_all plain_op ops" "0 \<le> rv_current st" "0 \<le> main"
  shows "\<exists>x. spec_ops before st main past ops wrote S = Inr x"
  using assms(1)
proof (induction ops arbitrary: wrote S)
  case (Cons op ops)
  show ?case
  proof (cases op)
    case (OpRange r)
    then have "spec_read st main past r wrote (km_map S) = Inr (spec_range (km_map S) r)"
      using Cons.prems by (simp add: spec_read_def check_read_rev_def)
    moreover obtain rs es wr S2 where "spec_ops before st main past ops wrote S = Inr (rs, es, wr, S2)"
      using Cons.IH [of wrote S] Cons.prems by (metis list.pred_inject(2) prod_cases4)
    ultimately show ?thesis using OpRange by simp
  next
    case (OpMutation m)
    then obtain x where x: "spec_mutations main [m] S = Inr x"
      using spec_mutations_accepted [of "[m]" main S] Cons.prems by auto
    then obtain r es S1 where "spec_mutation main m S = Inr (r, es, S1)"
      by (cases "spec_mutation main m S") auto
    moreover obtain rs es' wr S2 where "spec_ops before st main past ops (wrote \<or> es \<noteq> []) S1 = Inr (rs, es', wr, S2)"
      using Cons.IH [of "wrote \<or> es \<noteq> []" S1] Cons.prems by (metis list.pred_inject(2) prod_cases4)
    ultimately show ?thesis using OpMutation by simp
  qed (use Cons.prems in simp)
qed simp

definition items_at :: "mvcc_store \<Rightarrow> int \<Rightarrow> work \<Rightarrow> spec_store \<Rightarrow> event_batch list \<Rightarrow> bool" where
  "items_at st cur w sp bs \<longleftrightarrow> batch_at st cur w sp \<and>
     marks_cover 0 (cx_marks (w_ctx w)) (cx_events (w_ctx w)) \<and>
     marked_batches 0 (cx_marks (w_ctx w)) (cx_events (w_ctx w)) = bs \<and>
     (cx_marks (w_ctx w) = [] \<longleftrightarrow> cur = current_rev (s_ws st)) \<and> (bs = [] \<longrightarrow> cur = current_rev (s_ws st))"

lemma marks_tables [simp]:
  "ctx_gens ri (ctx\<lparr>cx_marks := x\<rparr>) = ctx_gens ri ctx" "ctx_kv snap (ctx\<lparr>cx_marks := x\<rparr>) = ctx_kv snap ctx"
  "ctx_lk snap (ctx\<lparr>cx_marks := x\<rparr>) = ctx_lk snap ctx"
  by (simp_all add: ctx_gens_def ctx_kv_def ctx_lk_def fun_eq_iff)

lemma marks_ctx_ok [simp]: "ctx_ok ri snap n b (ctx\<lparr>cx_marks := x\<rparr>) = ctx_ok ri snap n b ctx"
  unfolding ctx_ok_def marks_tables by simp

lemma push_mark_batch [simp]: "batch_at st cur (push_mark r w) sp = batch_at st cur w sp"
  by (simp add: push_mark_def batch_at_def work_ok_def models_def ctx_past_def)

lemma ops_batch [simp]: "batch_at st cur (w\<lparr>w_ops := x\<rparr>) sp = batch_at st cur w sp"
  by (simp add: batch_at_def)

lemma items_at_moved:
  assumes "items_at st cur w sp bs" "moved st cur w sp es sp' w'" "w_ctx w'' = w_ctx w'"
    "batch_at st (if es = [] then cur else cur + 1) w'' sp'"
  shows "es = [] \<Longrightarrow> items_at st cur w'' sp' bs"
    "es \<noteq> [] \<Longrightarrow> items_at st (cur + 1) (push_mark (cur + 1) w'') sp' (bs @ [\<lparr>eb_revision = cur + 1, eb_events = es\<rparr>])"
proof -
  have m: "cx_events (w_ctx w'') = cx_events (w_ctx w) @ es" "cx_marks (w_ctx w'') = cx_marks (w_ctx w)"
    using assms by (simp_all add: moved_def)
  show "items_at st cur w'' sp' bs" if "es = []" using assms(1,4) m that by (simp add: items_at_def)
  have c: "marks_cover 0 (cx_marks (w_ctx w)) (cx_events (w_ctx w))" using assms(1) by (simp add: items_at_def)
  have le: "current_rev (s_ws st) \<le> cur" using assms(1) by (simp add: items_at_def batch_at_def)
  show "items_at st (cur + 1) (push_mark (cur + 1) w'') sp' (bs @ [\<lparr>eb_revision = cur + 1, eb_events = es\<rparr>])" if "es \<noteq> []"
    using marks_cover_snoc [OF c, of "cur + 1" es] assms(1,4) m le that
    by (simp add: items_at_def) (simp add: push_mark_def)
qed

lemma mutations_item_sim:
  assumes at: "items_at st cur w sp bs" and fit: "item_fits (ItemMutations ms)"
  shows "\<exists>out bs' sp' cur' w'. spec_item (ItemMutations ms) sp = (Inr out, bs', sp') \<and>
    item_step (s_index st) (s_engine st) (compact_rev (s_ws st)) (ItemMutations ms) (cur, w) = (Inr out, cur', w') \<and>
    items_at st cur' w' sp' (bs @ bs') \<and> cur' \<le> cur + 1"
proof -
  have b: "batch_at st cur w sp" and rv: "rv_current (sp_revs sp) = cur" using at by (simp_all add: items_at_def batch_at_def)
  have ms: "muts_fit ms" "item_mutations ms \<noteq> None" using fit by simp_all
  note sim = apply_inner_sim [OF b ms(1)]
  show ?thesis
  proof (cases "ms = []")
    case True
    then show ?thesis using at rv by (simp add: spec_apply_def)
  next
    case ne: False
    show ?thesis
    proof (cases "spec_mutations (cur + 1) ms (sp_now sp)")
      case (Inl e)
      note r = spec_mutations_refusal [OF ms(2) Inl]
      from sim Inl r obtain w' where w': "apply_inner (s_index st) (s_engine st) cur ms w = (Inl (Refused KeyNotFound), w')"
        "cache_fits (s_index st) (s_engine st) (current_rev (s_ws st)) (w_values w')" "w_ctx w' = w_ctx w" by auto
      have "items_at st cur w' sp bs" using at batch_keep [OF b w'(3,2)] w'(3) by (simp add: items_at_def)
      then show ?thesis using Inl r ne rv w'(1) by (simp add: spec_apply_def Let_def)
    next
      case (Inr x)
      obtain rs es S where x: "x = (rs, es, S)" by (metis prod_cases3)
      from sim Inr x obtain w' where w': "apply_inner (s_index st) (s_engine st) cur ms w = (Inr (cur + 1, rs, es \<noteq> []), w')"
        "moved st cur w sp es (if es = [] then sp else spec_advance (cur + 1) S sp) w'" by auto
      note it = items_at_moved [OF at w'(2) refl]
      have "batch_at st (if es = [] then cur else cur + 1) w' (if es = [] then sp else spec_advance (cur + 1) S sp)"
        using w'(2) by (simp add: moved_def)
      then show ?thesis
        using it Inr x ne rv w'(1) by (cases "es = []") (simp_all add: spec_apply_def Let_def)
    qed
  qed
qed

lemma txn_item_sim:
  assumes at: "items_at st cur w sp bs" and fit: "item_fits (ItemTxn cs success failure)"
  shows "\<exists>out bs' sp' cur' w'. spec_item (ItemTxn cs success failure) sp = (Inr out, bs', sp') \<and>
    item_step (s_index st) (s_engine st) (compact_rev (s_ws st)) (ItemTxn cs success failure) (cur, w) = (Inr out, cur', w') \<and>
    items_at st cur' w' sp' (bs @ bs') \<and> cur' \<le> cur + 1"
proof -
  let ?succ = "list_all (spec_compare (sp_now sp)) cs"
  let ?ops = "if ?succ then success else failure"
  have b: "batch_at st cur w sp" and rv: "sp_revs sp = \<lparr>rv_current = cur, rv_compact = compact_rev (s_ws st)\<rparr>" "0 \<le> cur"
    using at by (auto simp: items_at_def batch_at_def)
  from compares_sim [OF b, of cs] obtain vc where
    ev: "evaluate_compares (s_index st) (s_engine st) (w_ctx w) cs (w_values w) = (Inr ?succ, vc)"
    and bv: "batch_at st cur (w\<lparr>w_values := vc\<rparr>) sp" by blast
  have plain: "list_all plain_op ?ops" "ops_fit False 0 ?ops" using fit by (auto simp: item_txn_def split: if_splits)
  obtain rs es wrote S where sp: "spec_ops (sp_now sp) (sp_revs sp) (cur + 1) (sp_past sp) ?ops False (sp_now sp) = Inr (rs, es, wrote, S)"
    using spec_plain_accepted [OF plain(1), of "sp_revs sp" "cur + 1"] rv by (metis add_increasing prod_cases4 revs.select_convs(1) zero_le_one add_nonneg_nonneg)
  from txn_run_sim [OF bv plain(2)] sp obtain sub w' where w':
    "txn_ops (s_index st) (s_engine st) (sp_revs sp) ?ops \<lparr>tx_main = cur + 1, tx_sub = 0, tx_produced_any = False\<rparr>
       (w\<lparr>w_values := vc\<rparr>) = (Inr rs, \<lparr>tx_main = cur + 1, tx_sub = int sub, tx_produced_any = wrote\<rparr>, w')"
    "wrote \<longleftrightarrow> es \<noteq> []"
    "moved st cur (w\<lparr>w_values := vc\<rparr>) sp es (if es = [] then sp else spec_advance (cur + 1) S sp) w'" by auto
  let ?w = "w'\<lparr>w_ops := count_txn (w_ops w')\<rparr>"
  have "items_at st cur (w\<lparr>w_values := vc\<rparr>) sp bs" using at bv by (simp add: items_at_def)
  note it = items_at_moved [OF this w'(3), of ?w]
  have "batch_at st (if es = [] then cur else cur + 1) ?w (if es = [] then sp else spec_advance (cur + 1) S sp)"
    using w'(3) by (simp add: moved_def)
  then show ?thesis
    using it sp ev w'(1,2) rv
    by (cases "es = []") (simp_all add: spec_txn_def Let_def)
qed

lemma item_sim:
  assumes "items_at st cur w sp bs" "item_fits item"
  shows "\<exists>out bs' sp' cur' w'. spec_item item sp = (Inr out, bs', sp') \<and>
    item_step (s_index st) (s_engine st) (compact_rev (s_ws st)) item (cur, w) = (Inr out, cur', w') \<and>
    items_at st cur' w' sp' (bs @ bs') \<and> cur' \<le> cur + 1"
proof (cases item)
  case (ItemMutations ms)
  then show ?thesis using mutations_item_sim [OF assms(1), of ms] assms(2) by simp
next
  case (ItemTxn cs success failure)
  then show ?thesis using txn_item_sim [OF assms(1), of cs success failure] assms(2) by simp
qed

lemma items_sim:
  assumes "items_at st cur w sp bs" "list_all item_fits items"
  shows "\<exists>outs bs' sp' cur' w'. spec_items items sp = (Inr outs, bs', sp') \<and>
    apply_items (s_index st) (s_engine st) (compact_rev (s_ws st)) items (cur, w) = (Inr outs, cur', w') \<and>
    items_at st cur' w' sp' (bs @ bs') \<and> cur' \<le> cur + int (length items)"
  using assms
proof (induction items arbitrary: cur w sp bs)
  case (Cons item items)
  from item_sim [OF Cons.prems(1)] Cons.prems(2) obtain out bs1 sp1 cur1 w1 where
    one: "spec_item item sp = (Inr out, bs1, sp1)"
      "item_step (s_index st) (s_engine st) (compact_rev (s_ws st)) item (cur, w) = (Inr out, cur1, w1)"
      "items_at st cur1 w1 sp1 (bs @ bs1)" "cur1 \<le> cur + 1" by (metis list.pred_inject(2))
  from Cons.IH [OF one(3)] Cons.prems(2) obtain outs bs2 sp2 cur2 w2 where
    "spec_items items sp1 = (Inr outs, bs2, sp2)"
    "apply_items (s_index st) (s_engine st) (compact_rev (s_ws st)) items (cur1, w1) = (Inr outs, cur2, w2)"
    "items_at st cur2 w2 sp2 ((bs @ bs1) @ bs2)" "cur2 \<le> cur1 + int (length items)" by (metis list.pred_inject(2))
  then show ?case using one by simp
qed simp

lemma spec_item_no_batch: "spec_item item sp = (r, [], sp') \<Longrightarrow> sp' = sp"
proof (cases item)
  case (ItemMutations ms)
  assume "spec_item item sp = (r, [], sp')"
  then show ?thesis
    using ItemMutations by (auto simp: spec_apply_def Let_def split: sum.splits prod.splits if_splits mvcc_error.splits)
next
  case (ItemTxn cs success failure)
  assume "spec_item item sp = (r, [], sp')"
  then show ?thesis
    using ItemTxn by (auto simp: spec_txn_def Let_def split: sum.splits prod.splits if_splits)
qed

lemma spec_items_no_batch: "spec_items items sp = (r, [], sp') \<Longrightarrow> sp' = sp"
proof (induction items arbitrary: sp r)
  case (Cons item items)
  obtain r1 bs1 sp1 where one: "spec_item item sp = (r1, bs1, sp1)" by (metis prod_cases3)
  obtain r2 bs2 sp2 where two: "spec_items items sp1 = (r2, bs2, sp2)" by (metis prod_cases3)
  show ?case
    using Cons.prems Cons.IH [of sp1 r2] one two spec_item_no_batch [of item sp r1 sp1]
    by (cases r1; cases r2) auto
qed simp

lemma apply_many_refines_spec:
  assumes st: "store_ok st" and sp: "stands_for st sp" and items: "list_all item_fits items"
    and cur: "current_rev (s_ws st) + int (length items) \<le> i64_max"
  shows "refines (spec_items items sp) st (apply_many items st)"
proof -
  let ?n = "current_rev (s_ws st)"
  have "items_at st ?n (start_work st) sp []"
    using batch_start [OF st sp] by (simp add: items_at_def ctx_default_def)
  from items_sim [OF this items] obtain outs bs sp' cur' w' where
    r: "spec_items items sp = (Inr outs, bs, sp')"
      "apply_items (s_index st) (s_engine st) (compact_rev (s_ws st)) items (?n, start_work st) = (Inr outs, cur', w')"
      "items_at st cur' w' sp' bs" "cur' \<le> ?n + int (length items)" by auto
  have at: "batch_at st cur' w' sp'" using r(3) by (simp add: items_at_def)
  have ew: "current_rev (s_ws (end_work w' st)) = ?n" by (simp add: end_work_def)
  show ?thesis
  proof (cases "cur' = ?n")
    case True
    then have bs: "bs = []" using r(3) by (auto simp: items_at_def)
    then have "sp' = sp" using r(1) spec_items_no_batch by blast
    moreover have "cache_fits (s_index st) (s_engine st) ?n (w_values w')" using at by (simp add: batch_at_def work_ok_def)
    ultimately show ?thesis
      using True bs r(1,2) ew sp end_work_ok [OF st] by (simp add: refines_def apply_many_def end_work_stands)
  next
    case False
    then have "event_batches cur' (w_ctx w') = bs" using r(3) by (simp add: items_at_def event_batches_def)
    then show ?thesis
      using False r(1,2,4) ew cur commit_batch_at [OF st at] by (simp add: refines_def apply_many_def)
  qed
qed

text \<open>The same requests, each with its own commit.\<close>

fun apply_item_alone :: "apply_item \<Rightarrow> mvcc_store \<Rightarrow> (mvcc_error + apply_outcome) \<times> mvcc_store" where
  "apply_item_alone (ItemMutations ms) st =
     (case apply_mutations ms st of
        (Inr (revision, results), st) \<Rightarrow> (Inr (OutMutations revision results), st)
      | (Inl (Refused r), st) \<Rightarrow> (Inr (OutRefused (rv_current (v_revs (s_view st))) r), st)
      | (Inl e, st) \<Rightarrow> (Inl e, st))"
| "apply_item_alone (ItemTxn cs success failure) st =
     (case txn cs success failure st of
        (Inr r, st) \<Rightarrow> (Inr (OutTxn r), st)
      | (Inl e, st) \<Rightarrow> (Inl e, st))"

fun apply_each :: "apply_item list \<Rightarrow> mvcc_store \<Rightarrow> (mvcc_error + apply_outcome list) \<times> mvcc_store" where
  "apply_each [] st = (Inr [], st)"
| "apply_each (item # items) st =
     (case apply_item_alone item st of
        (Inl e, st) \<Rightarrow> (Inl e, st)
      | (Inr out, st) \<Rightarrow>
          (case apply_each items st of
             (Inl e, st) \<Rightarrow> (Inl e, st)
           | (Inr outs, st) \<Rightarrow> (Inr (out # outs), st)))"

end
