(* ===== verification/Mvcc_Correct.thy ===== *)
theory Mvcc_Correct
  imports Mvcc_Batches
begin

text \<open>
  The store against its specification: what a store stands for, that every request refines the
  specification from there, that reads are the specification's, and what opening a store gives.
\<close>

section \<open>What a store stands for\<close>

definition kv_at :: "mvcc_store \<Rightarrow> int \<Rightarrow> kv_map" where
  "kv_at st r = fmap_of_list (List.map_filter
     (\<lambda>(k, g). Option.bind (revision_at g (Revision r i64_max)) (\<lambda>rv. map_option (Pair k) (fmlookup (t_kv (s_engine st)) (k, rv))))
     (idx_iter (s_index st)))"

definition abs_store :: "mvcc_store \<Rightarrow> spec_store" where
  "abs_store st =
     \<lparr>sp_revs = ws_revs (s_ws st),
      sp_now = \<lparr>km_map = kv_at st (current_rev (s_ws st)), km_index = fmmap puts_of (ri_map (s_index st))\<rparr>,
      sp_past = kv_at st\<rparr>"

lemma map_of_filter_keys:
  assumes "distinct (map fst rows)"
  shows "map_of (List.map_filter (\<lambda>(k, g). map_option (Pair k) (f k g)) rows) k = Option.bind (map_of rows k) (f k)"
  using assms
proof (induction rows)
  case (Cons r rows)
  obtain j g where r: "r = (j, g)" by fastforce
  have "map_of (List.map_filter (\<lambda>(k, g). map_option (Pair k) (f k g)) rows) j = None"
    if "j \<notin> fst ` set rows" using that by (force simp: map_of_eq_None_iff in_map_filter)
  then show ?case using Cons r by (cases "f j g") (auto simp: map_filter_simps)
qed (simp add: map_filter_simps)

lemma kv_at_lookup:
  "fmlookup (kv_at st r) k = at_rec (ri_gens (s_index st)) (eng_kv (s_engine st)) (Revision r i64_max) k"
proof -
  let ?f = "\<lambda>k g. Option.bind (revision_at g (Revision r i64_max)) (\<lambda>rv. fmlookup (t_kv (s_engine st)) (k, rv))"
  have eq: "(\<lambda>(k, g). Option.bind (revision_at g (Revision r i64_max)) (\<lambda>rv. map_option (Pair k) (fmlookup (t_kv (s_engine st)) (k, rv)))) =
      (\<lambda>(k, g). map_option (Pair k) (?f k g))"
    by (auto simp: fun_eq_iff split: Option.bind_split)
  have "fmlookup (kv_at st r) k = Option.bind (fmlookup (ri_map (s_index st)) k) (?f k)"
    unfolding kv_at_def eq fmlookup_of_list idx_iter_def
    by (subst map_of_filter_keys) (simp_all add: fmap_rows)
  moreover have "revision_at [] x = None" for x by (simp add: revision_at_def)
  ultimately show ?thesis
    by (cases "fmlookup (ri_map (s_index st)) k"; cases "revision_at (ri_gens (s_index st) k) (Revision r i64_max)")
      (simp_all add: at_rec_def ri_gens_def eng_kv_def)
qed

lemma abs_store_stands:
  assumes "store_ok st"
  shows "stands_for st (abs_store st)"
proof -
  have base: "base_ok (s_index st) (s_engine st) (current_rev (s_ws st))" using assms by (simp add: store_ok_def)
  have "at_rec (ri_gens (s_index st)) (eng_kv (s_engine st)) (Revision (current_rev (s_ws st)) i64_max) k =
      cur_rec (ri_gens (s_index st)) (eng_kv (s_engine st)) k" for k
  proof (rule at_rec_current [where G = "ri_gens (s_index st)", OF base_ok_key [OF base]])
    have "gens_below (ri_gens (s_index st) k) (Revision (current_rev (s_ws st) + 1) 0)"
      using base tables_ok_below by (auto simp: base_ok_def)
    then show "\<forall>e \<in> set (hist (ri_gens (s_index st) k)). fst e \<le> Revision (current_rev (s_ws st)) i64_max"
      using below_seen [OF base_ok_key [OF base]] by blast
  qed
  moreover have "fmlookup (fmmap puts_of (ri_map (s_index st))) k =
      (if ri_gens (s_index st) k = [] then None else Some (puts_of (ri_gens (s_index st) k)))" for k
    using base by (cases "fmlookup (ri_map (s_index st)) k") (auto simp: ri_gens_def base_ok_def)
  ultimately show ?thesis
    by (simp add: stands_for_def abs_store_def models_def kv_at_lookup past_ok_def)
qed

section \<open>Reads\<close>

lemma store_work_ok:
  "store_ok st \<Longrightarrow> work_ok (s_index st) (s_engine st) (current_rev (s_ws st)) (Revision (current_rev (s_ws st) + 1) 0) (start_work st)"
  using ctx_default_ok by (simp add: store_ok_def work_ok_def)

lemma read_view_revs: "store_ok st \<Longrightarrow> read_view st = ws_revs (s_ws st)"
  by (simp add: read_view_def store_ok_def)

lemma range_refines_spec:
  assumes st: "store_ok st" and sp: "stands_for st sp"
  shows "fst (range_with_revision r st) = spec_range_at r sp"
    "store_ok (snd (range_with_revision r st)) \<and> stands_for (snd (range_with_revision r st)) sp \<and>
     s_events (snd (range_with_revision r st)) = s_events st"
proof -
  let ?n = "current_rev (s_ws st)"
  let ?st = "st\<lparr>s_ops := (s_ops st)\<lparr>oc_range := oc_range (s_ops st) + 1\<rparr>\<rparr>"
  have rv: "sp_revs sp = ws_revs (s_ws st)" "read_view ?st = ws_revs (s_ws st)"
    using st sp by (simp_all add: stands_for_def read_view_def store_ok_def)
  have both: "fst (range_with_revision r st) = spec_range_at r sp \<and>
    store_ok (snd (range_with_revision r st)) \<and> stands_for (snd (range_with_revision r st)) sp \<and>
     s_events (snd (range_with_revision r st)) = s_events st"
  proof (cases "check_read_rev (ws_revs (s_ws st)) (ro_revision r)")
    case (Inl e)
    then show ?thesis using rv st sp by (simp add: range_with_revision_def spec_range_at_def Let_def)
  next
    case (Inr rr)
    let ?M = "if ro_revision r = 0 then km_map (sp_now sp) else sp_past sp (ro_revision r)"
    note ok = store_work_ok [OF st]
    have at: "txn_at (s_index st) (s_engine st) ?n (?n + 1) 0 False (sp_now sp) (start_work st)"
      using ok sp batch_fresh [OF batch_start [OF st sp]] by (simp add: txn_at_def stands_for_def)
    have sees: "shows_at (s_index st) (s_engine st) ctx_default rr ?M \<and> sees (s_index st) ?n ctx_default rr"
    proof (cases "ro_revision r = 0")
      case True
      then show ?thesis
        using Inr shows_now [OF at] by (auto simp: check_read_rev_def ws_revs_def sees_def i64_max_def)
    next
      case False
      then have "rr = Revision (ro_revision r) i64_max" "ro_revision r \<le> ?n" "ro_revision r < 0 \<or> compact_rev (s_ws st) \<le> ro_revision r"
        using Inr st by (auto simp: check_read_rev_def ws_revs_def store_ok_def split: if_splits)
      then show ?thesis using False sp by (simp add: shows_at_def sees_def stands_for_def past_ok_def)
    qed
    obtain kvs d vc where f: "fetch_records (s_engine st) ctx_default (ro_keys_only r)
        (ro_revision r = 0 \<or> ro_revision r = ?n)
        (rp_hits (plan_range (s_index st) ctx_default (ro_key r) (ro_range_end r) rr (ro_limit r) (ro_count_only r)))
        (s_values st) = (Inr (kvs, d), vc)"
      "into_result (plan_range (s_index st) ctx_default (ro_key r) (ro_range_end r) rr (ro_limit r) (ro_count_only r)) kvs
        (ro_count_only r) = spec_range ?M r" "cache_fits (s_index st) (s_engine st) ?n vc"
      using range_fetch [OF ok, where r = r and fill = "ro_revision r = 0 \<or> ro_revision r = ?n", unfolded start_work_simps,
          OF conjunct1 [OF sees] conjunct2 [OF sees]] by blast
    have "store_ok (st\<lparr>s_values := vc\<rparr>)" "stands_for (st\<lparr>s_values := vc\<rparr>) sp"
      unfolding values_eq_end_work using end_work_ok [OF st] f(3) sp by (simp_all add: end_work_stands)
    then have "store_ok (?st\<lparr>s_values := vc\<rparr>)" "stands_for (?st\<lparr>s_values := vc\<rparr>) sp"
      by (simp_all add: store_ok_def meta_ok_def stands_for_def)
    then show ?thesis
      using f(1,2) Inr rv by (simp add: range_with_revision_def spec_range_at_def Let_def ws_revs_def)
  qed
  then show "fst (range_with_revision r st) = spec_range_at r sp"
    "store_ok (snd (range_with_revision r st)) \<and> stands_for (snd (range_with_revision r st)) sp \<and>
     s_events (snd (range_with_revision r st)) = s_events st" by simp_all
qed

section \<open>One by one\<close>

lemma spec_item_current:
  assumes "spec_item item sp = (r, bs, sp')"
  shows "rv_current (sp_revs sp') \<le> rv_current (sp_revs sp) + 1"
proof (cases item)
  case (ItemMutations ms)
  then show ?thesis
    using assms by (auto simp: spec_apply_def spec_advance_def Let_def split: sum.splits prod.splits if_splits mvcc_error.splits)
next
  case (ItemTxn cs success failure)
  then show ?thesis
    using assms by (auto simp: spec_txn_def spec_advance_def Let_def split: sum.splits prod.splits if_splits)
qed

lemma stands_current: "stands_for st sp \<Longrightarrow> rv_current (sp_revs sp) = current_rev (s_ws st)"
  by (simp add: stands_for_def ws_revs_def)

lemma ops_fit_alone: "ops_fit False 0 ops \<Longrightarrow> ops_fit True 0 ops"
  by (simp add: ops_fit_def)

lemma item_alone_refines:
  assumes st: "store_ok st" and sp: "stands_for st sp" and fit: "item_fits item" and cur: "current_rev (s_ws st) < i64_max"
  shows "refines (spec_item item sp) st (apply_item_alone item st)"
proof (cases item)
  case (ItemMutations ms)
  have r: "refines (spec_apply ms sp) st (apply_mutations ms st)"
    using apply_refines_spec [OF st sp _ cur] fit ItemMutations by simp
  obtain x bs sp' st' where x: "spec_apply ms sp = (x, bs, sp')" "apply_mutations ms st = (x, st')"
    using r by (cases "spec_apply ms sp"; cases "apply_mutations ms st") (auto simp: refines_def)
  then have ok: "store_ok st'" "stands_for st' sp'" using r by (simp_all add: refines_def)
  then have "rv_current (v_revs (s_view st')) = rv_current (sp_revs sp')" by (simp add: store_ok_def stands_for_def)
  then show ?thesis
    using r x ItemMutations by (auto simp: refines_def split: sum.split mvcc_error.split)
next
  case (ItemTxn cs success failure)
  have r: "refines (spec_txn cs success failure sp) st (txn cs success failure st)"
    using txn_refines_spec [OF st sp cur] fit ItemTxn ops_fit_alone by simp
  then show ?thesis
    using ItemTxn by (cases "spec_txn cs success failure sp"; cases "txn cs success failure st") (auto simp: refines_def split: sum.split)
qed

lemma apply_each_refines:
  assumes "store_ok st" "stands_for st sp" "list_all item_fits items"
    "current_rev (s_ws st) + int (length items) \<le> i64_max"
  shows "refines (spec_items items sp) st (apply_each items st)"
  using assms
proof (induction items arbitrary: st sp)
  case (Cons item items)
  have r: "refines (spec_item item sp) st (apply_item_alone item st)"
    by (rule item_alone_refines [OF Cons.prems(1,2)]) (use Cons.prems in auto)
  obtain x bs sp1 st1 where x: "spec_item item sp = (x, bs, sp1)" "apply_item_alone item st = (x, st1)"
    using r by (cases "spec_item item sp"; cases "apply_item_alone item st") (auto simp: refines_def)
  then have ok: "store_ok st1" "stands_for st1 sp1" "s_events st1 = s_events st @ bs" using r by (simp_all add: refines_def)
  have "current_rev (s_ws st1) \<le> current_rev (s_ws st) + 1"
    using spec_item_current [OF x(1)] stands_current [OF ok(2)] stands_current [OF Cons.prems(2)] by simp
  then have r2: "refines (spec_items items sp1) st1 (apply_each items st1)"
    using Cons.IH [OF ok(1,2)] Cons.prems by simp
  obtain y bs' sp2 st2 where y: "spec_items items sp1 = (y, bs', sp2)" "apply_each items st1 = (y, st2)"
    using r2 by (cases "spec_items items sp1"; cases "apply_each items st1") (auto simp: refines_def)
  then have ok2: "store_ok st2" "stands_for st2 sp2" "s_events st2 = s_events st1 @ bs'" using r2 by (simp_all add: refines_def)
  show ?case
    using x y ok ok2 by (cases x; cases y) (simp_all add: refines_def)
qed (simp add: refines_def)

text \<open>Two stores that stand for one state give the same answers to every read.\<close>

definition same_reads :: "mvcc_store \<Rightarrow> mvcc_store \<Rightarrow> bool" where
  "same_reads st st' \<longleftrightarrow> (\<forall>r. fst (range_with_revision r st) = fst (range_with_revision r st'))"

lemma stands_same_reads:
  "store_ok st \<Longrightarrow> store_ok st' \<Longrightarrow> stands_for st sp \<Longrightarrow> stands_for st' sp \<Longrightarrow> same_reads st st'"
  by (simp add: same_reads_def range_refines_spec(1))

section \<open>Opening\<close>

lemma load_rows_all: "load_rows table start = map (\<lambda>(k, i). (k, i_generations i)) (rows_in table start Unbounded)"
proof (induction table start rule: load_rows.induct)
  case (1 table start)
  let ?chunk = "limited INDEX_LOAD_CHUNK (rows_in table start Unbounded)"
  show ?case
  proof (cases "length ?chunk = INDEX_LOAD_CHUNK")
    case True
    have "rows_in table start Unbounded = ?chunk @ rows_in table (Excluded (fst (last ?chunk))) Unbounded"
      by (rule next_page(1) [OF refl]) (use True in \<open>simp_all add: INDEX_LOAD_CHUNK_def\<close>)
    then show ?thesis
      using "1.IH" [OF refl refl] True by (subst load_rows.simps) (simp add: Let_def, metis map_append)
  next
    case False
    then have "?chunk = rows_in table start Unbounded"
      by (auto simp: limited_def INDEX_LOAD_CHUNK_def)
    then show ?thesis using False by (subst load_rows.simps) (simp add: Let_def)
  qed
qed

lemma load_rows_table: "load_rows table Unbounded = map (\<lambda>(k, i). (k, i_generations i)) (sorted_list_of_fmap table)"
  by (simp add: load_rows_all rows_in_def in_bounds_def)

text \<open>An engine a store may be opened on.\<close>

definition engine_gens :: "engine \<Rightarrow> gens_fn" where
  "engine_gens e k = (case fmlookup (t_idx e) k of Some i \<Rightarrow> i_generations i | None \<Rightarrow> [])"

definition engine_ok :: "engine \<Rightarrow> bool" where
  "engine_ok e \<longleftrightarrow>
     (let n = or_zero (read_i64 e META_KEY_CURRENT_REV) in
      0 \<le> n \<and> tables_ok (Revision (n + 1) 0) (engine_gens e) (eng_kv e) (eng_lk e)) \<and>
     (\<forall>k i. fmlookup (t_idx e) k = Some i \<longrightarrow> i_key i = k \<and> i_generations i \<noteq> [])"

lemma load_index_result:
  assumes "\<forall>k i. fmlookup (t_idx (s_engine st)) k = Some i \<longrightarrow> i_key i = k \<and> i_generations i \<noteq> []"
  shows "fmlookup (ri_map (s_index (load_index st))) k = map_option i_generations (fmlookup (t_idx (s_engine st)) k)"
    "ri_ok (s_index (load_index st))" "idx_agrees (s_engine st) (s_index (load_index st))"
    "ri_gens (s_index (load_index st)) = engine_gens (s_engine st)"
proof -
  let ?rows = "sorted_list_of_fmap (t_idx (s_engine st))"
  have idx: "s_index (load_index st) = fold (\<lambda>(k, i). idx_set k (i_generations i)) ?rows (idx_clear (s_index st))"
    by (simp add: load_index_def load_rows_table fold_map comp_def split_def)
  have "\<forall>(k, i) \<in> set ?rows. i_generations i \<noteq> []" using assms by auto
  from idx_sets_lookup [OF fmap_rows(1) this, of "idx_clear (s_index st)"]
  show l: "fmlookup (ri_map (s_index (load_index st))) k = map_option i_generations (fmlookup (t_idx (s_engine st)) k)" for k
    unfolding idx by (simp add: idx_clear_def split: option.split)
  have "ri_ok (idx_clear (s_index st))" by (simp add: ri_ok_def idx_clear_def)
  then show "ri_ok (s_index (load_index st))" unfolding idx by (rule idx_sets_ok)
  show "idx_agrees (s_engine st) (s_index (load_index st))"
    unfolding idx_agrees_def
  proof
    fix k
    show "fmlookup (t_idx (s_engine st)) k =
        map_option (\<lambda>g. \<lparr>i_key = k, i_generations = g\<rparr>) (fmlookup (ri_map (s_index (load_index st))) k)"
      using assms by (cases "fmlookup (t_idx (s_engine st)) k") (auto simp: l)
  qed
  show "ri_gens (s_index (load_index st)) = engine_gens (s_engine st)"
    by (rule ext) (simp add: ri_gens_def engine_gens_def l split: option.split)
qed

lemma store_ok_engine: "store_ok st \<Longrightarrow> engine_ok (s_engine st)"
proof -
  assume st: "store_ok st"
  then have "engine_gens (s_engine st) = ri_gens (s_index st)"
    by (intro ext) (simp add: engine_gens_def ri_gens_def store_ok_def idx_agrees_def split: option.split)
  moreover have "i_key i = k \<and> i_generations i \<noteq> []" if "fmlookup (t_idx (s_engine st)) k = Some i" for k i
    using that st by (auto simp: store_ok_def idx_agrees_def base_ok_def)
  ultimately show "engine_ok (s_engine st)"
    using st by (simp add: engine_ok_def store_ok_def meta_ok_def base_ok_def)
qed

lemma read_i64_ok: "read_i64 e k = Some x \<Longrightarrow> i64_ok x"
proof -
  assume "read_i64 e k = Some x"
  then obtain b where b: "length b = 8" "x = i64_from_be_bytes b" by (auto simp: read_i64_def split: option.splits if_splits)
  have "of_be_bytes b < 2 ^ 64" using of_be_bytes_less [of b] b(1) by simp
  then show "i64_ok x" unfolding b(2) by (auto simp: i64_from_be_bytes_def Let_def i64_defs)
qed

lemma or_zero_ok: "i64_ok (or_zero (read_i64 e k))"
  using read_i64_ok by (auto simp: or_zero_def i64_defs split: option.split)

lemma open_ok:
  assumes e: "engine_ok e" and cid: "\<forall>b. fmlookup (t_meta e) META_KEY_CLUSTER_ID = Some b \<longrightarrow> length b = 8"
  shows "\<exists>st. open_with hash now e cfg = Inr st \<and> store_ok st \<and>
    s_ws st = \<lparr>current_rev = or_zero (read_i64 e META_KEY_CURRENT_REV),
      compact_rev = or_zero (read_i64 e META_KEY_COMPACT_REV), next_lease_id = or_zero (read_i64 e META_KEY_NEXT_LEASE_ID)\<rparr> \<and>
    eng_kv (s_engine st) = eng_kv e \<and> ri_gens (s_index st) = engine_gens e"
proof -
  let ?cur = "or_zero (read_i64 e META_KEY_CURRENT_REV)" and ?comp = "or_zero (read_i64 e META_KEY_COMPACT_REV)"
  let ?next = "or_zero (read_i64 e META_KEY_NEXT_LEASE_ID)"
  let ?ws = "\<lparr>current_rev = ?cur, compact_rev = ?comp, next_lease_id = ?next\<rparr>"
  obtain c where c: "read_u64 e META_KEY_CLUSTER_ID = Inr c"
    using cid by (cases "fmlookup (t_meta e) META_KEY_CLUSTER_ID") (auto simp: read_u64_def)
  define e' where "e' = (if ?cur = 0 \<and> ?comp = 0 \<and> ?next = 0
      then engine_commit e (write_i64 (write_i64 (write_i64 [] META_KEY_CURRENT_REV 0) META_KEY_COMPACT_REV 0) META_KEY_NEXT_LEASE_ID 0)
      else e)"
  have tabs: "t_idx e' = t_idx e" "t_kv e' = t_kv e" "t_lease_keys e' = t_lease_keys e"
    by (simp_all add: e'_def write_i64_def)
  have z: "i64_from_be_bytes (i64_to_be_bytes 0) = 0" by (rule i64_roundtrip) (simp add: i64_defs)
  have meta: "or_zero (read_i64 e' META_KEY_CURRENT_REV) = ?cur" "or_zero (read_i64 e' META_KEY_COMPACT_REV) = ?comp"
    "or_zero (read_i64 e' META_KEY_NEXT_LEASE_ID) = ?next"
    by (simp_all add: e'_def write_i64_def) (simp_all add: read_i64_def or_zero_def meta_keys z)
  have eg: "engine_gens e' = engine_gens e" "eng_kv e' = eng_kv e" "eng_lk e' = eng_lk e"
    by (simp_all add: fun_eq_iff engine_gens_def eng_kv_def eng_lk_def tabs)
  define st0 where "st0 = reload_auth \<lparr>s_engine = e', s_ws = ?ws,
      s_view = \<lparr>v_revs = \<lparr>rv_current = ?cur, rv_compact = ?comp\<rparr>, v_engine_commits = 0, v_published = 0\<rparr>,
      s_events = [], s_pending = [], s_batched = (fmlookup (t_meta e) META_KEY_BATCHED \<noteq> None),
      s_cluster_id = (case c of Some c \<Rightarrow> c | None \<Rightarrow> 0), s_auth = auth_memory_default now,
      s_lease_applied = fmempty, s_ops = op_counts_default, s_index = ri_default, s_values = vc_new hash cfg\<rparr>"
  have st0: "s_engine st0 = e'" "s_ws st0 = ?ws" "s_pending st0 = []" "v_revs (s_view st0) = ws_revs ?ws" "s_values st0 = vc_new hash cfg"
    by (simp_all add: st0_def reload_auth_def ws_revs_def)
  have keys: "\<forall>k i. fmlookup (t_idx (s_engine st0)) k = Some i \<longrightarrow> i_key i = k \<and> i_generations i \<noteq> []"
    using e by (simp add: engine_ok_def st0 tabs)
  note li = load_index_result [OF keys]
  have "base_ok (s_index (load_index st0)) e' ?cur"
    using e li(2) unfolding base_ok_def li(4) st0(1) eg by (simp add: engine_ok_def Let_def ri_ok_def)
  moreover have "cache_fits (s_index (load_index st0)) e' ?cur (s_values (load_index st0))"
    using vc_clear_result [OF vc_new_ok(1)] by (simp add: cache_fits_def load_index_def st0(5))
  moreover have "s_engine (load_index st0) = e'" "s_ws (load_index st0) = ?ws" "s_pending (load_index st0) = []"
    "v_revs (s_view (load_index st0)) = ws_revs ?ws" by (simp_all add: load_index_def st0)
  moreover have "0 \<le> ?cur" using e by (simp add: engine_ok_def Let_def)
  ultimately have "store_ok (load_index st0)"
    using li(2,3) meta or_zero_ok by (simp add: store_ok_def meta_ok_def st0(1))
  moreover have "open_with hash now e cfg = Inr (load_index st0)"
    by (simp add: open_with_def c Let_def st0_def e'_def)
  ultimately show ?thesis
    using li(4) by (simp add: st0 eg) (simp add: load_index_def st0 eg)
qed

end
