(* ===== verification/Mvcc_Compaction.thy ===== *)
theory Mvcc_Compaction
  imports Mvcc_Correct
begin

text \<open>
  Compaction of the store: the tables after it, and that reads at or above the compacted revision
  do not notice it.
\<close>

section \<open>The tables\<close>

definition kept_gens :: "revision \<Rightarrow> gens_fn \<Rightarrow> gens_fn" where
  "kept_gens c G k = snd (gens_compact c (G k))"

definition kept_kv :: "revision \<Rightarrow> gens_fn \<Rightarrow> kv_fn \<Rightarrow> kv_fn" where
  "kept_kv c G K = (\<lambda>(k, rv). if rv \<in> set (fst (gens_compact c (G k))) then None else K (k, rv))"

lemma gens_compact_sub:
  assumes "gens_ok gs" "h \<in> set (snd (gens_compact c gs))"
  shows "\<exists>g \<in> set gs. g_created h = g_created g \<and> set (g_revs h) \<subseteq> set (g_revs g) \<and> set (gen_events h) \<subseteq> set (gen_events g)"
  using assms
proof (induction gs)
  case (Cons g gs)
  then have "gen_ok g" "gens_ok gs" by (auto simp: gens_ok_def)
  from this(1) show ?case
  proof (cases rule: compact_gen_cases [where c = c])
    case (gone t)
    then show ?thesis using Cons \<open>gens_ok gs\<close> by auto
  next
    case (kept g' n)
    then show ?thesis
    proof (cases "h = g'")
      case True
      then show ?thesis using kept(2,4) by (intro bexI [of _ g]) (simp_all add: set_drop_subset)
    next
      case False
      then show ?thesis using kept Cons \<open>gens_ok gs\<close> by auto
    qed
  qed
qed simp

lemma gens_compact_hist:
  assumes "gens_ok gs"
  shows "set (hist (snd (gens_compact c gs))) \<subseteq> set (hist gs)"
  using gens_compact_sub [OF assms] by (fastforce simp: hist_def)

lemma gens_compact_split:
  assumes "gens_ok gs"
  shows "fst ` set (hist gs) = set (fst (gens_compact c gs)) \<union> fst ` set (hist (snd (gens_compact c gs)))"
    "set (fst (gens_compact c gs)) \<inter> fst ` set (hist (snd (gens_compact c gs))) = {}"
proof -
  have m: "mset (map fst (hist gs)) = mset (fst (gens_compact c gs) @ map fst (hist (snd (gens_compact c gs))))"
    using gens_compact_partition [of gs c] by simp
  from mset_eq_setD [OF m]
  show "fst ` set (hist gs) = set (fst (gens_compact c gs)) \<union> fst ` set (hist (snd (gens_compact c gs)))" by simp
  have "distinct (fst (gens_compact c gs) @ map fst (hist (snd (gens_compact c gs))))"
    using distinct_hist [OF assms] mset_eq_imp_distinct_iff [OF m] by simp
  then show "set (fst (gens_compact c gs)) \<inter> fst ` set (hist (snd (gens_compact c gs))) = {}" by simp
qed

lemma kept_kv_hist:
  assumes "gens_ok (G k)" "rv \<in> fst ` set (hist (kept_gens c G k))"
  shows "kept_kv c G K (k, rv) = K (k, rv)"
  using gens_compact_split(2) [OF assms(1), of c] assms(2) by (auto simp: kept_kv_def kept_gens_def)

lemma key_ok_compact:
  assumes "key_ok k (G k) K"
  shows "key_ok k (kept_gens c G k) (kept_kv c G K)"
proof -
  note ok = key_ok_gens [OF assms]
  have "kept_kv c G K (k, rv) \<noteq> None \<longleftrightarrow> rv \<in> fst ` set (hist (kept_gens c G k))" for rv
    using assms gens_compact_split [OF ok, of c] unfolding key_ok_def kept_kv_def kept_gens_def by auto
  moreover have "rec_ok k rv d rec" if "(rv, d) \<in> set (hist (kept_gens c G k))" "kept_kv c G K (k, rv) = Some rec" for rv d rec
    using that assms gens_compact_hist [OF ok, of c]
    unfolding key_ok_def kept_kv_def kept_gens_def by (auto split: if_splits)
  moreover have "r_create_revision rec = rmain (g_created g)"
    if "g \<in> set (kept_gens c G k)" "rv \<in> set (g_revs g)" "kept_kv c G K (k, rv) = Some rec" for g rv rec
    using that assms gens_compact_sub [OF ok, of g c]
    unfolding key_ok_def kept_kv_def kept_gens_def by (fastforce split: if_splits)
  ultimately show ?thesis
    using gens_compact_ok(1) [OF ok, of c] unfolding key_ok_def kept_gens_def by blast
qed

lemma cur_rec_compact:
  assumes "key_ok k (G k) K"
  shows "cur_rec (kept_gens c G) (kept_kv c G K) k = cur_rec G K k"
proof -
  note ok = key_ok_gens [OF assms]
  have eq: "map_option fst (gens_current (kept_gens c G k)) = map_option fst (gens_current (G k))"
    using gens_compact_current(2) [OF ok] by (simp add: kept_gens_def)
  show ?thesis
  proof (cases "gens_current (kept_gens c G k)")
    case None
    then show ?thesis using eq by (simp add: cur_rec_def)
  next
    case (Some p)
    then obtain rv v v' where c: "gens_current (kept_gens c G k) = Some (rv, v)" "gens_current (G k) = Some (rv, v')"
      using eq by (cases p; cases "gens_current (G k)") auto
    have "rv \<in> fst ` set (hist (kept_gens c G k))" using in_hist_current [OF c(1)] by force
    then show ?thesis using c kept_kv_hist [where G = G and k = k, OF ok] by (simp add: cur_rec_def)
  qed
qed

lemma at_rec_compact:
  assumes "key_ok k (G k) K" "c \<le> r"
  shows "at_rec (kept_gens c G) (kept_kv c G K) r k = at_rec G K r k"
proof -
  note ok = key_ok_gens [OF assms(1)]
  have eq: "revision_at (kept_gens c G k) r = revision_at (G k) r"
    using gens_compact_read [OF ok assms(2)] by (simp add: kept_gens_def)
  show ?thesis
  proof (cases "revision_at (G k) r")
    case None
    then show ?thesis using eq by (simp add: at_rec_def)
  next
    case (Some rv)
    have "gens_ok (kept_gens c G k)" using gens_compact_ok(1) [OF ok] by (simp add: kept_gens_def)
    from revision_at_in_hist(1) [OF this] Some eq have "rv \<in> fst ` set (hist (kept_gens c G k))" by force
    then show ?thesis using Some eq kept_kv_hist [where G = G and k = k, OF ok] by (simp add: at_rec_def)
  qed
qed

lemma tables_compact:
  assumes "tables_ok b G K L"
  shows "tables_ok b (kept_gens c G) (kept_kv c G K) L"
proof -
  have key: "key_ok k (G k) K" for k using tables_ok_key [OF assms] .
  have "gens_below (kept_gens c G k) b" for k
    using tables_ok_below [OF assms, of k] gens_compact_hist [OF key_ok_gens [OF key], of c k]
    by (auto simp: gens_below_def kept_gens_def)
  moreover have "cur_rec (kept_gens c G) (kept_kv c G K) = cur_rec G K"
    by (rule ext) (rule cur_rec_compact [where G = G, OF key])
  ultimately show ?thesis using assms key_ok_compact [where G = G, OF key] by (simp add: tables_ok_def)
qed

section \<open>The commit\<close>

text \<open>Compacting rows of the index: the batch, as the store builds it for each changed key.\<close>

definition changed_keys :: "revision \<Rightarrow> resident_index \<Rightarrow> key_index list" where
  "changed_keys c ri = map (\<lambda>(k, gens). \<lparr>i_key = k, i_generations = gens\<rparr>)
     (filter (\<lambda>(_, gens). compaction_changes gens c) (idx_iter ri))"

lemma compact_key_result:
  "fst (compact_key c idx) = map (KvDelete (i_key idx)) (fst (gens_compact c (i_generations idx))) @
     [if snd (gens_compact c (i_generations idx)) = [] then IdxDelete (i_key idx)
      else IdxPut (i_key idx) \<lparr>i_key = i_key idx, i_generations = snd (gens_compact c (i_generations idx))\<rparr>]"
  "snd (compact_key c idx) = \<lparr>i_key = i_key idx, i_generations = snd (gens_compact c (i_generations idx))\<rparr>"
  by (cases idx; simp add: compact_key_def ki_compact_def split_def Let_def)+

lemma kv_deletes:
  "fmlookup (t_kv (engine_commit e (map (KvDelete k) rs))) (j, r) =
     (if j = k \<and> r \<in> set rs then None else fmlookup (t_kv e) (j, r))"
  "t_idx (engine_commit e (map (KvDelete k) rs)) = t_idx e" "t_meta (engine_commit e (map (KvDelete k) rs)) = t_meta e"
  "t_lease_keys (engine_commit e (map (KvDelete k) rs)) = t_lease_keys e"
  by (induction rs arbitrary: e) auto

text \<open>What one key's part of the batch does.\<close>

lemma compact_key_commit:
  "fmlookup (t_kv (engine_commit e (fst (compact_key c i)))) (j, r) =
     (if j = i_key i \<and> r \<in> set (fst (gens_compact c (i_generations i))) then None else fmlookup (t_kv e) (j, r))"
  "fmlookup (t_idx (engine_commit e (fst (compact_key c i)))) j =
     (if j = i_key i then (let g = snd (gens_compact c (i_generations i)) in
        if g = [] then None else Some \<lparr>i_key = j, i_generations = g\<rparr>) else fmlookup (t_idx e) j)"
  "t_meta (engine_commit e (fst (compact_key c i))) = t_meta e"
  "t_lease_keys (engine_commit e (fst (compact_key c i))) = t_lease_keys e"
  unfolding compact_key_result by (simp_all add: kv_deletes Let_def)

definition compact_rows :: "revision \<Rightarrow> key_index list \<Rightarrow> store_batch" where
  "compact_rows c idxs = concat (map (\<lambda>i. fst (compact_key c i)) idxs)"

lemma compact_rows_keep:
  "j \<notin> i_key ` set idxs \<Longrightarrow> fmlookup (t_kv (engine_commit e (compact_rows c idxs))) (j, r) = fmlookup (t_kv e) (j, r)"
  "j \<notin> i_key ` set idxs \<Longrightarrow> fmlookup (t_idx (engine_commit e (compact_rows c idxs))) j = fmlookup (t_idx e) j"
  "t_meta (engine_commit e (compact_rows c idxs)) = t_meta e"
  "t_lease_keys (engine_commit e (compact_rows c idxs)) = t_lease_keys e"
  by (induction idxs arbitrary: e) (auto simp: compact_rows_def compact_key_commit)

lemma compact_rows_change:
  assumes "distinct (map i_key idxs)" "i \<in> set idxs"
  shows "fmlookup (t_kv (engine_commit e (compact_rows c idxs))) (i_key i, r) =
      (if r \<in> set (fst (gens_compact c (i_generations i))) then None else fmlookup (t_kv e) (i_key i, r)) \<and>
    fmlookup (t_idx (engine_commit e (compact_rows c idxs))) (i_key i) =
      (let g = snd (gens_compact c (i_generations i)) in if g = [] then None else Some \<lparr>i_key = i_key i, i_generations = g\<rparr>)"
  using assms
proof (induction idxs arbitrary: e)
  case (Cons x idxs)
  have eq: "engine_commit e (compact_rows c (x # idxs)) = engine_commit (engine_commit e (fst (compact_key c x))) (compact_rows c idxs)"
    by (simp add: compact_rows_def)
  have "i = x \<and> i_key i \<notin> i_key ` set idxs \<or> i \<in> set idxs \<and> i_key i \<noteq> i_key x"
    using Cons.prems by (cases "i = x") (simp_all, metis imageI)
  then show ?case unfolding eq using Cons.IH Cons.prems by (auto simp: compact_rows_keep compact_key_commit)
qed simp

lemma compact_index:
  "ri_ok ri \<Longrightarrow> ri_ok (fold (\<lambda>i. idx_set (i_key i) (i_generations i)) is ri)"
  "j \<notin> i_key ` set is \<Longrightarrow> fmlookup (ri_map (fold (\<lambda>i. idx_set (i_key i) (i_generations i)) is ri)) j = fmlookup (ri_map ri) j"
  "distinct (map i_key is) \<Longrightarrow> i \<in> set is \<Longrightarrow>
     fmlookup (ri_map (fold (\<lambda>i. idx_set (i_key i) (i_generations i)) is ri)) (i_key i) =
       (if i_generations i = [] then None else Some (i_generations i))"
proof -
  show "ri_ok ri \<Longrightarrow> ri_ok (fold (\<lambda>i. idx_set (i_key i) (i_generations i)) is ri)"
    by (induction "is" arbitrary: ri) (auto simp: idx_set_ok)
  show keep: "j \<notin> i_key ` set is \<Longrightarrow> fmlookup (ri_map (fold (\<lambda>i. idx_set (i_key i) (i_generations i)) is ri)) j = fmlookup (ri_map ri) j" for "is" ri j
    by (induction "is" arbitrary: ri) auto
  show "distinct (map i_key is) \<Longrightarrow> i \<in> set is \<Longrightarrow>
     fmlookup (ri_map (fold (\<lambda>i. idx_set (i_key i) (i_generations i)) is ri)) (i_key i) =
       (if i_generations i = [] then None else Some (i_generations i))"
  proof (induction "is" arbitrary: ri)
    case (Cons x xs)
    then show ?case using keep [of "i_key i" xs] by (cases "i = x") auto
  qed simp
qed

lemma changed_keys_distinct: "distinct (map i_key (changed_keys c ri))"
proof -
  have "map i_key (changed_keys c ri) = map fst (filter (\<lambda>(_, gens). compaction_changes gens c) (sorted_list_of_fmap (ri_map ri)))"
    by (simp add: changed_keys_def idx_iter_def split_def comp_def)
  moreover have "sorted_keys (filter (\<lambda>(_, gens). compaction_changes gens c) (sorted_list_of_fmap (ri_map ri)))" by simp
  ultimately show ?thesis using sorted_keys_distinct by metis
qed

lemma changed_keys_iff:
  "i \<in> set (changed_keys c ri) \<longleftrightarrow> fmlookup (ri_map ri) (i_key i) = Some (i_generations i) \<and> compaction_changes (i_generations i) c"
proof -
  have "i \<in> set (changed_keys c ri) \<longleftrightarrow>
      (\<exists>k g. fmlookup (ri_map ri) k = Some g \<and> compaction_changes g c \<and> i = \<lparr>i_key = k, i_generations = g\<rparr>)"
    unfolding changed_keys_def idx_iter_def by (auto simp: image_iff Bex_def)
  then show ?thesis by (cases i) auto
qed

section \<open>The store\<close>

definition compacted :: "int \<Rightarrow> mvcc_store \<Rightarrow> mvcc_store" where
  "compacted rv st = snd (compact rv st)"

lemma compact_fields:
  assumes "0 < rv" "rv \<le> current_rev (s_ws st)" "compact_rev (s_ws st) < rv"
  defines "idxs \<equiv> changed_keys (Revision rv i64_max) (s_index st)"
  shows "fst (compact rv st) = Inr rv"
    "s_engine (compacted rv st) = engine_commit (s_engine st)
       (write_i64 (compact_rows (Revision rv i64_max) idxs) META_KEY_COMPACT_REV rv @ map (\<lambda>(k, v). MetaPut k v) (s_pending st))"
    "s_index (compacted rv st) = fold (\<lambda>i. idx_set (i_key i) (i_generations i))
       (map (\<lambda>i. snd (compact_key (Revision rv i64_max) i)) idxs) (s_index st)"
    "s_ws (compacted rv st) = (s_ws st)\<lparr>compact_rev := rv\<rparr>" "s_values (compacted rv st) = s_values st"
    "s_pending (compacted rv st) = []" "v_revs (s_view (compacted rv st)) = (ws_revs (s_ws st))\<lparr>rv_compact := rv\<rparr>"
    "s_events (compacted rv st) = s_events st"
  using assms
  by (simp_all add: compacted_def compact_def Let_def commit_folded_eq view_publish_def view_store_def
      compact_rows_def changed_keys_def comp_def)

text \<open>Each key's index is compacted, or the compaction would leave it as it is.\<close>

lemma changed_or_same:
  assumes "gens_ok (ri_gens ri k)"
  shows "(\<exists>i \<in> set (changed_keys c ri). i_key i = k \<and> i_generations i = ri_gens ri k \<and> fmlookup (ri_map ri) k = Some (ri_gens ri k)) \<or>
    k \<notin> i_key ` set (changed_keys c ri) \<and> gens_compact c (ri_gens ri k) = ([], ri_gens ri k)"
proof (cases "fmlookup (ri_map ri) k")
  case None
  then have "k \<notin> i_key ` set (changed_keys c ri)" by (auto simp: changed_keys_iff)
  then show ?thesis using None by (simp add: ri_gens_def)
next
  case (Some g)
  then have g: "ri_gens ri k = g" by (simp add: ri_gens_def)
  show ?thesis
  proof (cases "compaction_changes g c")
    case True
    then show ?thesis using Some g by (intro disjI1 bexI [of _ "\<lparr>i_key = k, i_generations = g\<rparr>"]) (simp_all add: changed_keys_iff)
  next
    case False
    then have "k \<notin> i_key ` set (changed_keys c ri)" using Some by (auto simp: changed_keys_iff)
    then show ?thesis using False compaction_changes_iff(2) [of g c] assms g by simp
  qed
qed

lemma compact_tables:
  assumes st: "store_ok st" and rv: "0 < rv" "rv \<le> current_rev (s_ws st)" "compact_rev (s_ws st) < rv"
  defines "c \<equiv> Revision rv i64_max"
  shows "ri_gens (s_index (compacted rv st)) = kept_gens c (ri_gens (s_index st))"
    "eng_kv (s_engine (compacted rv st)) = kept_kv c (ri_gens (s_index st)) (eng_kv (s_engine st))"
    "eng_lk (s_engine (compacted rv st)) = eng_lk (s_engine st)"
    "idx_agrees (s_engine (compacted rv st)) (s_index (compacted rv st))"
proof -
  let ?ri = "s_index st" and ?st' = "compacted rv st"
  let ?idxs = "changed_keys c ?ri" and ?e = "s_engine st"
  note f = compact_fields [OF rv, folded c_def]
  note keep = meta_ops_keep [OF meta_puts_ops]
  have eng: "t_kv (s_engine ?st') = t_kv (engine_commit ?e (compact_rows c ?idxs))"
    "t_idx (s_engine ?st') = t_idx (engine_commit ?e (compact_rows c ?idxs))"
    "t_lease_keys (s_engine ?st') = t_lease_keys ?e"
    using keep by (simp_all add: f(2) write_i64_def compact_rows_keep)
  have base: "base_ok ?ri ?e (current_rev (s_ws st))" and agree: "idx_agrees ?e ?ri" using st by (simp_all add: store_ok_def)
  have ok: "gens_ok (ri_gens ?ri k)" for k by (rule key_ok_gens [OF base_ok_key [OF base]])
  let ?new = "map (\<lambda>i. snd (compact_key c i)) ?idxs"
  have new: "map i_key ?new = map i_key ?idxs" by (simp add: compact_key_result)
  have per: "fmlookup (ri_map (s_index ?st')) k =
        (let g = kept_gens c (ri_gens ?ri) k in if g = [] then None else Some g) \<and>
      fmlookup (t_idx (s_engine ?st')) k =
        (let g = kept_gens c (ri_gens ?ri) k in if g = [] then None else Some \<lparr>i_key = k, i_generations = g\<rparr>) \<and>
      eng_kv (s_engine ?st') (k, r) = kept_kv c (ri_gens ?ri) (eng_kv ?e) (k, r)" for k r
    using changed_or_same [OF ok [of k], of c]
  proof (elim disjE bexE conjE)
    fix i
    assume i: "i \<in> set ?idxs" "i_key i = k" "i_generations i = ri_gens ?ri k"
    have "snd (compact_key c i) \<in> set ?new" using i(1) by simp
    moreover have "distinct (map i_key ?new)" unfolding new by (rule changed_keys_distinct)
    ultimately have "fmlookup (ri_map (s_index ?st')) (i_key (snd (compact_key c i))) =
        (if i_generations (snd (compact_key c i)) = [] then None else Some (i_generations (snd (compact_key c i))))"
      unfolding f(3) by (intro compact_index(3))
    then show ?thesis
      using compact_rows_change [OF changed_keys_distinct i(1), where e = ?e and c = c and r = r] i
      by (simp add: eng eng_kv_def compact_key_result kept_gens_def kept_kv_def Let_def)
  next
    assume k: "k \<notin> i_key ` set ?idxs" "gens_compact c (ri_gens ?ri k) = ([], ri_gens ?ri k)"
    have "k \<notin> i_key ` set ?new" using k(1) new by (metis list.set_map)
    then have "fmlookup (ri_map (s_index ?st')) k = fmlookup (ri_map ?ri) k" unfolding f(3) by (rule compact_index(2))
    moreover have "fmlookup (ri_map ?ri) k = (if ri_gens ?ri k = [] then None else Some (ri_gens ?ri k))"
      using base by (cases "fmlookup (ri_map ?ri) k") (auto simp: ri_gens_def base_ok_def)
    ultimately show ?thesis
      using compact_rows_keep(1,2) [OF k(1)] k(2) agree
      by (simp add: eng eng_kv_def kept_gens_def kept_kv_def idx_agrees_def)
  qed
  show "ri_gens (s_index ?st') = kept_gens c (ri_gens ?ri)" using per by (simp add: fun_eq_iff ri_gens_def Let_def)
  show "eng_kv (s_engine ?st') = kept_kv c (ri_gens ?ri) (eng_kv ?e)" using per by (simp add: fun_eq_iff)
  show "eng_lk (s_engine ?st') = eng_lk ?e" by (simp add: fun_eq_iff eng_lk_def eng)
  show "idx_agrees (s_engine ?st') (s_index ?st')" using per by (simp add: idx_agrees_def Let_def)
qed

lemma compact_ok:
  assumes st: "store_ok st" and rv: "0 < rv" "rv \<le> current_rev (s_ws st)" "compact_rev (s_ws st) < rv"
  shows "store_ok (compacted rv st)"
proof -
  let ?st' = "compacted rv st" and ?c = "Revision rv i64_max" and ?n = "current_rev (s_ws st)"
  note t = compact_tables [OF st rv] and f = compact_fields [OF rv]
  have base: "base_ok (s_index st) (s_engine st) ?n" using st by (simp add: store_ok_def)
  have "tables_ok (Revision (?n + 1) 0) (ri_gens (s_index st)) (eng_kv (s_engine st)) (eng_lk (s_engine st))"
    using base by (simp add: base_ok_def)
  from tables_compact [OF this, of ?c]
  have tab: "tables_ok (Revision (?n + 1) 0) (ri_gens (s_index ?st')) (eng_kv (s_engine ?st')) (eng_lk (s_engine ?st'))"
    unfolding t .
  have ri: "ri_ok (s_index ?st')" unfolding f(3) by (rule compact_index(1)) (use st in \<open>simp add: store_ok_def\<close>)
  then have base': "base_ok (s_index ?st') (s_engine ?st') ?n" using tab by (simp add: base_ok_def ri_ok_def)
  let ?P = "\<lambda>k rv rec. rmain rv \<le> ?n \<and> ((rv, False) \<in> set (hist (ri_gens (s_index st) k)) \<longrightarrow> eng_kv (s_engine st) (k, rv) = Some rec)"
  have vc: "vc_ok (s_values st)" "vc_all ?P (s_values st)" using st by (simp_all add: store_ok_def cache_fits_def)
  have "vc_all (\<lambda>k rv rec. rmain rv \<le> ?n \<and>
      ((rv, False) \<in> set (hist (ri_gens (s_index ?st') k)) \<longrightarrow> eng_kv (s_engine ?st') (k, rv) = Some rec)) (s_values st)"
  proof (rule vc_all_mono [OF vc(2)])
    fix k r rec
    assume P: "?P k r rec"
    note ok = key_ok_gens [OF base_ok_key [OF base, of k]]
    have "eng_kv (s_engine ?st') (k, r) = Some rec" if h: "(r, False) \<in> set (hist (ri_gens (s_index ?st') k))"
    proof -
      have "r \<in> fst ` set (hist (kept_gens ?c (ri_gens (s_index st)) k))" using h unfolding t(1) by force
      from kept_kv_hist [where G = "ri_gens (s_index st)" and k = k, OF ok this] show ?thesis
        using P h gens_compact_hist [OF ok, of ?c] unfolding t(1,2) kept_gens_def by auto
    qed
    then show "rmain r \<le> ?n \<and> ((r, False) \<in> set (hist (ri_gens (s_index ?st') k)) \<longrightarrow> eng_kv (s_engine ?st') (k, r) = Some rec)"
      using P by simp
  qed
  then have cache: "cache_fits (s_index ?st') (s_engine ?st') ?n (s_values ?st')" using vc(1) by (simp add: cache_fits_def f(5))
  have pend: "list_all (\<lambda>p. raft_key (fst p)) (s_pending st)" using st by (simp add: store_ok_def meta_ok_def)
  note pk = pending_keys [OF pend]
  have "i64_ok rv" using rv st by (simp add: store_ok_def meta_ok_def i64_defs)
  then have "meta_ok ?st'"
    using st pk meta_puts_lookup
    by (simp add: store_ok_def meta_ok_def f(2,4,6) write_i64_def read_i64_def)
      (simp add: meta_puts_lookup compact_rows_keep i64_roundtrip or_zero_def meta_keys)
  then show ?thesis
    using base' cache ri t(4) st by (simp add: store_ok_def f(4,7) ws_revs_def)
qed

lemma compact_stands:
  assumes st: "store_ok st" and rv: "0 < rv" "rv \<le> current_rev (s_ws st)" "compact_rev (s_ws st) < rv"
  defines "st' \<equiv> compacted rv st"
  shows "kv_at st' (current_rev (s_ws st)) = kv_at st (current_rev (s_ws st))"
    "rv \<le> r \<Longrightarrow> kv_at st' r = kv_at st r"
proof -
  have base: "base_ok (s_index st) (s_engine st) (current_rev (s_ws st))" using st by (simp add: store_ok_def)
  have at: "kv_at st' r = kv_at st r" if "rv \<le> r" for r
  proof (rule fmap_ext)
    fix k
    have "Revision rv i64_max \<le> Revision r i64_max" using that by (auto simp: less_eq_revision_def less_revision_def)
    from at_rec_compact [where G = "ri_gens (s_index st)", OF base_ok_key [OF base] this]
    show "fmlookup (kv_at st' r) k = fmlookup (kv_at st r) k"
      unfolding kv_at_lookup st'_def compact_tables(1,2) [OF st rv] by simp
  qed
  then show "kv_at st' (current_rev (s_ws st)) = kv_at st (current_rev (s_ws st))" "rv \<le> r \<Longrightarrow> kv_at st' r = kv_at st r"
    using rv by simp_all
qed

lemma range_abs:
  assumes "store_ok st"
  shows "fst (range_with_revision r st) =
    bind_res (check_read_rev (ws_revs (s_ws st)) (ro_revision r)) (\<lambda>_.
      Inr (spec_range (kv_at st (if ro_revision r = 0 then current_rev (s_ws st) else ro_revision r)) r, current_rev (s_ws st)))"
  using range_refines_spec(1) [OF assms abs_store_stands [OF assms], of r]
  by (simp add: spec_range_at_def abs_store_def ws_revs_def)

lemma compact_reads:
  assumes st: "store_ok st" and rv: "0 < rv" "rv \<le> current_rev (s_ws st)" "compact_rev (s_ws st) < rv"
  shows "fst (range_with_revision r (compacted rv st)) =
    (if 0 < ro_revision r \<and> ro_revision r < rv then Inl (Compacted (ro_revision r) rv)
     else if ro_revision r < 0 then Inr (spec_range (kv_at (compacted rv st) (ro_revision r)) r, current_rev (s_ws st))
     else fst (range_with_revision r st))"
  unfolding range_abs [OF compact_ok [OF st rv]] range_abs [OF st]
  using compact_stands [OF st rv] rv
  by (auto simp: compact_fields [OF rv] check_read_rev_def ws_revs_def)

end
