(* ===== verification/Mvcc_Leasing.thy ===== *)
theory Mvcc_Leasing
  imports Mvcc_Correct
begin

text \<open>
  Leases in the store: the keys attached to a lease are found through the reverse index, revoking a
  lease deletes exactly them, and granting gives an id no earlier lease was given.
\<close>

section \<open>Attached keys\<close>

definition attached :: "int \<Rightarrow> kv_map \<Rightarrow> bytes list" where
  "attached lid M = map fst (filter (\<lambda>p. r_lease (snd p) = lid) (sorted_list_of_fmap M))"

lemma list_less_prefix: "(p @ a :: 'a::linorder list) < p @ b \<longleftrightarrow> a < b"
  by (induction p) auto

lemma lease_key_index_less: "lease_key_index lid a < lease_key_index lid b \<longleftrightarrow> a < b"
  by (simp add: lease_key_index_def list_less_prefix)

lemma attached_sorted: "sorted_wrt (<) (attached lid M)"
  unfolding attached_def by (intro strict_sorted_keys sorted_keys_filter sorted_keys_sorted_list_of_fmap)

lemma in_attached: "k \<in> set (attached lid M) \<longleftrightarrow> (\<exists>rec. fmlookup M k = Some rec \<and> r_lease rec = lid)"
  unfolding attached_def in_map_fst_filter by simp

text \<open>Ids a client can use: neither of the two ids whose scan range is wrong.\<close>

definition lease_id_ok :: "int \<Rightarrow> bool" where
  "lease_id_ok lid \<longleftrightarrow> i64_ok lid \<and> lid \<noteq> 0 \<and> lid \<noteq> -1 \<and> lid \<noteq> i64_max"

lemma in_lease_entries:
  assumes lid: "lease_id_ok lid" and M: "lease_index (fmlookup M) (eng_lk e)"
    and ok: "\<forall>k rec. fmlookup M k = Some rec \<longrightarrow> i64_ok (r_lease rec)"
  shows "x \<in> set (lease_entries e lid) \<longleftrightarrow> (\<exists>k \<in> set (attached lid M). x = lease_key_index lid k)"
proof -
  have "x \<in> set (lease_entries e lid) \<longleftrightarrow> eng_lk e x \<and> in_bounds x (fst (lease_keys_bounds lid)) (snd (lease_keys_bounds lid))"
    unfolding lease_entries_def Let_def split_def rows_in_def in_map_fst_filter by (auto simp: eng_lk_def)
  also have "\<dots> \<longleftrightarrow> (\<exists>k rec. fmlookup M k = Some rec \<and> r_lease rec \<noteq> 0 \<and> x = lease_key_index (r_lease rec) k \<and>
      in_bounds x (fst (lease_keys_bounds lid)) (snd (lease_keys_bounds lid)))"
    using M unfolding lease_index_def by blast
  also have "\<dots> \<longleftrightarrow> (\<exists>k rec. fmlookup M k = Some rec \<and> r_lease rec = lid \<and> x = lease_key_index lid k)"
  proof -
    have "in_bounds (lease_key_index (r_lease rec) k) (fst (lease_keys_bounds lid)) (snd (lease_keys_bounds lid)) \<longleftrightarrow> r_lease rec = lid"
      if "fmlookup M k = Some rec" for k rec
    proof -
      have "i64_ok (r_lease rec)" using ok that by blast
      moreover have "take 8 (lease_key_index (r_lease rec) k) = lease_id_key (r_lease rec)" by (simp add: lease_key_index_def)
      moreover have "8 \<le> length (lease_key_index (r_lease rec) k)" by (simp add: lease_key_index_def)
      ultimately show ?thesis
        using in_lease_keys_bounds [of lid "lease_key_index (r_lease rec) k"] lid lease_id_key_inject [of "r_lease rec" lid]
        by (simp add: lease_id_ok_def)
    qed
    moreover have "lid \<noteq> 0" using lid by (simp add: lease_id_ok_def)
    ultimately show ?thesis by blast
  qed
  finally show ?thesis unfolding Bex_def in_attached by blast
qed

lemma lease_entries_attached:
  assumes "lease_id_ok lid" "lease_index (fmlookup M) (eng_lk e)"
    "\<forall>k rec. fmlookup M k = Some rec \<longrightarrow> i64_ok (r_lease rec)"
  shows "lease_entries e lid = map (lease_key_index lid) (attached lid M)"
proof (rule strict_sorted_equal)
  show "sorted_wrt (<) (map (lease_key_index lid) (attached lid M))"
    using attached_sorted by (simp add: sorted_wrt_map lease_key_index_less)
  have "sorted_keys (rows_in (t_lease_keys e) lo hi)" for lo hi by (simp add: rows_in_def)
  then show "sorted_wrt (<) (lease_entries e lid)"
    by (simp add: lease_entries_def Let_def split_def strict_sorted_keys)
  show "set (lease_entries e lid) = set (map (lease_key_index lid) (attached lid M))"
    using in_lease_entries [OF assms] by auto
qed

lemma collect_keys_index: "i64_ok lid \<Longrightarrow> collect_keys (map (lease_key_index lid) ks) = Inr ks"
  by (induction ks) (simp_all add: parse_lease_key_index)

lemma models_attached:
  assumes st: "store_ok st" and S: "models (s_index st) (s_engine st) ctx_default S" and lid: "lease_id_ok lid"
  shows "lease_entries (s_engine st) lid = map (lease_key_index lid) (attached lid (km_map S))"
proof (rule lease_entries_attached [OF lid])
  have base: "base_ok (s_index st) (s_engine st) (current_rev (s_ws st))" using st by (simp add: store_ok_def)
  have m: "fmlookup (km_map S) = cur_rec (ri_gens (s_index st)) (eng_kv (s_engine st))"
    using S by (simp add: models_def fun_eq_iff)
  show "lease_index (fmlookup (km_map S)) (eng_lk (s_engine st))" using base unfolding m by (simp add: base_ok_def tables_ok_def)
  show "\<forall>k rec. fmlookup (km_map S) k = Some rec \<longrightarrow> i64_ok (r_lease rec)"
    unfolding m using cur_rec_ok(3) [where G = "ri_gens (s_index st)", OF base_ok_key [OF base]] by blast
qed

section \<open>Deleting the attached keys\<close>

lemma rows_of_key: "rows_of k [] M = (case fmlookup M k of Some rec \<Rightarrow> [(k, rec)] | None \<Rightarrow> [])"
proof (rule sorted_keys_set_eq [OF rows_of_sorted])
  show "sorted_keys (case fmlookup M k of Some rec \<Rightarrow> [(k, rec)] | None \<Rightarrow> [])"
    by (simp add: sorted_keys_Cons split: option.split)
  show "set (rows_of k [] M) = set (case fmlookup M k of Some rec \<Rightarrow> [(k, rec)] | None \<Rightarrow> [])"
    by (auto simp: rows_of_def in_range_def split: option.split)
qed

lemma spec_deletes:
  assumes "distinct ks" "\<forall>k \<in> set ks. fmlookup (km_map S) k \<noteq> None"
  shows "\<exists>es S'. spec_mutations main (map (\<lambda>k. MutDeleteRange k [] False) ks) S =
      Inr (replicate (length ks) \<lparr>mr_n = 1, mr_prev_kvs = []\<rparr>, es, S') \<and>
    length es = length ks \<and> km_map S' = fmfilter (\<lambda>k. k \<notin> set ks) (km_map S)"
  using assms
proof (induction ks arbitrary: S)
  case Nil
  then show ?case by simp
next
  case (Cons k ks)
  then obtain rec where rec: "fmlookup (km_map S) k = Some rec" by auto
  let ?S = "kill (k, rec) S"
  have "\<forall>j \<in> set ks. fmlookup (km_map ?S) j \<noteq> None" using Cons.prems by (auto simp: kill_def)
  from Cons.IH [OF _ this] Cons.prems(1) obtain es S' where ih: "spec_mutations main (map (\<lambda>k. MutDeleteRange k [] False) ks) ?S =
      Inr (replicate (length ks) \<lparr>mr_n = 1, mr_prev_kvs = []\<rparr>, es, S')"
    "length es = length ks" "km_map S' = fmfilter (\<lambda>k. k \<notin> set ks) (km_map ?S)" by auto
  have "km_map S' = fmfilter (\<lambda>j. j \<notin> set (k # ks)) (km_map S)"
    by (rule fmap_ext) (simp add: ih(3) kill_def)
  then show ?case using ih(1,2) rec by (simp add: spec_delete_range_def rows_of_key)
qed

text \<open>A context whose batch also deletes rows of the lease tables that stand for no live key.\<close>

lemma lease_key_deletes:
  "eng_lk (engine_commit e (map LeaseKeyDelete xs)) x \<longleftrightarrow> eng_lk e x \<and> x \<notin> set xs"
  "t_kv (engine_commit e (map LeaseKeyDelete xs)) = t_kv e"
  "t_lease (engine_commit e (map LeaseKeyDelete xs)) = t_lease e"
  by (induction xs arbitrary: e) (auto simp: eng_lk_def)

definition with_lease_deletes :: "bytes \<Rightarrow> bytes list \<Rightarrow> work \<Rightarrow> work" where
  "with_lease_deletes lk xs w =
     w\<lparr>w_ctx := (w_ctx w)\<lparr>cx_batch := cx_batch (w_ctx w) @ [LeaseDelete lk] @ map LeaseKeyDelete xs\<rparr>\<rparr>"

lemma lease_deletes_tables:
  assumes "\<forall>x \<in> set xs. \<not> ctx_lk snap (w_ctx w) x"
  shows "ctx_gens ri (w_ctx (with_lease_deletes lk xs w)) = ctx_gens ri (w_ctx w)"
    "ctx_kv snap (w_ctx (with_lease_deletes lk xs w)) = ctx_kv snap (w_ctx w)"
    "ctx_lk snap (w_ctx (with_lease_deletes lk xs w)) = ctx_lk snap (w_ctx w)"
  using assms
  by (auto simp: with_lease_deletes_def ctx_gens_def ctx_kv_def ctx_lk_def eng_kv_def lease_key_deletes fun_eq_iff)
     (auto simp: eng_lk_def)

lemma lease_deletes_batch:
  assumes at: "batch_at st cur w sp" and none: "\<forall>x \<in> set xs. \<not> ctx_lk (s_engine st) (w_ctx w) x"
  shows "batch_at st cur (with_lease_deletes lk xs w) sp"
proof -
  note t = lease_deletes_tables [OF none, where lk = lk]
  have f: "cx_idx_cache (w_ctx (with_lease_deletes lk xs w)) = cx_idx_cache (w_ctx w)"
    "cx_latest (w_ctx (with_lease_deletes lk xs w)) = cx_latest (w_ctx w)" "w_values (with_lease_deletes lk xs w) = w_values w"
    "list_all row_op (cx_batch (w_ctx (with_lease_deletes lk xs w))) = list_all row_op (cx_batch (w_ctx w))"
    by (auto simp: with_lease_deletes_def list_all_iff)
  show ?thesis using at unfolding batch_at_def work_ok_def ctx_ok_def models_def ctx_past_def t f by simp
qed

section \<open>Commits of lease rows\<close>

fun quiet_op :: "store_op \<Rightarrow> bool" where
  "quiet_op (LeasePut _ _) = True"
| "quiet_op (LeaseDelete _) = True"
| "quiet_op (MetaPut k _) = (k = META_KEY_NEXT_LEASE_ID)"
| "quiet_op _ = False"

lemma quiet_ops_keep:
  "list_all quiet_op b \<Longrightarrow> t_idx (engine_commit e b) = t_idx e \<and> t_kv (engine_commit e b) = t_kv e \<and>
     t_lease_keys (engine_commit e b) = t_lease_keys e \<and>
     (\<forall>k. k \<noteq> META_KEY_NEXT_LEASE_ID \<longrightarrow> fmlookup (t_meta (engine_commit e b)) k = fmlookup (t_meta e) k)"
proof (induction b arbitrary: e)
  case (Cons op b)
  then show ?case by (cases op) auto
qed simp

lemma quiet_commit:
  assumes st: "store_ok st" and sp: "stands_for st sp" and b: "list_all quiet_op b"
    and nx: "i64_ok n" "or_zero (read_i64 (engine_commit (s_engine st) b) META_KEY_NEXT_LEASE_ID) = n"
  defines "st' \<equiv> commit_folded b (st\<lparr>s_ws := (s_ws st)\<lparr>next_lease_id := n\<rparr>\<rparr>)"
  shows "store_ok st'" "stands_for st' sp" "s_events st' = s_events st" "t_lease (s_engine st') = t_lease (engine_commit (s_engine st) b)"
proof -
  note q = quiet_ops_keep [OF b, of "s_engine st"]
  note m = meta_ops_keep [OF meta_puts_ops, of "engine_commit (s_engine st) b" "s_pending st"]
  have f: "s_index st' = s_index st" "s_values st' = s_values st" "s_view st' = s_view st" "s_pending st' = []"
    "s_ws st' = (s_ws st)\<lparr>next_lease_id := n\<rparr>"
    "s_engine st' = engine_commit (engine_commit (s_engine st) b) (map (\<lambda>(k, v). MetaPut k v) (s_pending st))"
    by (simp_all add: st'_def commit_folded_eq)
  have t: "t_idx (s_engine st') = t_idx (s_engine st)" "eng_kv (s_engine st') = eng_kv (s_engine st)" "eng_lk (s_engine st') = eng_lk (s_engine st)"
    using q m by (simp_all add: f(6) eng_kv_def eng_lk_def fun_eq_iff)
  have pend: "list_all (\<lambda>p. raft_key (fst p)) (s_pending st)" using st by (simp add: store_ok_def meta_ok_def)
  have ri: "read_i64 (s_engine st') k = read_i64 (engine_commit (s_engine st) b) k" if "k \<notin> fst ` set (s_pending st)" for k
    using that by (simp add: f(6) read_i64_def meta_puts_lookup)
  have "read_i64 (engine_commit (s_engine st) b) k = read_i64 (s_engine st) k" if "k \<noteq> META_KEY_NEXT_LEASE_ID" for k
    using q that by (simp add: read_i64_def)
  moreover have "META_KEY_CURRENT_REV \<noteq> META_KEY_NEXT_LEASE_ID" "META_KEY_COMPACT_REV \<noteq> META_KEY_NEXT_LEASE_ID" by (simp_all add: meta_keys)
  ultimately have "meta_ok st'"
    using st nx pending_keys [OF pend] by (simp add: meta_ok_def store_ok_def f(4,5) ri)
  then show "store_ok st'"
    using st by (simp add: store_ok_def f(1-5) t base_ok_def cache_fits_def idx_agrees_def ws_revs_def)
  show "stands_for st' sp" using sp by (simp add: stands_for_def f(1,5) models_def past_ok_def t ws_revs_def)
  show "s_events st' = s_events st" "t_lease (s_engine st') = t_lease (engine_commit (s_engine st) b)"
    using m by (simp_all add: st'_def commit_folded_eq)
qed

section \<open>Revoking\<close>

lemma lease_applied_ok [simp]:
  "store_ok (st\<lparr>s_lease_applied := x\<rparr>) = store_ok st" "stands_for (st\<lparr>s_lease_applied := x\<rparr>) sp = stands_for st sp"
  by (simp_all add: store_ok_def meta_ok_def stands_for_def)

lemma sum_replicate_one: "sum_list (map mr_n (replicate n \<lparr>mr_n = 1, mr_prev_kvs = ps\<rparr>)) = int n"
  by (simp add: sum_list_replicate)

lemma entries_gone:
  assumes at: "batch_at st cur w sp" and lid: "lease_id_ok lid"
    and gone: "\<forall>k \<in> set ks. fmlookup (km_map (sp_now sp)) k = None"
  shows "\<forall>x \<in> set (map (lease_key_index lid) ks). \<not> ctx_lk (s_engine st) (w_ctx w) x"
proof
  fix x
  assume "x \<in> set (map (lease_key_index lid) ks)"
  then obtain k where k: "k \<in> set ks" "x = lease_key_index lid k" by auto
  let ?G = "ctx_gens (s_index st) (w_ctx w)" and ?K = "ctx_kv (s_engine st) (w_ctx w)"
  have ok: "work_ok (s_index st) (s_engine st) (current_rev (s_ws st)) (Revision (cur + 1) 0) w"
    and m: "cur_rec ?G ?K = fmlookup (km_map (sp_now sp))" using at by (simp_all add: batch_at_def models_def fun_eq_iff)
  show "\<not> ctx_lk (s_engine st) (w_ctx w) x"
  proof
    assume "ctx_lk (s_engine st) (w_ctx w) x"
    moreover have "lease_index (cur_rec ?G ?K) (ctx_lk (s_engine st) (w_ctx w))"
      using ctx_ok_tables [OF work_ok_ctx [OF ok]] by (simp add: tables_ok_def)
    ultimately obtain j rec where j: "cur_rec ?G ?K j = Some rec" "x = lease_key_index (r_lease rec) j"
      unfolding lease_index_def by blast
    have "i64_ok (r_lease rec)" by (rule cur_rec_ok(3) [where G = ?G, OF work_ok_key [OF ok] j(1)])
    then have "j = k" using lid lease_key_index_inject [of lid "r_lease rec" k j] j(2) k(2) by (simp add: lease_id_ok_def)
    then show False using gone k(1) j(1) m by simp
  qed
qed

lemma commit_lease_gone:
  "fmlookup (t_lease (s_engine (commit_ctx main (w_ctx (with_lease_deletes lk xs w)) st))) lk = None"
proof -
  let ?e = "engine_commit (s_engine st) (cx_batch (w_ctx w) @ [LeaseDelete lk] @ map LeaseKeyDelete xs)"
  have "t_lease (s_engine (commit_ctx main (w_ctx (with_lease_deletes lk xs w)) st)) = t_lease ?e"
    using meta_ops_keep [OF meta_puts_ops] idx_puts_keep
    by (simp add: commit_ctx_def commit_folded_eq commit_batch_def write_i64_def with_lease_deletes_def Let_def)
  then show ?thesis by (simp add: lease_key_deletes)
qed

text \<open>What revoking promises, for a store that stands for \<open>sp\<close> and the keys \<open>ks\<close> attached there.\<close>

definition revoked :: "int \<Rightarrow> bytes list \<Rightarrow> mvcc_store \<Rightarrow> spec_store \<Rightarrow> mvcc_store \<Rightarrow> bool" where
  "revoked lid ks st sp st' \<longleftrightarrow> store_ok st' \<and>
     (\<exists>sp'. stands_for st' sp' \<and> km_map (sp_now sp') = fmfilter (\<lambda>k. k \<notin> set ks) (km_map (sp_now sp)) \<and>
        (\<forall>r. r \<le> current_rev (s_ws st) \<longrightarrow> sp_past sp' r = sp_past sp r)) \<and>
     current_rev (s_ws st') = (if ks = [] then current_rev (s_ws st) else current_rev (s_ws st) + 1) \<and>
     compact_rev (s_ws st') = compact_rev (s_ws st) \<and>
     fmlookup (t_lease (s_engine st')) (lease_id_key lid) = None"

lemma revoke_none:
  assumes st: "store_ok st" and sp: "stands_for st sp"
  shows "revoked lid [] st sp (commit_folded [LeaseDelete (lease_id_key lid)] st)"
proof -
  have n: "i64_ok (next_lease_id (s_ws st))" "or_zero (read_i64 (s_engine st) META_KEY_NEXT_LEASE_ID) = next_lease_id (s_ws st)"
    using st by (simp_all add: store_ok_def meta_ok_def)
  note q = quiet_commit [OF st sp, of "[LeaseDelete (lease_id_key lid)]", OF _ n(1)]
  have same: "st\<lparr>s_ws := (s_ws st)\<lparr>next_lease_id := next_lease_id (s_ws st)\<rparr>\<rparr> = st" by simp
  have "or_zero (read_i64 (engine_commit (s_engine st) [LeaseDelete (lease_id_key lid)]) META_KEY_NEXT_LEASE_ID) = next_lease_id (s_ws st)"
    using n(2) by (simp add: read_i64_def)
  note q = q [OF _ this, unfolded same]
  have "s_ws (commit_folded [LeaseDelete (lease_id_key lid)] st) = s_ws st" by (simp add: commit_folded_eq)
  then show ?thesis using q by (auto simp: revoked_def fmfilter_true)
qed

lemma revoke_some:
  assumes st: "store_ok st" and sp: "stands_for st sp" and lid: "lease_id_ok lid" and cur: "current_rev (s_ws st) < i64_max"
    and mv: "moved st (current_rev (s_ws st)) (start_work st) sp es (spec_advance (current_rev (s_ws st) + 1) S sp) w"
    and es: "es \<noteq> []" and S: "km_map S = fmfilter (\<lambda>k. k \<notin> set ks) (km_map (sp_now sp))" and ks: "ks \<noteq> []"
  defines "w' \<equiv> with_lease_deletes (lease_id_key lid) (map (lease_key_index lid) ks) w"
  shows "revoked lid ks st sp (commit_ctx (current_rev (s_ws st) + 1) (w_ctx w') (end_work w' st))"
proof -
  let ?n = "current_rev (s_ws st)" and ?sp = "spec_advance (current_rev (s_ws st) + 1) S sp"
  have at: "batch_at st (?n + 1) w ?sp" using mv es by (simp add: moved_def)
  have "\<forall>k \<in> set ks. fmlookup (km_map (sp_now ?sp)) k = None" using S by (simp add: spec_advance_def)
  note none = entries_gone [OF at lid this]
  note c = commit_batch_at [OF st lease_deletes_batch [OF at none, of "lease_id_key lid", folded w'_def]]
  have "fmlookup (t_lease (s_engine (commit_ctx (?n + 1) (w_ctx w') (end_work w' st)))) (lease_id_key lid) = None"
    unfolding w'_def by (rule commit_lease_gone)
  moreover have "s_ws (commit_ctx (?n + 1) (w_ctx w') (end_work w' st)) = (s_ws st)\<lparr>current_rev := ?n + 1\<rparr>"
    by (simp add: commit_ctx_def commit_folded_eq end_work_def Let_def)
  moreover have "\<forall>r. r \<le> ?n \<longrightarrow> sp_past ?sp r = sp_past sp r" "km_map (sp_now ?sp) = km_map S" by (simp_all add: spec_advance_def)
  ultimately show ?thesis using c(1,2) cur ks S by (auto simp: revoked_def)
qed

lemma revoke_spec:
  assumes st: "store_ok st" and sp: "stands_for st sp" and lid: "lease_id_ok lid"
    and cur: "current_rev (s_ws st) < i64_max" and len: "int (length (attached lid (km_map (sp_now sp)))) \<le> i64_max"
  defines "ks \<equiv> attached lid (km_map (sp_now sp))"
  shows "\<exists>st'. apply_lease_revoke lid st =
      (Inr \<lparr>lv_revision = (if ks = [] then current_rev (s_ws st) else current_rev (s_ws st) + 1), lv_deleted_keys = int (length ks)\<rparr>, st') \<and>
    revoked lid ks st sp st'"
proof -
  let ?n = "current_rev (s_ws st)" and ?ms = "map (\<lambda>k. MutDeleteRange k [] False) ks"
  have ent: "lease_entries (s_engine st) lid = map (lease_key_index lid) ks"
    unfolding ks_def using models_attached [OF st _ lid] sp by (simp add: stands_for_def)
  have col: "collect_keys (map (lease_key_index lid) ks) = Inr ks" using lid collect_keys_index by (simp add: lease_id_ok_def)
  show ?thesis
  proof (cases "ks = []")
    case True
    have "end_work (start_work st) st = st" by (simp add: end_work_def start_work_def)
    moreover have "revoked lid [] st sp (x\<lparr>s_lease_applied := y\<rparr>) = revoked lid [] st sp x" for x y by (simp add: revoked_def)
    ultimately show ?thesis
      using True ent revoke_none [OF st sp, of lid]
      by (simp add: apply_lease_revoke_def Let_def ctx_default_def)
  next
    case False
    have "distinct ks" "\<forall>k \<in> set ks. fmlookup (km_map (sp_now sp)) k \<noteq> None"
      using attached_sorted [of lid "km_map (sp_now sp)"] by (auto simp: ks_def in_attached strict_sorted_iff)
    from spec_deletes [OF this, of "?n + 1"] obtain es S where
      S: "spec_mutations (?n + 1) ?ms (sp_now sp) = Inr (replicate (length ks) \<lparr>mr_n = 1, mr_prev_kvs = []\<rparr>, es, S)"
        "length es = length ks" "km_map S = fmfilter (\<lambda>k. k \<notin> set ks) (km_map (sp_now sp))" by blast
    have es: "es \<noteq> []" using S(2) False by auto
    have "muts_fit ?ms" using len by (simp add: muts_fit_def list_all_iff ks_def)
    from apply_inner_sim [OF batch_start [OF st sp] this] S(1) es obtain w where
      w: "apply_inner (s_index st) (s_engine st) ?n ?ms (start_work st) =
          (Inr (?n + 1, replicate (length ks) \<lparr>mr_n = 1, mr_prev_kvs = []\<rparr>, True), w)"
        "moved st ?n (start_work st) sp es (spec_advance (?n + 1) S sp) w" by auto
    let ?w = "with_lease_deletes (lease_id_key lid) (map (lease_key_index lid) ks) w"
    have rv: "revoked lid ks st sp (commit_ctx (?n + 1) (w_ctx ?w) (end_work ?w st))"
      by (rule revoke_some [OF st sp lid cur w(2) es S(3) False])
    have "end_work ?w st = end_work w st" by (simp add: end_work_def with_lease_deletes_def)
    moreover have "revoked lid ks st sp (x\<lparr>s_lease_applied := y\<rparr>) = revoked lid ks st sp x" for x y by (simp add: revoked_def)
    ultimately show ?thesis
      using rv False ent col w(1) sum_replicate_one [of "length ks" "[]"]
      by (simp add: apply_lease_revoke_def Let_def with_lease_deletes_def)
  qed
qed

end
