(* ===== verification/Mvcc_Guarantees.thy ===== *)
theory Mvcc_Guarantees
  imports Mvcc_Compaction Mvcc_Leasing
begin

text \<open>
  The guarantees of the MVCC store, stated on the operations of the code: requests refine the
  specification from the state the store stands for, shared commits are their requests one by one,
  history does not change, compaction and restarts are not noticed by reads they allow, leases take
  exactly their keys with them, and what a request may fail with.
\<close>

section \<open>A store for the witnesses\<close>

definition sample_store :: mvcc_store where
  "sample_store = projr (open_with (\<lambda>_. 0) 0 engine_empty \<lparr>cf_value_cache_bytes = 0, cf_max_entry_bytes = 0\<rparr>)"

lemma engine_empty_ok: "engine_ok engine_empty"
proof -
  have "key_ok k [] (\<lambda>_. None)" for k by (simp add: key_ok_def)
  moreover have "engine_gens engine_empty = (\<lambda>_. [])" "eng_kv engine_empty = (\<lambda>_. None)" "eng_lk engine_empty = (\<lambda>_. False)"
    by (simp_all add: fun_eq_iff engine_gens_def eng_kv_def eng_lk_def engine_empty_def)
  ultimately show ?thesis
    by (simp add: engine_ok_def Let_def tables_ok_def gens_below_def lease_index_def cur_rec_def gens_current_def
        read_i64_def or_zero_def engine_empty_def)
qed

lemma sample_store_ok:
  "store_ok sample_store" "current_rev (s_ws sample_store) = 0" "compact_rev (s_ws sample_store) = 0"
    "next_lease_id (s_ws sample_store) = 0" "t_kv (s_engine sample_store) = fmempty"
    "ri_map (s_index sample_store) = fmempty"
proof -
  obtain st where st: "open_with (\<lambda>_. 0) 0 engine_empty \<lparr>cf_value_cache_bytes = 0, cf_max_entry_bytes = 0\<rparr> = Inr st" "store_ok st"
    "s_ws st = \<lparr>current_rev = 0, compact_rev = 0, next_lease_id = 0\<rparr>" "eng_kv (s_engine st) = eng_kv engine_empty" "ri_gens (s_index st) = engine_gens engine_empty"
    using open_ok [OF engine_empty_ok, of "\<lambda>_. 0" 0 "\<lparr>cf_value_cache_bytes = 0, cf_max_entry_bytes = 0\<rparr>"]
    by (auto simp: engine_empty_def read_i64_def or_zero_def)
  then have "sample_store = st" by (simp add: sample_store_def)
  moreover have "t_kv (s_engine st) = fmempty"
    using fun_cong [OF st(4)] by (intro fmap_ext) (simp add: eng_kv_def engine_empty_def)
  moreover have "fmlookup (ri_map (s_index st)) k = None" for k
    using fun_cong [OF st(5), of k] st(2)
    by (auto simp: ri_gens_def engine_gens_def engine_empty_def store_ok_def base_ok_def split: option.splits)
  then have "ri_map (s_index st) = fmempty" by (intro fmap_ext) simp
  ultimately show "store_ok sample_store" "current_rev (s_ws sample_store) = 0" "compact_rev (s_ws sample_store) = 0"
    "next_lease_id (s_ws sample_store) = 0" "t_kv (s_engine sample_store) = fmempty"
    "ri_map (s_index sample_store) = fmempty" using st by simp_all
qed

lemma sample_no_cluster: "fmlookup (t_meta (s_engine sample_store)) META_KEY_CLUSTER_ID = None"
  by (simp add: sample_store_def open_with_def Let_def engine_empty_def read_i64_def read_u64_def or_zero_def load_index_def
      reload_auth_def engine_commit_def write_i64_def meta_keys)

definition sample_put :: "bytes \<Rightarrow> int \<Rightarrow> mutation" where
  "sample_put k lease = MutPut k [7] lease False False False"

definition sample_record :: "bytes \<Rightarrow> int \<Rightarrow> kv_record" where
  "sample_record k lease = \<lparr>r_key = k, r_value = [7], r_create_revision = 1, r_mod_revision = 1, r_version = 1, r_lease = lease, r_deleted = False\<rparr>"

text \<open>The same store after one put, of a key attached to lease 5.\<close>

definition sample_one :: mvcc_store where
  "sample_one = snd (apply_mutations [sample_put [1] 5] sample_store)"

lemma sample_fits: "muts_fit [sample_put k 0]" "muts_fit [sample_put k 5]" "(0::int) < i64_max"
  by (simp_all add: muts_fit_def sample_put_def i64_defs)

lemma stands_unique:
  assumes "stands_for st sp" "stands_for st sp'"
  shows "sp_revs sp = sp_revs sp'" "sp_now sp = sp_now sp'"
proof -
  show "sp_revs sp = sp_revs sp'" using assms by (simp add: stands_for_def)
  have "km_map (sp_now sp) = km_map (sp_now sp')" "km_index (sp_now sp) = km_index (sp_now sp')"
    using assms by (auto intro!: fmap_ext simp: stands_for_def models_def)
  then show "sp_now sp = sp_now sp'" by simp
qed

lemma sample_abs: "abs_store sample_store =
  \<lparr>sp_revs = \<lparr>rv_current = 0, rv_compact = 0\<rparr>, sp_now = \<lparr>km_map = fmempty, km_index = fmempty\<rparr>, sp_past = \<lambda>_. fmempty\<rparr>"
proof -
  have "kv_at sample_store = (\<lambda>_. fmempty)"
    using sample_store_ok(6) by (simp add: fun_eq_iff kv_at_def idx_iter_def map_filter_def)
  then show ?thesis using sample_store_ok by (simp add: abs_store_def ws_revs_def)
qed

lemma sample_one_ok:
  "store_ok sample_one" "current_rev (s_ws sample_one) = 1" "compact_rev (s_ws sample_one) = 0"
    "km_map (sp_now (abs_store sample_one)) = fmupd [1] (sample_record [1] 5) fmempty"
proof -
  let ?sp = "abs_store sample_store"
  have r: "refines (spec_apply [sample_put [1] 5] ?sp) sample_store (apply_mutations [sample_put [1] 5] sample_store)"
    by (rule apply_refines_spec [OF sample_store_ok(1) abs_store_stands])
      (simp_all add: sample_store_ok sample_fits)
  obtain S where S: "snd (snd (spec_apply [sample_put [1] 5] ?sp)) = spec_advance 1 S ?sp"
    "km_map S = fmupd [1] (sample_record [1] 5) fmempty"
    by (simp add: spec_apply_def sample_abs sample_put_def spec_put_def sample_record_def Let_def)
  have ok: "store_ok sample_one" "stands_for sample_one (spec_advance 1 S ?sp)"
    using r S(1) by (auto simp: refines_def sample_one_def split: prod.splits)
  then show "store_ok sample_one" by simp
  have "sp_revs (spec_advance 1 S ?sp) = ws_revs (s_ws sample_one)" using ok(2) by (simp add: stands_for_def)
  then show "current_rev (s_ws sample_one) = 1" "compact_rev (s_ws sample_one) = 0"
    by (simp_all add: spec_advance_def sample_abs ws_revs_def)
  show "km_map (sp_now (abs_store sample_one)) = fmupd [1] (sample_record [1] 5) fmempty"
    using stands_unique(2) [OF ok(2) abs_store_stands [OF ok(1)]] S(2) by (simp add: spec_advance_def)
qed

section \<open>Requests\<close>

text \<open>C1: An apply gives the answer and the events the specification gives from the state the store
  stands for, and leaves a consistent store that stands for the specification's next state.\<close>

theorem apply_refines:
  assumes "store_ok st" "muts_fit ms" "current_rev (s_ws st) < i64_max"
  shows "refines (spec_apply ms (abs_store st)) st (apply_mutations ms st)"
  by (rule apply_refines_spec [OF assms(1) abs_store_stands [OF assms(1)] assms(2,3)])

theorem apply_refines_witness:
  "refines (spec_apply [sample_put [1] 0] (abs_store sample_store)) sample_store (apply_mutations [sample_put [1] 0] sample_store)"
  by (rule apply_refines) (simp_all add: sample_store_ok sample_fits)

text \<open>C2: A transaction, nested ones and reads of the past included, does what the specification
  does: all of its operations at one revision on the outcome of its compares, or nothing.\<close>

theorem txn_refines:
  assumes "store_ok st" "ops_fit True 0 success" "ops_fit True 0 failure" "current_rev (s_ws st) < i64_max"
  shows "refines (spec_txn cs success failure (abs_store st)) st (txn cs success failure st)"
  by (rule txn_refines_spec [OF assms(1) abs_store_stands [OF assms(1)] assms(4,2,3)])

theorem txn_refines_witness:
  "refines (spec_txn [] [OpMutation (sample_put [1] 0), OpTxn [] [OpMutation (sample_put [2] 0)] []] [] (abs_store sample_store)) sample_store
     (txn [] [OpMutation (sample_put [1] 0), OpTxn [] [OpMutation (sample_put [2] 0)] []] [] sample_store)"
  by (rule txn_refines) (simp_all add: sample_store_ok sample_fits ops_fit_def sample_put_def i64_defs)

text \<open>C3: Requests applied in one shared commit give the outcomes and the events, and leave the
  revision and every read, that the same requests applied one by one do; none of them fails the
  commit.\<close>

theorem apply_many_one_by_one:
  assumes "store_ok st" "list_all item_fits items" "current_rev (s_ws st) + int (length items) \<le> i64_max"
  shows "fst (apply_many items st) = fst (apply_each items st) \<and> (\<exists>outs. fst (apply_many items st) = Inr outs) \<and>
    s_events (snd (apply_many items st)) = s_events (snd (apply_each items st)) \<and>
    ws_revs (s_ws (snd (apply_many items st))) = ws_revs (s_ws (snd (apply_each items st))) \<and>
    same_reads (snd (apply_many items st)) (snd (apply_each items st))"
proof -
  let ?sp = "abs_store st"
  note sp = abs_store_stands [OF assms(1)]
  have m: "refines (spec_items items ?sp) st (apply_many items st)" by (rule apply_many_refines_spec [OF assms(1) sp assms(2,3)])
  have e: "refines (spec_items items ?sp) st (apply_each items st)" by (rule apply_each_refines [OF assms(1) sp assms(2,3)])
  have "items_at st (current_rev (s_ws st)) (start_work st) ?sp []"
    using batch_start [OF assms(1) sp] by (simp add: items_at_def ctx_default_def)
  from items_sim [OF this assms(2)] obtain outs bs sp' where s: "spec_items items ?sp = (Inr outs, bs, sp')" by blast
  show ?thesis
    using m e s stands_same_reads [of "snd (apply_many items st)" "snd (apply_each items st)" sp']
    by (auto simp: refines_def stands_for_def split: prod.splits)
qed

theorem apply_many_one_by_one_witness:
  "fst (apply_many [ItemMutations [sample_put [1] 0], ItemMutations [MutPut [1] [] 0 True False True]] sample_store) =
   fst (apply_each [ItemMutations [sample_put [1] 0], ItemMutations [MutPut [1] [] 0 True False True]] sample_store)"
  by (rule apply_many_one_by_one [THEN conjunct1])
    (simp_all add: sample_store_ok item_mutations_def muts_fit_def sample_put_def i64_defs)

definition read_of :: "bytes \<Rightarrow> int \<Rightarrow> range_op" where
  "read_of k r = \<lparr>ro_key = k, ro_range_end = [], ro_limit = 0, ro_revision = r, ro_keys_only = False, ro_count_only = False\<rparr>"

text \<open>C4: A range, at the current revision or an earlier one not compacted, returns exactly the
  records the store shows at that revision, in key order, with the count of all of them, cut at the
  limit; its header is the store's revision, and it changes neither the store's state nor its events.\<close>

theorem range_exact:
  assumes "store_ok st"
  shows "fst (range_with_revision r st) = spec_range_at r (abs_store st) \<and>
    store_ok (snd (range_with_revision r st)) \<and> stands_for (snd (range_with_revision r st)) (abs_store st) \<and>
    s_events (snd (range_with_revision r st)) = s_events st"
  using range_refines_spec [OF assms abs_store_stands [OF assms]] by simp

theorem range_exact_witness:
  "fst (range_with_revision (read_of [1] 1) sample_one) =
     Inr (\<lparr>rr_kvs = [sample_record [1] 5], rr_more = False, rr_count = 1\<rparr>, 1)"
proof -
  have M: "kv_at sample_one 1 = fmupd [1] (sample_record [1] 5) fmempty"
    using sample_one_ok(4) by (simp add: abs_store_def sample_one_ok)
  have r: "rows_of [1] [] (fmupd [1] (sample_record [1] 5) fmempty) = [([1], sample_record [1] 5)]"
    by (simp add: rows_of_def in_range_def)
  have "spec_range_at (read_of [1] 1) (abs_store sample_one) =
      Inr (\<lparr>rr_kvs = [sample_record [1] 5], rr_more = False, rr_count = 1\<rparr>, 1)"
    by (simp add: spec_range_at_def abs_store_def ws_revs_def check_read_rev_def sample_one_ok read_of_def spec_range_def
        M r limited_def trim_def Let_def)
  then show ?thesis using range_exact [OF sample_one_ok(1), of "read_of [1] 1"] by simp
qed

section \<open>History\<close>

definition past_fixed :: "spec_store \<Rightarrow> spec_store \<Rightarrow> bool" where
  "past_fixed sp sp' \<longleftrightarrow> rv_compact (sp_revs sp') = rv_compact (sp_revs sp) \<and>
     rv_current (sp_revs sp) \<le> rv_current (sp_revs sp') \<and>
     (\<forall>r \<le> rv_current (sp_revs sp). sp_past sp' r = sp_past sp r)"

lemma past_fixed_refl: "past_fixed sp sp"
  by (simp add: past_fixed_def)

lemma past_fixed_trans: "past_fixed a b \<Longrightarrow> past_fixed b c \<Longrightarrow> past_fixed a c"
  by (auto simp: past_fixed_def)

lemma past_fixed_advance: "past_fixed sp (spec_advance (rv_current (sp_revs sp) + 1) S sp)"
  by (simp add: past_fixed_def spec_advance_def)

lemma spec_apply_past: "spec_apply ms sp = (x, bs, sp') \<Longrightarrow> past_fixed sp sp'"
  by (auto simp: spec_apply_def Let_def past_fixed_refl past_fixed_advance split: if_splits sum.splits prod.splits)

lemma spec_txn_past: "spec_txn cs su fa sp = (x, bs, sp') \<Longrightarrow> past_fixed sp sp'"
  by (auto simp: spec_txn_def Let_def past_fixed_refl past_fixed_advance split: if_splits sum.splits prod.splits)

lemma spec_item_past: "spec_item item sp = (x, bs, sp') \<Longrightarrow> past_fixed sp sp'"
  by (cases item) (auto dest: spec_apply_past spec_txn_past split: prod.splits sum.splits mvcc_error.splits)

lemma spec_items_past: "spec_items items sp = (x, bs, sp') \<Longrightarrow> past_fixed sp sp'"
proof (induction items arbitrary: sp x bs sp')
  case (Cons item items)
  obtain y bs1 sp1 where i: "spec_item item sp = (y, bs1, sp1)" by (metis prod_cases3)
  obtain z bs2 sp2 where rest: "spec_items items sp1 = (z, bs2, sp2)" by (metis prod_cases3)
  have "past_fixed sp sp1" by (rule spec_item_past [OF i])
  moreover have "past_fixed sp1 sp2" by (rule Cons.IH [OF rest])
  moreover have "sp' = sp1 \<or> sp' = sp2" using Cons.prems i rest by (auto split: sum.splits)
  ultimately show ?case using past_fixed_trans by blast
qed (simp add: past_fixed_refl)

text \<open>A read without its header revision.\<close>

definition read_only_rows :: "mvcc_error + range_result \<times> int \<Rightarrow> mvcc_error + range_result" where
  "read_only_rows r = bind_res r (\<lambda>(res, _). Inr res)"

section \<open>Restart\<close>

lemma same_tables_reads:
  assumes "store_ok st" "store_ok st'" "current_rev (s_ws st') = current_rev (s_ws st)" "compact_rev (s_ws st') = compact_rev (s_ws st)"
    "ri_gens (s_index st') = ri_gens (s_index st)" "eng_kv (s_engine st') = eng_kv (s_engine st)"
  shows "same_reads st st'"
proof -
  have "kv_at st' r = kv_at st r" for r by (rule fmap_ext) (simp add: kv_at_lookup assms)
  then show ?thesis using assms by (simp add: same_reads_def range_abs ws_revs_def)
qed

lemma store_engine_gens: "store_ok st \<Longrightarrow> engine_gens (s_engine st) = ri_gens (s_index st)"
  by (auto simp: store_ok_def idx_agrees_def engine_gens_def ri_gens_def fun_eq_iff split: option.splits)

lemma reopen_reads:
  assumes "store_ok st" "\<forall>b. fmlookup (t_meta (s_engine st)) META_KEY_CLUSTER_ID = Some b \<longrightarrow> length b = 8"
  shows "\<exists>st'. open_with hash now (s_engine st) cfg = Inr st' \<and> store_ok st' \<and> s_ws st' = s_ws st \<and> same_reads st st' \<and>
    (\<forall>r. kv_at st' r = kv_at st r)"
proof -
  from open_ok [OF store_ok_engine [OF assms(1)] assms(2), of hash now cfg] obtain st' where st':
    "open_with hash now (s_engine st) cfg = Inr st'" "store_ok st'"
    "s_ws st' = \<lparr>current_rev = or_zero (read_i64 (s_engine st) META_KEY_CURRENT_REV),
      compact_rev = or_zero (read_i64 (s_engine st) META_KEY_COMPACT_REV),
      next_lease_id = or_zero (read_i64 (s_engine st) META_KEY_NEXT_LEASE_ID)\<rparr>"
    "eng_kv (s_engine st') = eng_kv (s_engine st)" "ri_gens (s_index st') = engine_gens (s_engine st)" by blast
  have ws: "s_ws st' = s_ws st" using st'(3) assms(1) by (simp add: store_ok_def meta_ok_def)
  have "kv_at st' r = kv_at st r" for r
    by (rule fmap_ext) (simp add: kv_at_lookup st'(4,5) store_engine_gens [OF assms(1)])
  then show ?thesis using ws st' same_tables_reads [OF assms(1) st'(2)] store_engine_gens [OF assms(1)] by auto
qed

text \<open>C5: Opening a store on the tables another one wrote gives a consistent store with the same
  revisions and the same reads, whatever was in the caches.\<close>

theorem restart_same_reads:
  assumes "store_ok st" "\<forall>b. fmlookup (t_meta (s_engine st)) META_KEY_CLUSTER_ID = Some b \<longrightarrow> length b = 8"
  shows "\<exists>st'. open_with hash now (s_engine st) cfg = Inr st' \<and> store_ok st' \<and> s_ws st' = s_ws st \<and> same_reads st st'"
  using reopen_reads [OF assms, of hash now cfg] by blast

theorem restart_same_reads_witness:
  "\<exists>st'. open_with (\<lambda>_. 0) 0 (s_engine sample_store) \<lparr>cf_value_cache_bytes = 0, cf_max_entry_bytes = 0\<rparr> = Inr st' \<and>
     store_ok st' \<and> s_ws st' = s_ws sample_store \<and> same_reads sample_store st'"
  by (rule restart_same_reads) (simp_all add: sample_store_ok sample_no_cluster)

section \<open>Compaction\<close>

text \<open>C6: A compaction to a revision above the last one succeeds, keeps the store consistent, and
  every read at the current revision or at one not below the compacted revision returns what it
  returned before; reads below it are refused.\<close>

theorem compaction_keeps_reads:
  assumes "store_ok st" "0 < rv" "rv \<le> current_rev (s_ws st)" "compact_rev (s_ws st) < rv" "0 \<le> ro_revision r"
  shows "fst (compact rv st) = Inr rv \<and> store_ok (snd (compact rv st)) \<and>
    fst (range_with_revision r (snd (compact rv st))) =
      (if 0 < ro_revision r \<and> ro_revision r < rv then Inl (Compacted (ro_revision r) rv) else fst (range_with_revision r st))"
  using compact_reads [OF assms(1-4), of r] compact_ok [OF assms(1-4)] compact_fields(1) [OF assms(2-4)] assms(5)
  by (simp add: compacted_def)

theorem compaction_keeps_reads_witness:
  "fst (range_with_revision (read_of [1] 1) (snd (compact 1 sample_one))) = fst (range_with_revision (read_of [1] 1) sample_one)"
  using compaction_keeps_reads [OF sample_one_ok(1), of 1 "read_of [1] 1"] by (simp add: sample_one_ok read_of_def)

section \<open>Failures\<close>

definition request_failure :: "mvcc_error \<Rightarrow> bool" where
  "request_failure e \<longleftrightarrow> (case e of Refused KeyNotFound \<Rightarrow> True | FutureRevision _ _ \<Rightarrow> True | Compacted _ _ \<Rightarrow> True | _ \<Rightarrow> False)"

lemma spec_mutation_failure: "spec_mutation main m S = Inl e \<Longrightarrow> e = Refused KeyNotFound"
  by (cases m) (auto simp: spec_put_def Let_def split: if_splits)

lemma spec_mutations_failure: "spec_mutations main ms S = Inl e \<Longrightarrow> e = Refused KeyNotFound"
  by (induction ms arbitrary: S) (auto simp: bind_res_eq_Inl dest: spec_mutation_failure)

lemma spec_read_failure: "spec_read st main past r wrote M = Inl e \<Longrightarrow> request_failure e"
  by (auto simp: spec_read_def bind_res_eq_Inl check_read_rev_def request_failure_def split: if_splits)

lemma spec_ops_failure: "spec_ops before st main past ops wrote S = Inl e \<Longrightarrow> request_failure e"
proof (induction before st main past ops wrote S rule: spec_ops.induct)
  case (2 before st main past r ops wrote S)
  then show ?case by (auto simp: bind_res_eq_Inl dest: spec_read_failure)
next
  case (3 before st main past m ops wrote S)
  then show ?case by (auto simp: bind_res_eq_Inl request_failure_def dest!: spec_mutation_failure)
next
  case (4 before st main past cs su fa ops wrote S)
  then show ?case by (fastforce simp: bind_res_eq_Inl Let_def)
qed simp

lemma spec_apply_failure: "spec_apply ms sp = (Inl e, bs, sp') \<Longrightarrow> request_failure e \<and> bs = [] \<and> sp' = sp"
  by (auto simp: spec_apply_def Let_def request_failure_def dest: spec_mutations_failure split: if_splits sum.splits prod.splits)

lemma spec_txn_failure: "spec_txn cs su fa sp = (Inl e, bs, sp') \<Longrightarrow> request_failure e \<and> bs = [] \<and> sp' = sp"
  by (auto simp: spec_txn_def Let_def dest: spec_ops_failure split: if_splits sum.splits prod.splits)

lemma failed_refines:
  assumes "store_ok st" "refines spec st (Inl e, st')" "\<And>e bs sp'. spec = (Inl e, bs, sp') \<Longrightarrow> request_failure e \<and> bs = [] \<and> sp' = abs_store st"
  shows "request_failure e \<and> store_ok st' \<and> same_reads st st' \<and> s_events st' = s_events st \<and> ws_revs (s_ws st') = ws_revs (s_ws st)"
proof -
  obtain x bs sp' where s: "spec = (x, bs, sp')" by (metis prod_cases3)
  then have r: "x = Inl e" "store_ok st'" "stands_for st' sp'" "s_events st' = s_events st @ bs"
    using assms(2) by (simp_all add: refines_def)
  have f: "request_failure e" "bs = []" "sp' = abs_store st" using assms(3) s r(1) by blast+
  have "same_reads st st'"
    using stands_same_reads [OF assms(1) r(2) abs_store_stands [OF assms(1)]] r(3) f(3) by simp
  moreover have "ws_revs (s_ws st') = ws_revs (s_ws st)" using r(3) f(3) by (simp add: stands_for_def abs_store_def)
  ultimately show ?thesis using r f by simp
qed

text \<open>C7: An apply or a transaction that fails does so because a key it needs does not exist, or a
  revision it reads is in the future or compacted, never for an internal reason (a row of the
  index without its record, say); it sends no event, uses no revision, and no read can tell it ran.\<close>

theorem failed_request_no_effect:
  assumes "store_ok st" "current_rev (s_ws st) < i64_max" "muts_fit ms" "ops_fit True 0 success" "ops_fit True 0 failure"
    "apply_mutations ms st = (Inl e, st') \<or> txn cs success failure st = (Inl e, st')"
  shows "request_failure e \<and> store_ok st' \<and> same_reads st st' \<and> s_events st' = s_events st \<and> ws_revs (s_ws st') = ws_revs (s_ws st)"
  using assms(6)
proof
  assume "apply_mutations ms st = (Inl e, st')"
  then have "refines (spec_apply ms (abs_store st)) st (Inl e, st')"
    using apply_refines_spec [OF assms(1) abs_store_stands [OF assms(1)] assms(3,2)] by simp
  from failed_refines [OF assms(1) this] show ?thesis by (blast dest: spec_apply_failure)
next
  assume "txn cs success failure st = (Inl e, st')"
  then have "refines (spec_txn cs success failure (abs_store st)) st (Inl e, st')"
    using txn_refines_spec [OF assms(1) abs_store_stands [OF assms(1)] assms(2,4,5), of cs] by simp
  from failed_refines [OF assms(1) this] show ?thesis by (blast dest: spec_txn_failure)
qed

lemma sample_refused:
  "\<exists>st'. apply_mutations [MutPut [2] [] 0 True False False] sample_store = (Inl (Refused KeyNotFound), st')"
proof -
  have "refines (spec_apply [MutPut [2] [] 0 True False False] (abs_store sample_store)) sample_store
      (apply_mutations [MutPut [2] [] 0 True False False] sample_store)"
    by (rule apply_refines_spec [OF sample_store_ok(1) abs_store_stands])
      (simp_all add: sample_store_ok muts_fit_def i64_defs)
  then show ?thesis
    by (auto simp: refines_def spec_apply_def sample_abs spec_put_def split: prod.splits)
qed

theorem failed_request_no_effect_witness:
  "\<exists>st'. apply_mutations [MutPut [2] [] 0 True False False] sample_store = (Inl (Refused KeyNotFound), st') \<and> same_reads sample_store st'"
proof -
  obtain st' where st': "apply_mutations [MutPut [2] [] 0 True False False] sample_store = (Inl (Refused KeyNotFound), st')"
    using sample_refused by blast
  have "same_reads sample_store st'"
    by (rule failed_request_no_effect [OF sample_store_ok(1), of "[MutPut [2] [] 0 True False False]" "[]" "[]" "Refused KeyNotFound" _ "[]", THEN conjunct2,
          THEN conjunct2, THEN conjunct1])
      (use st' in \<open>simp_all add: sample_store_ok muts_fit_def ops_fit_def i64_defs\<close>)
  with st' show ?thesis by blast
qed

section \<open>Leases\<close>

text \<open>C8: Revoking a lease deletes the live keys attached to it and no others, in one revision, or
  in none where it has no keys; the lease is gone, and what the revisions before it hold that are
  not compacted is unchanged. The id is neither -1 nor the largest: the scan of their keys is not
  theirs alone.\<close>

theorem lease_revoke_exact:
  assumes "store_ok st" "lease_id_ok lid" "current_rev (s_ws st) < i64_max"
    "int (length (attached lid (kv_at st (current_rev (s_ws st))))) \<le> i64_max"
  shows "\<exists>st'. apply_lease_revoke lid st =
      (Inr \<lparr>lv_revision = current_rev (s_ws st'), lv_deleted_keys = int (length (attached lid (kv_at st (current_rev (s_ws st)))))\<rparr>, st') \<and>
    store_ok st' \<and> \<not> lease_exists lid st' \<and>
    kv_at st' (current_rev (s_ws st')) = fmfilter (\<lambda>k. k \<notin> set (attached lid (kv_at st (current_rev (s_ws st))))) (kv_at st (current_rev (s_ws st))) \<and>
    current_rev (s_ws st') = current_rev (s_ws st) + (if attached lid (kv_at st (current_rev (s_ws st))) = [] then 0 else 1) \<and>
    compact_rev (s_ws st') = compact_rev (s_ws st) \<and>
    (\<forall>r. 0 < r \<and> compact_rev (s_ws st) \<le> r \<and> r \<le> current_rev (s_ws st) \<longrightarrow> kv_at st' r = kv_at st r)"
proof -
  let ?sp = "abs_store st" and ?ks = "attached lid (kv_at st (current_rev (s_ws st)))"
  have M: "km_map (sp_now ?sp) = kv_at st (current_rev (s_ws st))" by (simp add: abs_store_def)
  from revoke_spec [OF assms(1) abs_store_stands [OF assms(1)] assms(2,3)] assms(4) obtain st' where
    r: "apply_lease_revoke lid st = (Inr \<lparr>lv_revision = (if ?ks = [] then current_rev (s_ws st) else current_rev (s_ws st) + 1),
      lv_deleted_keys = int (length ?ks)\<rparr>, st')" and v: "revoked lid ?ks st ?sp st'" by (auto simp: M)
  from v obtain sp' where ok: "store_ok st'" and sp': "stands_for st' sp'" and now: "km_map (sp_now sp') = fmfilter (\<lambda>k. k \<notin> set ?ks) (km_map (sp_now ?sp))"
    and past: "\<forall>r. r \<le> current_rev (s_ws st) \<longrightarrow> sp_past sp' r = kv_at st r"
    unfolding revoked_def by (auto simp: abs_store_def)
  have old: "kv_at st' r = kv_at st r" if "0 < r" "compact_rev (s_ws st) \<le> r" "r \<le> current_rev (s_ws st)" for r
  proof (rule fmap_ext)
    fix k
    have "r \<le> current_rev (s_ws st')" "compact_rev (s_ws st') \<le> r" using that v by (simp_all add: revoked_def)
    then have "fmlookup (sp_past sp' r) k = fmlookup (kv_at st' r) k"
      using sp' that(1) by (simp add: stands_for_def past_ok_def kv_at_lookup)
    then show "fmlookup (kv_at st' r) k = fmlookup (kv_at st r) k" using past that(3) by simp
  qed
  have "kv_at st' (current_rev (s_ws st')) = km_map (sp_now (abs_store st'))" by (simp add: abs_store_def)
  also have "\<dots> = km_map (sp_now sp')" using stands_unique(2) [OF sp' abs_store_stands [OF ok]] by simp
  also note now
  finally have "kv_at st' (current_rev (s_ws st')) = fmfilter (\<lambda>k. k \<notin> set ?ks) (kv_at st (current_rev (s_ws st)))" by (simp only: M)
  then show ?thesis using r v ok old by (auto simp: revoked_def lease_exists_def)
qed

lemma sorted_wrt_singleton: "set xs = {x} \<Longrightarrow> sorted_wrt (<) xs \<Longrightarrow> xs = [x :: bytes]"
proof (cases xs)
  case (Cons y ys)
  assume "set xs = {x}" "sorted_wrt (<) xs"
  then have "y = x" "\<forall>z \<in> set ys. z = x \<and> x < z" using Cons by auto
  then show ?thesis using Cons by (cases ys) auto
qed simp

theorem lease_revoke_exact_witness:
  "\<exists>st'. apply_lease_revoke 5 sample_one = (Inr \<lparr>lv_revision = 2, lv_deleted_keys = 1\<rparr>, st') \<and> kv_at st' 2 = fmempty"
proof -
  have M: "kv_at sample_one 1 = fmupd [1] (sample_record [1] 5) fmempty"
    using sample_one_ok(4) by (simp add: abs_store_def sample_one_ok)
  have "set (attached 5 (kv_at sample_one 1)) = {[1]}" "sorted_wrt (<) (attached 5 (kv_at sample_one 1))"
    by (auto simp: M in_attached attached_sorted sample_record_def split: if_splits)
  then have a: "attached 5 (kv_at sample_one 1) = [[1]]"
    using sorted_wrt_singleton by blast
  have e: "fmfilter (\<lambda>k. k \<notin> set [[1]]) (kv_at sample_one 1) = fmempty" by (rule fmap_ext) (simp add: M)
  have "lease_id_ok 5" "(1::int) < i64_max" by (simp_all add: lease_id_ok_def i64_defs)
  with lease_revoke_exact [OF sample_one_ok(1), of 5, unfolded sample_one_ok a e] obtain st' where
    "apply_lease_revoke 5 sample_one = (Inr \<lparr>lv_revision = current_rev (s_ws st'), lv_deleted_keys = int (length [[1::8 word]])\<rparr>, st')"
    "kv_at st' (current_rev (s_ws st')) = fmempty" "current_rev (s_ws st') = 1 + (if [[1::8 word]] = [] then 0 else 1)" by auto
  then show ?thesis by simp
qed

definition lease_ids_below :: "mvcc_store \<Rightarrow> bool" where
  "lease_ids_below st \<longleftrightarrow> (\<forall>lid. i64_ok lid \<and> lease_exists lid st \<longrightarrow> lid \<le> next_lease_id (s_ws st))"

text \<open>The id a grant takes, and the high water mark after it.\<close>

definition granted_id :: "int \<Rightarrow> mvcc_store \<Rightarrow> int" where
  "granted_id lid st = (if lid = 0 then next_lease_id (s_ws st) + 1 else lid)"

lemma grant_result:
  assumes st: "store_ok st" and ttl: "0 < ttl" and lid: "i64_ok (granted_id lid st)"
  defines "i \<equiv> granted_id lid st"
  shows "\<exists>st'. apply_lease_grant now lid ttl now_unix st = (Inr \<lparr>lg_id = i, lg_ttl_secs = ttl, lg_revision = current_rev (s_ws st)\<rparr>, st') \<and>
    store_ok st' \<and> stands_for st' (abs_store st) \<and> s_events st' = s_events st \<and>
    next_lease_id (s_ws st') = max (next_lease_id (s_ws st)) i \<and>
    t_lease (s_engine st') = fmupd (lease_id_key i) \<lparr>ls_id = i, ls_ttl_secs = ttl, ls_deadline_unix_secs = saturating_add_i64 now_unix ttl\<rparr> (t_lease (s_engine st))"
proof -
  let ?hw = "next_lease_id (s_ws st)" and ?m = "max (next_lease_id (s_ws st)) i"
  let ?rec = "\<lparr>ls_id = i, ls_ttl_secs = ttl, ls_deadline_unix_secs = saturating_add_i64 now_unix ttl\<rparr>"
  let ?b = "(if ?hw < i then [MetaPut META_KEY_NEXT_LEASE_ID (i64_to_be_bytes i)] else []) @ [LeasePut (lease_id_key i) ?rec]"
  have hw: "i64_ok ?hw" "or_zero (read_i64 (s_engine st) META_KEY_NEXT_LEASE_ID) = ?hw" using st by (simp_all add: store_ok_def meta_ok_def)
  have q: "list_all quiet_op ?b" "i64_ok ?m" using hw lid by (auto simp: i_def max_def)
  have nx: "or_zero (read_i64 (engine_commit (s_engine st) ?b) META_KEY_NEXT_LEASE_ID) = ?m"
    using hw lid by (auto simp: engine_commit_def read_i64_def or_zero_def i_def i64_roundtrip max_def)
  note c = quiet_commit [OF st abs_store_stands [OF st] q nx]
  have "apply_lease_grant now lid ttl now_unix st = (Inr \<lparr>lg_id = i, lg_ttl_secs = ttl, lg_revision = current_rev (s_ws st)\<rparr>,
      stamp_lease_applied now i (commit_folded ?b (st\<lparr>s_ws := (s_ws st)\<lparr>next_lease_id := ?m\<rparr>\<rparr>)))"
    using ttl by (auto simp: apply_lease_grant_def i_def granted_id_def Let_def write_i64_def commit_folded_eq stamp_lease_applied_def max_def)
  then show ?thesis using c by (auto simp: stamp_lease_applied_def commit_folded_eq engine_commit_def)
qed

text \<open>C9: A grant that leaves the choice of the id to the store takes one no lease has; the lease
  exists after it with the granted time to live, other leases and all data are as before, and every
  id in use is again at most the high water mark.\<close>

theorem lease_grant_fresh:
  assumes "store_ok st" "lease_ids_below st" "0 < ttl" "next_lease_id (s_ws st) < i64_max"
  shows "\<exists>lid st'. apply_lease_grant now 0 ttl now_unix st = (Inr \<lparr>lg_id = lid, lg_ttl_secs = ttl, lg_revision = current_rev (s_ws st)\<rparr>, st') \<and>
    \<not> lease_exists lid st \<and> lease_exists lid st' \<and> store_ok st' \<and> same_reads st st' \<and> lease_ids_below st' \<and>
    (\<forall>j. i64_ok j \<and> j \<noteq> lid \<longrightarrow> lease_exists j st' = lease_exists j st)"
proof -
  let ?i = "next_lease_id (s_ws st) + 1"
  have hw: "i64_ok (next_lease_id (s_ws st))" using assms(1) by (simp add: store_ok_def meta_ok_def)
  then have ok: "i64_ok ?i" using assms(4) by (simp add: i64_ok_def)
  have g: "granted_id 0 st = ?i" by (simp add: granted_id_def)
  from grant_result [OF assms(1,3), of 0 now now_unix] ok g obtain st' where st':
    "apply_lease_grant now 0 ttl now_unix st = (Inr \<lparr>lg_id = ?i, lg_ttl_secs = ttl, lg_revision = current_rev (s_ws st)\<rparr>, st')"
    "store_ok st'" "stands_for st' (abs_store st)" "next_lease_id (s_ws st') = max (next_lease_id (s_ws st)) ?i"
    "t_lease (s_engine st') = fmupd (lease_id_key ?i) \<lparr>ls_id = ?i, ls_ttl_secs = ttl, ls_deadline_unix_secs = saturating_add_i64 now_unix ttl\<rparr> (t_lease (s_engine st))"
    by auto
  have e: "lease_exists j st' \<longleftrightarrow> j = ?i \<or> lease_exists j st" if "i64_ok j" for j
    using that ok by (simp add: lease_exists_def st'(5) lease_id_key_inject)
  have "\<not> lease_exists ?i st" using assms(2) ok by (auto simp: lease_ids_below_def)
  moreover have "lease_ids_below st'" using assms(2) e by (auto simp: lease_ids_below_def st'(4))
  moreover have "same_reads st st'" by (rule stands_same_reads [OF assms(1) st'(2) abs_store_stands [OF assms(1)] st'(3)])
  ultimately show ?thesis using st'(1,2) e ok by blast
qed

theorem lease_grant_fresh_witness:
  "\<exists>lid st'. apply_lease_grant 0 0 9 100 sample_store = (Inr \<lparr>lg_id = lid, lg_ttl_secs = 9, lg_revision = 0\<rparr>, st') \<and> lease_exists lid st'"
proof -
  have "t_lease (s_engine sample_store) = fmempty"
    by (simp add: sample_store_def open_with_def Let_def engine_empty_def read_i64_def read_u64_def or_zero_def load_index_def
      reload_auth_def engine_commit_def write_i64_def)
  then have "lease_ids_below sample_store" by (simp add: lease_ids_below_def lease_exists_def)
  from lease_grant_fresh [OF sample_store_ok(1) this, of 9 0 100] show ?thesis by (auto simp: sample_store_ok i64_defs)
qed

end
