(* ===== verification/Mvcc_Runs.thy ===== *)
theory Mvcc_Runs
  imports Mvcc_Guarantees
begin

text \<open>
  Whole runs of the MVCC store: any sequence of its operations, restarts included. Every store a
  run reaches is consistent, revisions only grow, and what the store showed at a revision it shows
  until that revision is compacted.
\<close>

section \<open>What an operation keeps\<close>

definition keeps :: "mvcc_store \<Rightarrow> mvcc_store \<Rightarrow> bool" where
  "keeps st st' \<longleftrightarrow> store_ok st' \<and> current_rev (s_ws st) \<le> current_rev (s_ws st') \<and>
     compact_rev (s_ws st) \<le> compact_rev (s_ws st') \<and>
     (\<forall>r. 0 < r \<and> compact_rev (s_ws st') \<le> r \<and> r \<le> current_rev (s_ws st) \<longrightarrow> kv_at st' r = kv_at st r)"

lemma keeps_refl: "store_ok st \<Longrightarrow> keeps st st"
  by (simp add: keeps_def)

lemma keeps_trans: "keeps a b \<Longrightarrow> keeps b c \<Longrightarrow> keeps a c"
  by (auto simp: keeps_def)

lemma keeps_stands:
  assumes st': "store_ok st'" "stands_for st' sp'" and past: "past_fixed (abs_store st) sp'"
  shows "keeps st st'"
proof -
  have rv: "sp_revs sp' = ws_revs (s_ws st')" using st'(2) by (simp add: stands_for_def)
  have c: "compact_rev (s_ws st') = compact_rev (s_ws st)" "current_rev (s_ws st) \<le> current_rev (s_ws st')"
    using past by (simp_all add: past_fixed_def rv abs_store_def ws_revs_def)
  have "kv_at st' r = kv_at st r" if r: "0 < r" "compact_rev (s_ws st') \<le> r" "r \<le> current_rev (s_ws st)" for r
  proof -
    have "fmlookup (sp_past sp' r) k = fmlookup (kv_at st' r) k" for k
      using st'(2) r c(2) by (simp add: stands_for_def past_ok_def kv_at_lookup)
    then have "sp_past sp' r = kv_at st' r" by (rule fmap_ext)
    moreover have "sp_past sp' r = kv_at st r" using past r(3) by (simp add: past_fixed_def abs_store_def ws_revs_def)
    ultimately show ?thesis by simp
  qed
  then show ?thesis using st'(1) c by (simp add: keeps_def)
qed

lemma keeps_refines:
  assumes "refines spec st impl" "\<And>x bs sp'. spec = (x, bs, sp') \<Longrightarrow> past_fixed (abs_store st) sp'"
  shows "keeps st (snd impl)"
proof -
  obtain x bs sp' where s: "spec = (x, bs, sp')" by (metis prod_cases3)
  then show ?thesis using assms keeps_stands [of "snd impl" sp' st] by (auto simp: refines_def split: prod.splits)
qed

text \<open>Commits that touch neither data nor the revisions: auth rows, raft metadata, the cluster id.\<close>

fun side_op :: "store_op \<Rightarrow> bool" where
  "side_op (AuthWrite _) = True"
| "side_op (MetaPut k _) = (raft_key k \<or> k = META_KEY_CLUSTER_ID)"
| "side_op _ = False"

lemma side_ops_keep:
  "list_all side_op b \<Longrightarrow> t_idx (engine_commit e b) = t_idx e \<and> t_kv (engine_commit e b) = t_kv e \<and>
     t_lease_keys (engine_commit e b) = t_lease_keys e \<and>
     (\<forall>k. \<not> raft_key k \<and> k \<noteq> META_KEY_CLUSTER_ID \<longrightarrow> fmlookup (t_meta (engine_commit e b)) k = fmlookup (t_meta e) k)"
proof (induction b arbitrary: e)
  case (Cons op b)
  then show ?case by (cases op) (auto simp: engine_commit_def)
qed (simp add: engine_commit_def)

definition same_data :: "mvcc_store \<Rightarrow> mvcc_store \<Rightarrow> bool" where
  "same_data st st' \<longleftrightarrow> s_ws st' = s_ws st \<and> s_index st' = s_index st \<and> s_values st' = s_values st \<and> s_view st' = s_view st \<and>
     list_all (\<lambda>p. raft_key (fst p)) (s_pending st') \<and> (\<exists>b. list_all side_op b \<and> s_engine st' = engine_commit (s_engine st) b)"

lemma same_data_keeps:
  assumes "store_ok st" "same_data st st'"
  shows "keeps st st'"
proof -
  obtain b where b: "list_all side_op b" "s_engine st' = engine_commit (s_engine st) b" using assms(2) by (auto simp: same_data_def)
  note t = side_ops_keep [OF b(1), of "s_engine st"]
  have keys: "\<not> raft_key META_KEY_CURRENT_REV" "\<not> raft_key META_KEY_COMPACT_REV" "\<not> raft_key META_KEY_NEXT_LEASE_ID"
    "META_KEY_CURRENT_REV \<noteq> META_KEY_CLUSTER_ID" "META_KEY_COMPACT_REV \<noteq> META_KEY_CLUSTER_ID" "META_KEY_NEXT_LEASE_ID \<noteq> META_KEY_CLUSTER_ID"
    using raft_key_meta by (blast, blast, blast, simp_all add: meta_keys)
  have m: "read_i64 (s_engine st') k = read_i64 (s_engine st) k"
    if "k = META_KEY_CURRENT_REV \<or> k = META_KEY_COMPACT_REV \<or> k = META_KEY_NEXT_LEASE_ID" for k
  proof -
    have "\<not> raft_key k \<and> k \<noteq> META_KEY_CLUSTER_ID" using that keys by (elim disjE) simp_all
    then have "fmlookup (t_meta (engine_commit (s_engine st) b)) k = fmlookup (t_meta (s_engine st)) k" using t by blast
    then show ?thesis by (simp add: read_i64_def b(2))
  qed
  have e: "eng_kv (s_engine st') = eng_kv (s_engine st)" "eng_lk (s_engine st') = eng_lk (s_engine st)"
    using t by (simp_all add: b(2) eng_kv_def eng_lk_def fun_eq_iff)
  have f: "s_ws st' = s_ws st" "s_index st' = s_index st" "s_values st' = s_values st" "s_view st' = s_view st"
    "list_all (\<lambda>p. raft_key (fst p)) (s_pending st')" using assms(2) by (simp_all add: same_data_def)
  have "meta_ok st'" using assms(1) m f(5) by (simp add: store_ok_def meta_ok_def f(1))
  moreover have "idx_agrees (s_engine st') (s_index st')" using assms(1) t by (simp add: store_ok_def idx_agrees_def f(2) b(2))
  ultimately have "store_ok st'"
    using assms(1) by (simp add: store_ok_def f(1-4) base_ok_def cache_fits_def e)
  moreover have "kv_at st' r = kv_at st r" for r
    using assms(2) by (intro fmap_ext) (simp add: kv_at_lookup e same_data_def)
  ultimately show ?thesis using assms(2) by (simp add: keeps_def same_data_def)
qed

section \<open>The operations\<close>

lemma stage_raft_meta_data: "store_ok st \<Longrightarrow> same_data st (stage_raft_meta applied membership st)"
  by (cases membership)
    (auto simp: same_data_def stage_raft_meta_def Let_def store_ok_def meta_ok_def list_all_iff raft_key_def engine_commit_def
      intro!: exI [of _ "[]"])

lemma stage_batch_progress_data: "store_ok st \<Longrightarrow> same_data st (stage_batch_progress progress st)"
  by (auto simp: same_data_def stage_batch_progress_def store_ok_def meta_ok_def list_all_iff raft_key_def engine_commit_def
      intro!: exI [of _ "[]"])

lemma stage_batched_marker_data: "store_ok st \<Longrightarrow> same_data st (stage_batched_marker st)"
  by (auto simp: same_data_def stage_batched_marker_def store_ok_def meta_ok_def list_all_iff raft_key_def engine_commit_def
      intro!: exI [of _ "[]"])

lemma pending_side: "store_ok st \<Longrightarrow> list_all side_op (map (\<lambda>(k, v). MetaPut k v) (s_pending st))"
  by (auto simp: store_ok_def meta_ok_def list_all_iff)

lemma fold_raft_meta_eq:
  "fold_raft_meta b st = (s_pending st \<noteq> [], b @ map (\<lambda>(k, v). MetaPut k v) (s_pending st), st\<lparr>s_pending := []\<rparr>)"
  by (simp add: fold_raft_meta_def)

lemma flush_raft_meta_data: "store_ok st \<Longrightarrow> same_data st (flush_raft_meta st)"
  using pending_side [of st]
  by (cases "s_pending st = []")
    (auto simp: same_data_def flush_raft_meta_def fold_raft_meta_eq intro: exI [of _ "[]"] simp: engine_commit_def)

lemma persist_membership_data: "store_ok st \<Longrightarrow> same_data st (persist_membership m st)"
  by (auto simp: same_data_def persist_membership_def store_ok_def meta_ok_def raft_key_def
      intro!: exI [of _ "[MetaPut META_KEY_RAFT_MEMBERSHIP m]"])

lemma apply_cluster_id_data: "store_ok st \<Longrightarrow> same_data st (snd (apply_cluster_id cid st))"
proof -
  let ?b = "(if cluster_id st = None then [MetaPut META_KEY_CLUSTER_ID (be_bytes 8 cid)] else []) @ map (\<lambda>(k, v). MetaPut k v) (s_pending st)"
  assume "store_ok st"
  from pending_side [OF this] have "list_all side_op ?b" by simp
  moreover have "s_engine (snd (apply_cluster_id cid st)) = engine_commit (s_engine st) ?b"
    by (auto simp: apply_cluster_id_def fold_raft_meta_eq Let_def engine_commit_def split: option.split)
  ultimately show ?thesis
    by (auto simp: same_data_def apply_cluster_id_def fold_raft_meta_eq Let_def split: option.split intro!: exI [of _ ?b])
qed

lemma apply_auth_data: "store_ok st \<Longrightarrow> same_data st (snd (apply_auth now op st))"
proof -
  assume st: "store_ok st"
  show ?thesis
  proof (cases "plan (t_auth (s_engine st)) op")
    case (Inl e)
    then show ?thesis using st
      by (auto simp: apply_auth_def same_data_def store_ok_def meta_ok_def engine_commit_def intro!: exI [of _ "[]"])
  next
    case (Inr x)
    obtain ws fx where x: "x = (ws, fx)" by fastforce
    let ?b = "map AuthWrite ws @ map (\<lambda>(k, v). MetaPut k v) (s_pending st)"
    have "list_all side_op ?b" using pending_side [OF st] by (auto simp: list_all_iff)
    moreover have "s_engine (snd (apply_auth now op st)) = engine_commit (s_engine st) ?b"
      using Inr x by (auto simp: apply_auth_def fold_raft_meta_eq Let_def engine_commit_def)
    ultimately show ?thesis
      using Inr x by (auto simp: same_data_def apply_auth_def fold_raft_meta_eq Let_def intro!: exI [of _ ?b])
  qed
qed

lemma quiet_keeps:
  assumes "store_ok st" "list_all quiet_op b" "i64_ok n" "or_zero (read_i64 (engine_commit (s_engine st) b) META_KEY_NEXT_LEASE_ID) = n"
  shows "keeps st (commit_folded b (st\<lparr>s_ws := (s_ws st)\<lparr>next_lease_id := n\<rparr>\<rparr>))"
  using quiet_commit [OF assms(1) abs_store_stands [OF assms(1)] assms(2-4)] keeps_stands past_fixed_refl by blast

lemma keeps_lease_applied: "keeps st (st'\<lparr>s_lease_applied := x\<rparr>) = keeps st st'"
  by (simp add: keeps_def kv_at_def)

lemma keepalive_keeps:
  assumes "store_ok st"
  shows "keeps st (snd (apply_lease_keepalive now lid now_unix st))"
proof (cases "fmlookup (t_lease (s_engine st)) (lease_id_key lid)")
  case None
  then show ?thesis using keeps_refl [OF assms] by (simp add: apply_lease_keepalive_def)
next
  case (Some rec)
  let ?b = "[LeasePut (lease_id_key lid) (rec\<lparr>ls_deadline_unix_secs := saturating_add_i64 now_unix (ls_ttl_secs rec)\<rparr>)]"
  have "or_zero (read_i64 (engine_commit (s_engine st) ?b) META_KEY_NEXT_LEASE_ID) = next_lease_id (s_ws st)" "i64_ok (next_lease_id (s_ws st))"
    using assms by (simp_all add: engine_commit_def read_i64_def store_ok_def meta_ok_def)
  from quiet_keeps [OF assms _ this(2,1)] show ?thesis
    using Some by (simp add: apply_lease_keepalive_def stamp_lease_applied_def keeps_lease_applied Let_def)
qed

lemma grant_keeps:
  assumes "store_ok st" "i64_ok (granted_id lid st)"
  shows "keeps st (snd (apply_lease_grant now lid ttl now_unix st))"
proof (cases "0 < ttl")
  case True
  from grant_result [OF assms(1) True assms(2), of now now_unix] show ?thesis
    using keeps_stands [OF _ _ past_fixed_refl] by auto
next
  case False
  then show ?thesis using keeps_refl [OF assms(1)] by (simp add: apply_lease_grant_def)
qed

lemma revoke_keeps:
  assumes "store_ok st" "lease_id_ok lid" "current_rev (s_ws st) < i64_max"
    "int (length (attached lid (kv_at st (current_rev (s_ws st))))) \<le> i64_max"
  shows "keeps st (snd (apply_lease_revoke lid st))"
proof -
  let ?ks = "attached lid (kv_at st (current_rev (s_ws st)))"
  have M: "km_map (sp_now (abs_store st)) = kv_at st (current_rev (s_ws st))" by (simp add: abs_store_def)
  from revoke_spec [OF assms(1) abs_store_stands [OF assms(1)] assms(2,3)] assms(4) obtain st' where
    r: "snd (apply_lease_revoke lid st) = st'" "revoked lid ?ks st (abs_store st) st'" by (auto simp: M)
  then obtain sp' where sp': "store_ok st'" "stands_for st' sp'"
    "\<forall>r \<le> current_rev (s_ws st). sp_past sp' r = sp_past (abs_store st) r" "current_rev (s_ws st) \<le> current_rev (s_ws st')"
    "compact_rev (s_ws st') = compact_rev (s_ws st)"
    by (auto simp: revoked_def)
  then have "past_fixed (abs_store st) sp'" by (simp add: past_fixed_def stands_for_def abs_store_def ws_revs_def)
  with sp' r(1) keeps_stands show ?thesis by blast
qed

lemma compact_keeps:
  assumes "store_ok st"
  shows "keeps st (snd (compact rv st))"
proof (cases "0 < rv \<and> rv \<le> current_rev (s_ws st) \<and> compact_rev (s_ws st) < rv")
  case True
  then have rv: "0 < rv" "rv \<le> current_rev (s_ws st)" "compact_rev (s_ws st) < rv" by auto
  show ?thesis using compact_ok [OF assms rv] compact_stands(2) [OF assms rv] compact_fields(4) [OF rv] rv(3)
    by (simp add: keeps_def compacted_def)
next
  case False
  then show ?thesis using keeps_refl [OF assms] by (auto simp: compact_def)
qed

lemma reopen_keeps:
  assumes "store_ok st" "\<forall>b. fmlookup (t_meta (s_engine st)) META_KEY_CLUSTER_ID = Some b \<longrightarrow> length b = 8"
  shows "keeps st (projr (open_with hash now (s_engine st) cfg))"
  using reopen_reads [OF assms, of hash now cfg] by (auto simp: keeps_def)

section \<open>Runs\<close>

datatype store_call =
    CallApply "mutation list"
  | CallTxn "compare list" "txn_op list" "txn_op list"
  | CallMany "apply_item list"
  | CallRange range_op
  | CallCompact int
  | CallGrant nat int int int
  | CallKeepalive nat int int
  | CallRevoke int
  | CallAuth nat auth_op
  | CallClusterId nat
  | CallStageMeta bytes "bytes option"
  | CallStageBatch bytes
  | CallStageMarker
  | CallFlush
  | CallMembership bytes
  | CallReopen nat cache_config

text \<open>What is asked of a call in the state it meets: counts and lease ids within their integer
  types, no revision beyond the last one of i64, and the two odd lease ids not revoked.\<close>

fun call_fits :: "store_call \<Rightarrow> mvcc_store \<Rightarrow> bool" where
  "call_fits (CallApply ms) st = (muts_fit ms \<and> current_rev (s_ws st) < i64_max)"
| "call_fits (CallTxn cs su fa) st = (ops_fit True 0 su \<and> ops_fit True 0 fa \<and> current_rev (s_ws st) < i64_max)"
| "call_fits (CallMany items) st = (list_all item_fits items \<and> current_rev (s_ws st) + int (length items) \<le> i64_max)"
| "call_fits (CallGrant now lid ttl now_unix) st = i64_ok (granted_id lid st)"
| "call_fits (CallRevoke lid) st = (lease_id_ok lid \<and> current_rev (s_ws st) < i64_max \<and>
     int (length (attached lid (kv_at st (current_rev (s_ws st))))) \<le> i64_max)"
| "call_fits (CallReopen now cfg) st = (\<forall>b. fmlookup (t_meta (s_engine st)) META_KEY_CLUSTER_ID = Some b \<longrightarrow> length b = 8)"
| "call_fits _ st = True"

fun call_step :: "(bytes \<Rightarrow> nat) \<Rightarrow> store_call \<Rightarrow> mvcc_store \<Rightarrow> mvcc_store" where
  "call_step hash (CallApply ms) st = snd (apply_mutations ms st)"
| "call_step hash (CallTxn cs su fa) st = snd (txn cs su fa st)"
| "call_step hash (CallMany items) st = snd (apply_many items st)"
| "call_step hash (CallRange r) st = snd (range_with_revision r st)"
| "call_step hash (CallCompact rv) st = snd (compact rv st)"
| "call_step hash (CallGrant now lid ttl now_unix) st = snd (apply_lease_grant now lid ttl now_unix st)"
| "call_step hash (CallKeepalive now lid now_unix) st = snd (apply_lease_keepalive now lid now_unix st)"
| "call_step hash (CallRevoke lid) st = snd (apply_lease_revoke lid st)"
| "call_step hash (CallAuth now op) st = snd (apply_auth now op st)"
| "call_step hash (CallClusterId cid) st = snd (apply_cluster_id cid st)"
| "call_step hash (CallStageMeta applied m) st = stage_raft_meta applied m st"
| "call_step hash (CallStageBatch p) st = stage_batch_progress p st"
| "call_step hash CallStageMarker st = stage_batched_marker st"
| "call_step hash CallFlush st = flush_raft_meta st"
| "call_step hash (CallMembership m) st = persist_membership m st"
| "call_step hash (CallReopen now cfg) st = projr (open_with hash now (s_engine st) cfg)"

lemma range_keeps: "store_ok st \<Longrightarrow> keeps st (snd (range_with_revision r st))"
  using range_refines_spec(2) [OF _ abs_store_stands, of st r] keeps_stands past_fixed_refl by blast

lemmas data_calls = stage_raft_meta_data stage_batch_progress_data stage_batched_marker_data flush_raft_meta_data
  persist_membership_data apply_cluster_id_data apply_auth_data

lemma call_keeps:
  assumes st: "store_ok st" and fit: "call_fits c st"
  shows "keeps st (call_step hash c st)"
proof (cases c)
  case (CallApply ms)
  then show ?thesis
    using keeps_refines [OF apply_refines_spec [OF st abs_store_stands [OF st], of ms]] spec_apply_past fit by auto
next
  case (CallTxn cs su fa)
  then show ?thesis
    using keeps_refines [OF txn_refines_spec [OF st abs_store_stands [OF st], of su fa cs]] spec_txn_past fit by auto
next
  case (CallMany items)
  then show ?thesis
    using keeps_refines [OF apply_many_refines_spec [OF st abs_store_stands [OF st], of items]] spec_items_past fit by auto
qed (use st fit in \<open>auto intro: range_keeps compact_keeps grant_keeps keepalive_keeps revoke_keeps reopen_keeps
  same_data_keeps data_calls\<close>)

inductive store_run :: "(bytes \<Rightarrow> nat) \<Rightarrow> mvcc_store \<Rightarrow> store_call list \<Rightarrow> mvcc_store \<Rightarrow> bool" for hash where
  run_nil: "store_run hash st [] st"
| run_call: "call_fits c st \<Longrightarrow> store_run hash (call_step hash c st) cs st' \<Longrightarrow> store_run hash st (c # cs) st'"

inductive_cases run_nilE: "store_run hash st [] st'"
inductive_cases run_consE: "store_run hash st (c # cs) st'"

lemma run_keeps: "store_run hash st cs st' \<Longrightarrow> store_ok st \<Longrightarrow> keeps st st'"
proof (induction rule: store_run.induct)
  case (run_call c st cs st')
  then show ?case using call_keeps keeps_trans by (meson keeps_def)
qed (rule keeps_refl)

text \<open>C10: Whatever operations a store goes through, in any order, with restarts and cache
  evictions among them, it stays consistent, its revisions never go back, and a read of a past
  revision returns what it returned before as long as that revision is not compacted.\<close>

theorem store_runs:
  assumes "store_run hash st calls st'" "store_ok st"
  shows "store_ok st' \<and> current_rev (s_ws st) \<le> current_rev (s_ws st') \<and> compact_rev (s_ws st) \<le> compact_rev (s_ws st') \<and>
    (0 < ro_revision r \<and> compact_rev (s_ws st') \<le> ro_revision r \<and> ro_revision r \<le> current_rev (s_ws st) \<longrightarrow>
       read_only_rows (fst (range_with_revision r st')) = read_only_rows (fst (range_with_revision r st)))"
proof -
  from run_keeps [OF assms] have k: "keeps st st'" .
  have "read_only_rows (fst (range_with_revision r st')) = read_only_rows (fst (range_with_revision r st))"
    if r: "0 < ro_revision r" "compact_rev (s_ws st') \<le> ro_revision r" "ro_revision r \<le> current_rev (s_ws st)"
    using r k assms(2) by (simp add: keeps_def range_abs check_read_rev_def ws_revs_def read_only_rows_def)
  then show ?thesis using k by (simp add: keeps_def)
qed

theorem store_runs_witness:
  "store_ok (snd (compact 1 (snd (apply_mutations [sample_put [1] 0] sample_store))))"
proof -
  have "store_run (\<lambda>_. 0) sample_store [CallApply [sample_put [1] 0], CallCompact 1]
      (snd (compact 1 (snd (apply_mutations [sample_put [1] 0] sample_store))))"
    by (auto intro!: store_run.intros simp: sample_fits sample_store_ok)
  from store_runs [OF this sample_store_ok(1)] show ?thesis by blast
qed

end
