(* ===== verification/Mvcc_Edges.thy ===== *)
theory Mvcc_Edges
  imports Mvcc_Guarantees
begin

text \<open>
  Corners where the MVCC store does something other than its comments or its callers expect: the
  previous value a replay of history reports, leases with the ids -1 and the largest one, and the
  revision a request that changes nothing answers with.
\<close>

section \<open>Replayed history\<close>

lemma candidate_skip:
  "\<forall>g \<in> set gs'. \<forall>r \<in> set (g_revs g). \<not> r < before \<Longrightarrow> candidate_rev before (gs' @ gs) = candidate_rev before gs"
proof (induction gs')
  case (Cons g gs')
  then have "find (\<lambda>r. r < before) (rev (g_revs g)) = None" by (auto simp: find_None_iff)
  then show ?case using Cons by simp
qed simp

lemma gen_ok_revs: "gen_ok g \<Longrightarrow> sorted_wrt (<) (g_revs g)" "gen_ok g \<Longrightarrow> r \<in> set (g_revs g) \<Longrightarrow> g_created g \<le> r"
  "gen_ok g \<Longrightarrow> g_tombstone g = Some t \<Longrightarrow> r \<in> set (g_revs g) \<Longrightarrow> r < t"
  by (auto simp: gen_ok_def gen_events_def comp_def sorted_wrt_append split: option.splits)

text \<open>Two generations that follow each other: between the tombstone of the first and the first put of
  the second there is nothing, and everything later lies above that put.\<close>

lemma recreated_gens:
  assumes ok: "gens_ok (gs1 @ g # h # gs2)" and h: "g_revs h = rv # rs" and t: "g_tombstone g = Some t"
  shows "t < rv" "\<forall>x \<in> set (h # gs2). \<forall>e \<in> set (gen_events x). rv \<le> fst e"
proof -
  have gen: "gen_ok h" "t < g_created h" using ok t by (auto simp: gens_ok_def sorted_wrt_append)
  show "t < rv" using gen_ok_revs(2) [OF gen(1), of rv] gen(2) h by auto
  have first: "rv \<le> fst e" if "e \<in> set (gen_events h)" for e
    using gen_ok_revs(1) [OF gen(1)] gen_ok_revs(3) [OF gen(1), of "fst e" rv] that h
    by (auto simp: gen_events_def split: option.splits)
  have "rv \<le> fst e" if x: "x \<in> set gs2" and e: "e \<in> set (gen_events x)" for x e
  proof -
    obtain th where th: "g_tombstone h = Some th" "th < g_created x" using ok x by (auto simp: gens_ok_def sorted_wrt_append)
    have "rv < th" using gen_ok_revs(3) [OF gen(1) th(1)] h by simp
    moreover have "g_created x \<le> fst e" using ok x e by (auto simp: gens_ok_def gen_ok_def)
    ultimately show ?thesis using th(2) by order
  qed
  with first show "\<forall>x \<in> set (h # gs2). \<forall>e \<in> set (gen_events x). rv \<le> fst e" by auto
qed

lemma recreated_unread:
  assumes ok: "gens_ok (gs1 @ g # h # gs2)" and h: "g_revs h = rv # rs" and t: "g_tombstone g = Some t"
    and r: "t \<le> r" "r < rv"
  shows "revision_at (gs1 @ g # h # gs2) r = None"
proof -
  let ?later = "hist (h # gs2)"
  have "\<forall>e \<in> set ?later. \<not> fst e \<le> r" using recreated_gens(2) [OF ok h t] r(2) by (force simp: hist_def)
  then have "find (\<lambda>e. fst e \<le> r) (rev ?later) = None" by (subst find_None_iff) auto
  moreover have "hist (gs1 @ g # h # gs2) = (hist gs1 @ map (\<lambda>r. (r, False)) (g_revs g)) @ (t, True) # ?later"
    using t by (simp add: hist_def gen_events_def)
  ultimately have "last_event (hist (gs1 @ g # h # gs2)) r = Some (t, True)"
    using r(1) by (simp add: last_event_def find_append)
  then show ?thesis by (simp add: gens_ok_read [OF ok] read_hist_def)
qed

lemma recreated_candidate:
  assumes ok: "gens_ok (gs1 @ g # h # gs2)" and h: "g_revs h = rv # rs" and t: "g_tombstone g = Some t" and g: "g_revs g \<noteq> []"
  shows "candidate_rev rv (rev (gs1 @ g # h # gs2)) = Some (last (g_revs g))"
proof -
  have "\<forall>x \<in> set (rev gs2 @ [h]). \<forall>r \<in> set (g_revs x). \<not> r < rv"
    using recreated_gens(2) [OF ok h t] by (force simp: gen_events_def)
  from candidate_skip [OF this, of "g # rev gs1"]
  have "candidate_rev rv (rev (gs1 @ g # h # gs2)) = candidate_rev rv (g # rev gs1)" by simp
  moreover have "last (g_revs g) < rv"
    using gen_ok_revs(3) [of g t "last (g_revs g)"] ok t g recreated_gens(1) [OF ok h t] by (auto simp: gens_ok_def)
  moreover obtain xs where "rev (g_revs g) = last (g_revs g) # xs" using g by (cases "g_revs g" rule: rev_cases) auto
  ultimately show ?thesis by simp
qed

lemma backfill_event:
  "backfill snap pairs = Inr evs \<Longrightarrow> (rv, k) \<in> set pairs \<Longrightarrow>
   \<exists>e \<in> set evs. fmlookup (t_kv snap) (k, rv) = Some (ev_kv e) \<and> ev_prev_kv e = previous_live_record snap k rv"
proof (induction pairs arbitrary: evs)
  case (Cons p pairs)
  then show ?case by (cases p) (fastforce simp: bind_res_eq_Inr split: option.splits)
qed simp

text \<open>C28: A watcher that replays history is told a previous value a key did not have. Let a key have
  been deleted and created again by the put at \<open>rv\<close>, the deletion not compacted away. From the
  deletion until that put no read finds the key, and the event the put sent carried no previous
  record; but whenever a replay covers the put, its event carries the last record from before the
  deletion as the previous one: the search for it does not stop at the put's generation.\<close>

theorem replay_crosses_delete:
  assumes "fmlookup (t_idx (s_engine st)) k = Some idx" "gens_ok (i_generations idx)"
    and "i_generations idx = gs1 @ g # h # gs2" "g_revs g \<noteq> []" "g_tombstone g = Some t" "g_revs h = rv # rs"
    and "fmlookup (t_kv (s_engine st)) (k, last (g_revs g)) = Some old" "\<not> is_tombstone old"
    and "in_range k key range_end" "start_rev < rmain rv" "rmain rv \<le> min (rv_current (v_revs (s_view st))) end_rev"
    and "range_events_until key range_end start_rev end_rev st = Inr evs"
  shows "(\<forall>r. t \<le> r \<and> r < rv \<longrightarrow> revision_at (i_generations idx) r = None) \<and>
    (\<exists>e \<in> set evs. fmlookup (t_kv (s_engine st)) (k, rv) = Some (ev_kv e) \<and> ev_prev_kv e = Some old)"
proof -
  let ?cur = "min (rv_current (v_revs (s_view st))) end_rev"
  obtain lo hi where b: "range_bounds key range_end = (lo, hi)" by fastforce
  define pairs where "pairs = concat (map (window_pairs start_rev ?cur) (rows_in (t_idx (s_engine st)) lo hi))"
  have "backfill (s_engine st) (sort pairs) = Inr evs"
    using assms(10-12) by (auto simp: range_events_until_def b pairs_def Let_def split: if_splits)
  moreover have "in_bounds k lo hi" using assms(9) by (simp add: in_range_range_bounds b)
  then have row: "(k, idx) \<in> set (rows_in (t_idx (s_engine st)) lo hi)" using assms(1) by simp
  have "(rv, k) \<in> set (window_pairs start_rev ?cur (k, idx))"
    using assms(3,6,10,11) by (auto simp: window_pairs_def Let_def)
  with row have "(rv, k) \<in> set (sort pairs)" unfolding pairs_def by auto
  ultimately obtain e where "e \<in> set evs" "fmlookup (t_kv (s_engine st)) (k, rv) = Some (ev_kv e)"
    "ev_prev_kv e = previous_live_record (s_engine st) k rv" using backfill_event by blast
  moreover have "previous_live_record (s_engine st) k rv = Some old"
    using recreated_candidate [OF assms(2) [unfolded assms(3)] assms(6,5,4)] assms(1,3,7,8)
    by (simp add: previous_live_record_def live_record_def)
  ultimately show ?thesis
    using recreated_unread [OF assms(2) [unfolded assms(3)] assms(6,5)] assms(3) by auto
qed

text \<open>A key put at revision 1, deleted at 2 and created again at 3, replayed from 2.\<close>

definition recreated :: mvcc_store where
  "recreated = sample_store\<lparr>s_engine := engine_empty\<lparr>
       t_idx := fmupd [1] \<lparr>i_key = [1], i_generations =
         [\<lparr>g_created = Revision 1 0, g_revs = [Revision 1 0], g_tombstone = Some (Revision 2 0)\<rparr>,
          \<lparr>g_created = Revision 3 0, g_revs = [Revision 3 0], g_tombstone = None\<rparr>]\<rparr> fmempty,
       t_kv := fmupd ([1], Revision 1 0) (sample_record [1] 0)
         (fmupd ([1], Revision 3 0) (sample_record [1] 0\<lparr>r_value := [8]\<rparr>) fmempty)\<rparr>,
     s_view := (s_view sample_store)\<lparr>v_revs := \<lparr>rv_current = 3, rv_compact = 0\<rparr>\<rparr>\<rparr>"

theorem replay_crosses_delete_witness:
  "\<exists>evs e. range_events [1] [] 2 recreated = Inr evs \<and> e \<in> set evs \<and>
     r_value (ev_kv e) = [8] \<and> ev_prev_kv e = Some (sample_record [1] 0)"
proof -
  let ?g = "\<lparr>g_created = Revision 1 0, g_revs = [Revision 1 0], g_tombstone = Some (Revision 2 0)\<rparr>"
  let ?h = "\<lparr>g_created = Revision 3 0, g_revs = [Revision 3 0], g_tombstone = None\<rparr>"
  let ?idx = "\<lparr>i_key = [1], i_generations = [?g, ?h]\<rparr>"
  have idx: "fmlookup (t_idx (s_engine recreated)) [1] = Some ?idx" "gens_ok (i_generations ?idx)"
    "i_generations ?idx = [] @ ?g # ?h # []"
    by (simp_all add: recreated_def gens_ok_def gen_ok_def gen_events_def)
  obtain evs where evs: "range_events_until [1] [] 2 i64_max recreated = Inr evs"
    by (simp add: recreated_def range_events_until_def range_bounds_def rows_in_def in_bounds_def window_pairs_def
        i64_defs Let_def)
  have "\<exists>e \<in> set evs. fmlookup (t_kv (s_engine recreated)) ([1], Revision 3 0) = Some (ev_kv e) \<and> ev_prev_kv e = Some (sample_record [1] 0)"
    by (rule replay_crosses_delete [OF idx _ _ _ _ _ _ _ _ evs, THEN conjunct2])
      (simp_all add: recreated_def sample_record_def is_tombstone_def in_range_def i64_defs)
  then obtain e where e: "e \<in> set evs" "fmlookup (t_kv (s_engine recreated)) ([1], Revision 3 0) = Some (ev_kv e)"
    "ev_prev_kv e = Some (sample_record [1] 0)" by blast
  have "fmlookup (t_kv (s_engine recreated)) ([1], Revision 3 0) = Some (sample_record [1] 0\<lparr>r_value := [8]\<rparr>)"
    by (simp add: recreated_def)
  with e(2) have "ev_kv e = sample_record [1] 0\<lparr>r_value := [8]\<rparr>" by simp
  then have "r_value (ev_kv e) = [8]" by simp
  with e evs show ?thesis by (auto simp: range_events_def)
qed

section \<open>Lease ids\<close>

lemma i64_bytes_unsigned_less:
  "i64_to_be_bytes x < i64_to_be_bytes y \<longleftrightarrow> nat (x mod 2 ^ 64) < nat (y mod 2 ^ 64)"
proof -
  have "nat (z mod 2 ^ 64) < 256 ^ 8" for z :: int
    using pos_mod_bound [of "2 ^ 64" z] by (simp add: nat_less_iff)
  then show ?thesis by (simp add: i64_to_be_bytes_def be_bytes_less del: be_bytes.simps)
qed

lemma lease_minus_one_scan: "lease_entries e (-1) = []"
proof -
  have b: "lease_keys_bounds (-1) = (Included (i64_to_be_bytes (-1)), Excluded (i64_to_be_bytes 0))"
    using i64_roundtrip [of "-1"] by (simp add: lease_keys_bounds_def lease_id_key_def checked_add_i64_def i64_defs Let_def)
  have "i64_to_be_bytes 0 < i64_to_be_bytes (-1)" by (simp add: i64_bytes_unsigned_less)
  then have "\<not> (i64_to_be_bytes (-1) \<le> x \<and> x < i64_to_be_bytes 0)" for x
    using order.strict_trans1 [of "i64_to_be_bytes (-1)" x "i64_to_be_bytes 0"] order.asym by blast
  then show ?thesis by (auto simp: lease_entries_def rows_in_def in_bounds_def filter_empty_conv b)
qed

lemma lease_max_scan:
  assumes "i64_ok lid" "lid < 0" "fmlookup (t_lease_keys e) (lease_key_index lid k) = Some ()"
  shows "lease_key_index lid k \<in> set (lease_entries e i64_max)"
proof -
  have b: "lease_keys_bounds i64_max = (Included (i64_to_be_bytes i64_max), Unbounded)"
    using i64_roundtrip [of i64_max] by (simp add: lease_keys_bounds_def lease_id_key_def checked_add_i64_def i64_defs Let_def)
  have "nat (i64_max mod 2 ^ 64) < nat (lid mod 2 ^ 64)"
  proof -
    have "lid mod 2 ^ 64 = lid + 2 ^ 64" using assms(1,2) mod_pos_pos_trivial [of "lid + 2 ^ 64" "2 ^ 64"] by (simp add: i64_defs)
    then show ?thesis using assms(1,2) by (simp add: i64_defs)
  qed
  then have "i64_to_be_bytes i64_max < i64_to_be_bytes lid" by (simp add: i64_bytes_unsigned_less)
  then have "i64_to_be_bytes i64_max @ [] < lease_key_index lid k"
    unfolding lease_key_index_def lease_id_key_def by (subst list_less_append_same_length) simp_all
  then have "in_bounds (lease_key_index lid k) (Included (i64_to_be_bytes i64_max)) Unbounded" by (simp add: in_bounds_def)
  then have "(lease_key_index lid k, ()) \<in> set (rows_in (t_lease_keys e) (Included (i64_to_be_bytes i64_max)) Unbounded)"
    using assms(3) by simp
  then have "lease_key_index lid k \<in> fst ` set (rows_in (t_lease_keys e) (Included (i64_to_be_bytes i64_max)) Unbounded)"
    by (rule image_eqI [rotated]) simp
  then show ?thesis by (simp add: lease_entries_def b)
qed

text \<open>C29: The scan for the keys of lease -1 is empty: the successor of its id, as a signed number,
  is 0, whose key sorts first. The scan for the keys of the largest lease id has no upper end, so it
  also finds the keys of every lease with a negative id.\<close>

theorem lease_scan_edges:
  assumes "i64_ok lid" "lid < 0" "fmlookup (t_lease_keys e) (lease_key_index lid k) = Some ()"
  shows "lease_entries e (-1) = [] \<and> lease_key_index lid k \<in> set (lease_entries e i64_max)"
  using lease_minus_one_scan lease_max_scan [OF assms] by simp

theorem lease_scan_edges_witness:
  "lease_key_index (-2) [1] \<in> set (lease_entries (engine_empty\<lparr>t_lease_keys := fmupd (lease_key_index (-2) [1]) () fmempty\<rparr>) i64_max)"
  by (rule lease_scan_edges [THEN conjunct2]) (simp_all add: i64_defs)

section \<open>The revision of a request that changes nothing\<close>

text \<open>C30: Deleting a key that does not exist answers with the next revision, which no write has used:
  the store stays at the current one, and the next request that writes gets the same number.\<close>

theorem noop_delete_revision:
  assumes "store_ok st" "current_rev (s_ws st) < i64_max" "fmlookup (kv_at st (current_rev (s_ws st))) k = None"
  shows "fst (apply_mutations [MutDeleteRange k [] False] st) = Inr (current_rev (s_ws st) + 1, [\<lparr>mr_n = 0, mr_prev_kvs = []\<rparr>]) \<and>
    current_rev (s_ws (snd (apply_mutations [MutDeleteRange k [] False] st))) = current_rev (s_ws st)"
proof -
  have fit: "muts_fit [MutDeleteRange k [] False]" by (simp add: muts_fit_def i64_defs)
  have s: "spec_apply [MutDeleteRange k [] False] (abs_store st) =
      (Inr (current_rev (s_ws st) + 1, [\<lparr>mr_n = 0, mr_prev_kvs = []\<rparr>]), [], abs_store st)"
    using assms(3) by (simp add: spec_apply_def spec_delete_range_def rows_of_key abs_store_def ws_revs_def Let_def)
  obtain r st' where i: "apply_mutations [MutDeleteRange k [] False] st = (r, st')" by fastforce
  have "refines (Inr (current_rev (s_ws st) + 1, [\<lparr>mr_n = 0, mr_prev_kvs = []\<rparr>]), [], abs_store st) st (r, st')"
    using apply_refines_spec [OF assms(1) abs_store_stands [OF assms(1)] fit assms(2)] unfolding s i .
  then show ?thesis using stands_current [of st' "abs_store st"] by (simp add: i refines_def abs_store_def ws_revs_def)
qed

theorem noop_delete_revision_witness:
  "fst (apply_mutations [MutDeleteRange [3] [] False] sample_store) = Inr (1, [\<lparr>mr_n = 0, mr_prev_kvs = []\<rparr>])"
proof -
  have "kv_at sample_store 0 = fmempty" using sample_abs by (simp add: abs_store_def)
  with noop_delete_revision [OF sample_store_ok(1), of "[3]"] show ?thesis by (simp add: sample_store_ok i64_defs)
qed

end
