(* ===== verification/Mvcc_Caching.thy ===== *)
theory Mvcc_Caching
  imports Mvcc_Runs
begin

text \<open>
  What a request does depends on the tables alone: two works whose contexts lead to the same
  tables, whatever their caches hold, their counters say, and how much of the tables is committed
  and how much still in the context, give the same results and lead to the same tables again. Two
  stores with the same tables then stay so through the same operations, and requests that share a
  commit leave the tables the same requests leave one by one.
\<close>

section \<open>Works that lead to the same tables\<close>

definition ctx_leases :: "engine \<Rightarrow> apply_context \<Rightarrow> (bytes, lease_record) fmap" where
  "ctx_leases snap ctx = t_lease (engine_commit snap (cx_batch ctx))"

definition alike :: "resident_index \<Rightarrow> engine \<Rightarrow> apply_context \<Rightarrow> resident_index \<Rightarrow> engine \<Rightarrow> apply_context \<Rightarrow> bool" where
  "alike ri snap ctx ri' snap' ctx' \<longleftrightarrow> ctx_gens ri' ctx' = ctx_gens ri ctx \<and> ctx_kv snap' ctx' = ctx_kv snap ctx \<and>
     ctx_lk snap' ctx' = ctx_lk snap ctx \<and> ctx_leases snap' ctx' = ctx_leases snap ctx"

lemma alike_models: "alike ri snap ctx ri' snap' ctx' \<Longrightarrow> models ri snap ctx S \<Longrightarrow> models ri' snap' ctx' S"
  by (simp add: alike_def models_def)

lemma commit_append: "engine_commit e (a @ b) = engine_commit (engine_commit e a) b"
  by (simp add: engine_commit_def)

lemma lease_ops_cong:
  "list_all lease_op ls \<Longrightarrow> eng_lk e' = eng_lk e \<Longrightarrow> eng_lk (engine_commit e' ls) = eng_lk (engine_commit e ls)"
proof (induction ls arbitrary: e e')
  case (Cons op ls)
  have "engine_commit x (op # ls) = engine_commit (store_op_apply x op) ls" for x by (simp add: engine_commit_def)
  moreover have "eng_lk (store_op_apply e' op) = eng_lk (store_op_apply e op)"
    using Cons.prems by (cases op) (auto simp: eng_lk_def fun_eq_iff)
  ultimately show ?case using Cons.IH [of "store_op_apply e' op" "store_op_apply e op"] Cons.prems(1) by simp
qed (simp add: engine_commit_def)

lemma lease_ops_leases: "list_all lease_op ls \<Longrightarrow> t_lease (engine_commit e ls) = t_lease e"
proof (induction ls arbitrary: e)
  case (Cons op ls)
  then show ?case by (cases op) (auto simp: engine_commit_def)
qed (simp add: engine_commit_def)

lemma ctx_write_alike:
  assumes a: "alike ri snap ctx ri' snap' ctx'" and ls: "list_all lease_op ls"
  shows "alike ri snap (ctx_write k idx rv rec ls ev ctx) ri' snap' (ctx_write k idx rv rec ls ev' ctx')"
proof -
  have l: "eng_lk (engine_commit snap' (cx_batch ctx')) = eng_lk (engine_commit snap (cx_batch ctx))"
    using a by (simp add: alike_def ctx_lk_def)
  have "eng_lk (e\<lparr>t_kv := x\<rparr>) = eng_lk e" for e x by (simp add: eng_lk_def fun_eq_iff)
  then have "ctx_lk snap' (ctx_write k idx rv rec ls ev' ctx') = ctx_lk snap (ctx_write k idx rv rec ls ev ctx)"
    unfolding ctx_write_lk by (intro lease_ops_cong [OF ls]) (simp add: l)
  moreover have "ctx_leases x (ctx_write k idx rv rec ls e c) = ctx_leases x c" for x e c
    by (simp add: ctx_leases_def ctx_write_def commit_append lease_ops_leases [OF ls])
  ultimately show ?thesis using a ls by (simp add: alike_def ctx_write_gens ctx_write_kv)
qed

definition same_step ::
  "resident_index \<Rightarrow> engine \<Rightarrow> resident_index \<Rightarrow> engine \<Rightarrow> ('a \<times> work) \<Rightarrow> ('a \<times> work) \<Rightarrow> bool" where
  "same_step ri snap ri' snap' r r' \<longleftrightarrow> fst r' = fst r \<and> alike ri snap (w_ctx (snd r)) ri' snap' (w_ctx (snd r'))"

lemma look_prev_same:
  assumes ok: "work_ok ri snap n b w" "work_ok ri' snap' n' b' w'" and a: "alike ri snap (w_ctx w) ri' snap' (w_ctx w')"
  shows "\<exists>idx fc ctx prev vc fc' ctx' vc'. look_prev ri snap k w = (((idx, fc), ctx), prev, vc) \<and>
    look_prev ri' snap' k w' = (((idx, fc'), ctx'), prev, vc') \<and>
    ctx = (w_ctx w)\<lparr>cx_idx_cache := fmdrop k (cx_idx_cache (w_ctx w))\<rparr> \<and>
    ctx' = (w_ctx w')\<lparr>cx_idx_cache := fmdrop k (cx_idx_cache (w_ctx w'))\<rparr> \<and>
    restore_index idx fc ctx = w_ctx w \<and> restore_index idx fc' ctx' = w_ctx w' \<and>
    i_generations idx = ctx_gens ri (w_ctx w) k \<and> i_key idx = k"
proof -
  obtain idx fc ctx prev vc where l: "look_prev ri snap k w = (((idx, fc), ctx), prev, vc)" by (metis prod_cases3 surj_pair)
  obtain idx' fc' ctx' prev' vc' where l': "look_prev ri' snap' k w' = (((idx', fc'), ctx'), prev', vc')" by (metis prod_cases3 surj_pair)
  note r = look_prev_result [OF ok(1) l] and r' = look_prev_result [OF ok(2) l']
  have "idx' = idx" "prev' = prev" using r(1,3,4) r'(1,3,4) a by (simp_all add: alike_def)
  then show ?thesis using l l' r(3-6) r'(5,6) by auto
qed

lemma apply_put_same:
  assumes "work_ok ri snap n b w" "work_ok ri' snap' n' b' w'" "alike ri snap (w_ctx w) ri' snap' (w_ctx w')"
  shows "same_step ri snap ri' snap' (apply_put ri snap rv k v l iv il pkv w) (apply_put ri' snap' rv k v l iv il pkv w')"
proof -
  obtain idx fc ctx prev vc fc' ctx' vc' where l: "look_prev ri snap k w = (((idx, fc), ctx), prev, vc)"
    "look_prev ri' snap' k w' = (((idx, fc'), ctx'), prev, vc')"
    "ctx = (w_ctx w)\<lparr>cx_idx_cache := fmdrop k (cx_idx_cache (w_ctx w))\<rparr>"
    "ctx' = (w_ctx w')\<lparr>cx_idx_cache := fmdrop k (cx_idx_cache (w_ctx w'))\<rparr>"
    "restore_index idx fc ctx = w_ctx w" "restore_index idx fc' ctx' = w_ctx w'"
    using look_prev_same [OF assms, of k] by blast
  obtain idx' version created where r: "record_put idx rv = (idx', version, created)" by (metis prod_cases3)
  show ?thesis
    using ctx_write_alike [OF assms(3) lease_switch_ops] assms(3)
    by (simp add: apply_put_look l(1,2) r same_step_def Let_def l(5,6)) (simp add: l(3,4))
qed

lemma delete_key_same:
  assumes "work_ok ri snap n b w" "work_ok ri' snap' n' b' w'" "alike ri snap (w_ctx w) ri' snap' (w_ctx w')"
  shows "same_step ri snap ri' snap' (delete_key ri snap rv pkv k (res, w)) (delete_key ri' snap' rv pkv k (res, w'))"
proof -
  obtain idx fc ctx prev vc fc' ctx' vc' where l: "look_prev ri snap k w = (((idx, fc), ctx), prev, vc)"
    "look_prev ri' snap' k w' = (((idx, fc'), ctx'), prev, vc')"
    "ctx = (w_ctx w)\<lparr>cx_idx_cache := fmdrop k (cx_idx_cache (w_ctx w))\<rparr>"
    "ctx' = (w_ctx w')\<lparr>cx_idx_cache := fmdrop k (cx_idx_cache (w_ctx w'))\<rparr>"
    "restore_index idx fc ctx = w_ctx w" "restore_index idx fc' ctx' = w_ctx w'"
    using look_prev_same [OF assms, of k] by blast
  obtain idx' closed where r: "record_delete idx rv = (idx', closed)" by (metis surj_pair)
  have ls: "list_all lease_op (case prev of Some p \<Rightarrow> if r_lease p \<noteq> 0 then [LeaseKeyDelete (lease_key_index (r_lease p) k)] else []
                     | None \<Rightarrow> [])" by (simp split: option.split)
  have "idx' = idx" if "\<not> closed" using r that by (auto simp: record_delete_def gens_delete_def split: if_splits)
  then show ?thesis
    using ctx_write_alike [OF assms(3) ls] assms(3)
    by (cases closed) (simp_all add: delete_key_look l(1,2) r same_step_def Let_def l(5,6), simp add: l(3,4))
qed

lemma fold_delete_same:
  assumes "work_ok ri snap n b w" "work_ok ri' snap' n' b w'" "alike ri snap (w_ctx w) ri' snap' (w_ctx w')"
    "models ri snap (w_ctx w) S" "n < rmain rv" "n' < rmain rv" "rv < b" "rv_ok rv"
    and "distinct (map fst rows)"
    and "\<forall>(k, p) \<in> set rows. fmlookup (km_map S) k = Some p \<and> gens_below (ctx_gens ri (w_ctx w) k) rv"
  shows "same_step ri snap ri' snap' (fold (delete_key ri snap rv pkv) (map fst rows) (res, w))
    (fold (delete_key ri' snap' rv pkv) (map fst rows) (res, w'))"
  using assms(1-4,9,10)
proof (induction rows arbitrary: w w' S res)
  case Nil
  then show ?case by (simp add: same_step_def)
next
  case (Cons r rows)
  obtain k p where r: "r = (k, p)" by fastforce
  have kp: "fmlookup (km_map S) k = Some p" "gens_below (ctx_gens ri (w_ctx w) k) rv" using Cons.prems(6) r by auto
  let ?res = "res\<lparr>mr_n := mr_n res + 1, mr_prev_kvs := mr_prev_kvs res @ (if pkv then [p] else [])\<rparr>"
  from delete_key_sim [OF Cons.prems(1,4) assms(5) order.refl kp(2) assms(7,8) kp(1), of pkv res]
  obtain w1 where w1: "delete_key ri snap rv pkv k (res, w) = (?res, w1)"
    "step_to ri snap n (rmain rv) b w [delete_event (rmain rv) (k, p)] (kill (k, p) S) w1"
    "\<forall>j. j \<noteq> k \<longrightarrow> ctx_gens ri (w_ctx w1) j = ctx_gens ri (w_ctx w) j" by blast
  note S' = alike_models [OF Cons.prems(3,4)]
  have "gens_below (ctx_gens ri' (w_ctx w') k) rv" using kp(2) Cons.prems(3) by (simp add: alike_def)
  from delete_key_sim [OF Cons.prems(2) S' assms(6) order.refl this assms(7,8) kp(1), of pkv res]
  obtain w1' where w1': "delete_key ri' snap' rv pkv k (res, w') = (?res, w1')"
    "step_to ri' snap' n' (rmain rv) b w' [delete_event (rmain rv) (k, p)] (kill (k, p) S) w1'" by auto
  have a1: "alike ri snap (w_ctx w1) ri' snap' (w_ctx w1')"
    using delete_key_same [OF Cons.prems(1-3), of rv pkv k res] w1(1) w1'(1) by (simp add: same_step_def)
  have rest: "\<forall>(j, q) \<in> set rows. fmlookup (km_map (kill (k, p) S)) j = Some q \<and> gens_below (ctx_gens ri (w_ctx w1) j) rv"
  proof (clarify)
    fix j q assume jq: "(j, q) \<in> set rows"
    then have "j \<noteq> k" using Cons.prems(5) r by (auto simp: rev_image_eqI)
    then show "fmlookup (km_map (kill (k, p) S)) j = Some q \<and> gens_below (ctx_gens ri (w_ctx w1) j) rv"
      using Cons.prems(6) jq w1(3) by (auto simp: kill_def)
  qed
  have "distinct (map fst rows)" using Cons.prems(5) by simp
  moreover have "work_ok ri snap n b w1" "models ri snap (w_ctx w1) (kill (k, p) S)" "work_ok ri' snap' n' b w1'"
    using w1(2) w1'(2) by (simp_all add: step_to_def)
  ultimately show ?case using Cons.IH [of w1 w1' "kill (k, p) S" ?res] a1 rest w1(1) w1'(1) r by simp
qed

lemma delete_range_same:
  assumes ok: "work_ok ri snap n b w" "work_ok ri' snap' n' b w'" and a: "alike ri snap (w_ctx w) ri' snap' (w_ctx w')"
    and S: "models ri snap (w_ctx w) S" and rv: "b \<le> rv" "n < rmain rv" "n' < rmain rv" "rv_ok rv"
  shows "same_step ri snap ri' snap' (apply_one_uncounted ri snap rv (MutDeleteRange k e pkv) w)
    (apply_one_uncounted ri' snap' rv (MutDeleteRange k e pkv) w')"
proof -
  let ?rows = "rows_of k e (km_map S)"
  have keys: "live_keys_in_range ri (w_ctx w) k e = map fst ?rows" "live_keys_in_range ri' (w_ctx w') k e = map fst ?rows"
    by (rule live_keys_result [OF work_ok_ctx [OF ok(1)] S] live_keys_result [OF work_ok_ctx [OF ok(2)] alike_models [OF a S]])+
  have below: "\<forall>(j, q) \<in> set ?rows. fmlookup (km_map S) j = Some q \<and> gens_below (ctx_gens ri (w_ctx w) j) rv"
    using work_ok_below [OF ok(1) rv(1)] by (auto simp: rows_of_iff)
  have d: "distinct (map fst ?rows)" using rows_of_sorted [of k e "km_map S"] strict_sorted_keys strict_sorted_iff by blast
  have b: "b \<le> next_rv rv" using rv(1) next_rv_less [of rv] by (meson less_imp_le order_trans)
  note s = fold_delete_same [OF work_ok_mono [OF ok(1) b] work_ok_mono [OF ok(2) b] a S rv(2,3) next_rv_less rv(4) d below, of pkv mutation_result_default]
  then show ?thesis by (simp add: keys same_step_def split_def Let_def)
qed

lemma apply_one_same:
  assumes ok: "work_ok ri snap n b w" "work_ok ri' snap' n' b w'" and a: "alike ri snap (w_ctx w) ri' snap' (w_ctx w')"
    and S: "models ri snap (w_ctx w) S" and rv: "b \<le> rv" "n < rmain rv" "n' < rmain rv" "rv_ok rv"
  shows "same_step ri snap ri' snap' (apply_one ri snap rv m w) (apply_one ri' snap' rv m w')"
proof -
  have "same_step ri snap ri' snap' (apply_one_uncounted ri snap rv m w) (apply_one_uncounted ri' snap' rv m w')"
  proof (cases m)
    case (MutPut k v l iv il pkv)
    then show ?thesis using apply_put_same [OF ok a] by simp
  next
    case (MutDeleteRange k e pkv)
    then show ?thesis using delete_range_same [OF ok a S rv] by (simp del: apply_one_uncounted.simps)
  qed
  then show ?thesis by (auto simp: apply_one_def same_step_def split: prod.splits sum.splits)
qed

definition same_end ::
  "resident_index \<Rightarrow> engine \<Rightarrow> resident_index \<Rightarrow> engine \<Rightarrow> ('e + 'a) \<times> work \<Rightarrow> ('e + 'a) \<times> work \<Rightarrow> bool" where
  "same_end ri snap ri' snap' r r' \<longleftrightarrow> fst r' = fst r \<and>
     ((\<exists>x. fst r = Inr x) \<longrightarrow> alike ri snap (w_ctx (snd r)) ri' snap' (w_ctx (snd r')))"

lemma apply_loop_same:
  assumes "work_ok ri snap n (Revision main (int sub)) w" "work_ok ri' snap' n' (Revision main (int sub)) w'"
    "alike ri snap (w_ctx w) ri' snap' (w_ctx w')" "models ri snap (w_ctx w) S"
    and "n < main" "0 \<le> n" "n' < main" "0 \<le> n'" "int (sub + length ms) \<le> i64_max" "\<forall>m \<in> set ms. mut_ok m"
  shows "same_end ri snap ri' snap' (apply_loop ri snap main sub ms w) (apply_loop ri' snap' main sub ms w')"
  using assms
proof (induction ms arbitrary: sub w w' S)
  case Nil
  then show ?case by (simp add: same_end_def)
next
  case (Cons m ms)
  let ?rv = "Revision main (int sub)"
  have rv: "n < rmain ?rv" "n' < rmain ?rv" "rv_ok ?rv" using Cons.prems by (auto simp: rv_ok_def)
  have m: "mut_ok m" using Cons.prems(10) by simp
  have nx: "next_rv ?rv = Revision main (int (sub + 1))" by (simp add: next_rv_def)
  note one = apply_one_sim [OF Cons.prems(1,4) order.refl rv(1,3) m]
    and one' = apply_one_sim [OF Cons.prems(2) alike_models [OF Cons.prems(3,4)] order.refl rv(2,3) m]
    and same = apply_one_same [OF Cons.prems(1-4) order.refl rv, of m]
  show ?case
  proof (cases "spec_mutation main m S")
    case (Inl e)
    then show ?thesis using one one' by (auto simp: same_end_def)
  next
    case (Inr x)
    obtain res es S1 where x: "x = (res, es, S1)" by (metis prod_cases3)
    with Inr one nx obtain w1 where w1: "apply_one ri snap ?rv m w = (Inr (res, es \<noteq> []), w1)"
      "step_to ri snap n main (Revision main (int (sub + 1))) w es S1 w1" by auto
    with Inr x one' nx obtain w1' where w1': "apply_one ri' snap' ?rv m w' = (Inr (res, es \<noteq> []), w1')"
      "step_to ri' snap' n' main (Revision main (int (sub + 1))) w' es S1 w1'" by auto
    have a1: "alike ri snap (w_ctx w1) ri' snap' (w_ctx w1')" using same w1(1) w1'(1) by (simp add: same_step_def)
    have "same_end ri snap ri' snap' (apply_loop ri snap main (sub + 1) ms w1) (apply_loop ri' snap' main (sub + 1) ms w1')"
    proof (rule Cons.IH [OF _ _ a1 _ Cons.prems(5-8)])
      show "work_ok ri snap n (Revision main (int (sub + 1))) w1" "work_ok ri' snap' n' (Revision main (int (sub + 1))) w1'"
        "models ri snap (w_ctx w1) S1" using w1(2) w1'(2) by (simp_all add: step_to_def)
      show "int (sub + 1 + length ms) \<le> i64_max" "\<forall>m \<in> set ms. mut_ok m" using Cons.prems(9,10) by auto
    qed
    then show ?thesis using w1(1) w1'(1) by (auto simp: same_end_def split: prod.splits sum.splits)
  qed
qed

text \<open>The operations of a transaction: what the two runs end with, where they succeed.\<close>

definition same_txn ::
  "resident_index \<Rightarrow> engine \<Rightarrow> resident_index \<Rightarrow> engine \<Rightarrow> (mvcc_error + txn_op_result list) \<times> txn_exec \<times> work \<Rightarrow>
   (mvcc_error + txn_op_result list) \<times> txn_exec \<times> work \<Rightarrow> bool" where
  "same_txn ri snap ri' snap' r r' \<longleftrightarrow> fst r' = fst r \<and>
     ((\<exists>x. fst r = Inr x) \<longrightarrow> fst (snd r') = fst (snd r) \<and> alike ri snap (w_ctx (snd (snd r))) ri' snap' (w_ctx (snd (snd r'))))"

lemma same_txn_wrap:
  assumes "same_txn ri snap ri' snap' r r'"
  shows "same_txn ri snap ri' snap' (case r of (Inl e, ex, w) \<Rightarrow> (Inl e, ex, w) | (Inr rs, ex, w) \<Rightarrow> (Inr (f rs), ex, w))
    (case r' of (Inl e, ex, w) \<Rightarrow> (Inl e, ex, w) | (Inr rs, ex, w) \<Rightarrow> (Inr (f rs), ex, w))"
proof -
  obtain x ex w where r: "r = (x, ex, w)" by (metis prod_cases3)
  obtain x' ex' w' where r': "r' = (x', ex', w')" by (metis prod_cases3)
  show ?thesis using assms by (cases x) (simp_all add: r r' same_txn_def)
qed

lemma txn_ops_same:
  assumes "txn_env alone ri snap n before st main past" "txn_env alone ri' snap' n' before st main past"
    "txn_at ri snap n main sub wrote S w" "txn_at ri' snap' n' main sub wrote S w'"
    "alike ri snap (w_ctx w) ri' snap' (w_ctx w')" "ops_fit alone sub ops"
  shows "same_txn ri snap ri' snap' (txn_ops ri snap st ops \<lparr>tx_main = main, tx_sub = int sub, tx_produced_any = wrote\<rparr> w)
    (txn_ops ri' snap' st ops \<lparr>tx_main = main, tx_sub = int sub, tx_produced_any = wrote\<rparr> w')"
  using assms
proof (induction before st main past ops wrote S arbitrary: sub w w' rule: spec_ops.induct)
  case (1 before st main past wrote S)
  then show ?case by (simp add: same_txn_def)
next
  case (2 before st main past r ops wrote S)
  have sub: "int sub \<le> i64_max" and ops: "ops_fit alone sub ops"
    and rev: "ro_revision r = 0 \<or> n = main - 1" "ro_revision r = 0 \<or> n' = main - 1"
    using "2.prems"(1,2,6) by (auto simp: ops_fit_def txn_env_def)
  have env: "rv_current st = main - 1" "0 < main" "past_ok ri snap n (rv_compact st) past" "past_ok ri' snap' n' (rv_compact st) past"
    using "2.prems"(1,2) by (auto simp: txn_env_def)
  note rd = range_op_sim [OF "2.prems"(3) sub env(1-3) rev(1)] and rd' = range_op_sim [OF "2.prems"(4) sub env(1,2,4) rev(2)]
  show ?case
  proof (cases "spec_read st main past r wrote (km_map S)")
    case (Inl e)
    then show ?thesis using rd rd' by (auto simp: same_txn_def)
  next
    case (Inr res)
    with rd obtain w1 where w1: "range_inner ri snap (if wrote then st\<lparr>rv_current := main\<rparr> else st) r w = (Inr res, w1)"
      "w_ctx w1 = w_ctx w" "work_ok ri snap n (Revision main (int sub)) w1" by auto
    from Inr rd' obtain w1' where w1': "range_inner ri' snap' (if wrote then st\<lparr>rv_current := main\<rparr> else st) r w' = (Inr res, w1')"
      "w_ctx w1' = w_ctx w'" "work_ok ri' snap' n' (Revision main (int sub)) w1'" by auto
    have a1: "alike ri snap (w_ctx w1) ri' snap' (w_ctx w1')" using "2.prems"(5) w1(2) w1'(2) by simp
    note ih = "2.IH" [OF Inr "2.prems"(1,2) txn_at_ctx [OF "2.prems"(3) w1(2,3)] txn_at_ctx [OF "2.prems"(4) w1'(2,3)] a1 ops]
    from same_txn_wrap [OF this, of "\<lambda>rs. ResRange res # rs"] show ?thesis using w1(1) w1'(1) by (cases wrote) simp_all
  qed
next
  case (3 before st main past m ops wrote S)
  let ?rv = "Revision main (int sub)"
  have sub: "int sub \<le> i64_max" and ops: "ops_fit alone (sub + 1) ops" and m: "mut_ok m"
    using "3.prems"(6) by (auto simp: ops_fit_def)
  have env: "0 \<le> n" "n < main" "0 \<le> n'" "n' < main" using "3.prems"(1,2) by (auto simp: txn_env_def)
  have ok: "work_ok ri snap n ?rv w" "work_ok ri' snap' n' ?rv w'" "models ri snap (w_ctx w) S" using "3.prems"(3,4) by (simp_all add: txn_at_def)
  have rv: "n < rmain ?rv" "n' < rmain ?rv" "rv_ok ?rv" using env sub by (simp_all add: rv_ok_def)
  note one = txn_at_step [OF "3.prems"(3) env(1,2) sub m] and one' = txn_at_step [OF "3.prems"(4) env(3,4) sub m]
    and same = apply_one_same [OF ok(1,2) "3.prems"(5) ok(3) order.refl rv, of m]
  show ?case
  proof (cases "spec_mutation main m S")
    case (Inl e)
    then show ?thesis using one one' by (auto simp: same_txn_def)
  next
    case (Inr x)
    obtain res es S' where x: "x = (res, es, S')" by (metis prod_cases3)
    from one Inr x obtain w1 where w1: "apply_one ri snap ?rv m w = (Inr (res, es \<noteq> []), w1)"
      "txn_at ri snap n main (sub + 1) (wrote \<or> es \<noteq> []) S' w1" by auto
    from one' Inr x obtain w1' where w1': "apply_one ri' snap' ?rv m w' = (Inr (res, es \<noteq> []), w1')"
      "txn_at ri' snap' n' main (sub + 1) (wrote \<or> es \<noteq> []) S' w1'" by auto
    have a1: "alike ri snap (w_ctx w1) ri' snap' (w_ctx w1')" using same w1(1) w1'(1) by (simp add: same_step_def)
    note ih = "3.IH" [OF Inr x [symmetric] refl "3.prems"(1,2) w1(2) w1'(2) a1 ops]
    from same_txn_wrap [OF this, of "\<lambda>rs. ResMutation res # rs"] show ?thesis using w1(1) w1'(1) by (simp add: Let_def add.commute)
  qed
next
  case (4 before st main past compares success failure ops wrote S)
  let ?c = "list_all (spec_compare before) compares"
  let ?inner = "if ?c then success else failure" and ?ex = "\<lparr>tx_main = main, tx_sub = int sub, tx_produced_any = wrote\<rparr>"
  note fit = ops_fit_nested [OF "4.prems"(6)]
  have base: "base_ok ri snap n" "base_ok ri' snap' n'" using "4.prems"(3,4) by (simp_all add: txn_at_def work_ok_def)
  have before: "models ri snap ctx_default before" "models ri' snap' ctx_default before" using "4.prems"(1,2) fit(1) by (simp_all add: txn_env_def)
  obtain vc where ev: "evaluate_compares ri snap ctx_default compares (w_values w) = (Inr ?c, vc)" "cache_fits ri snap n vc"
    using evaluate_compares_result [OF base(1) ctx_default_ok [OF base(1)] before(1) txn_at_values [OF "4.prems"(3)], of compares] by blast
  obtain vc' where ev': "evaluate_compares ri' snap' ctx_default compares (w_values w') = (Inr ?c, vc')" "cache_fits ri' snap' n' vc'"
    using evaluate_compares_result [OF base(2) ctx_default_ok [OF base(2)] before(2) txn_at_values [OF "4.prems"(4)], of compares] by blast
  have at: "txn_at ri snap n main sub wrote S (w\<lparr>w_values := vc\<rparr>)" "txn_at ri' snap' n' main sub wrote S (w'\<lparr>w_values := vc'\<rparr>)"
    using "4.prems"(3,4) ev(2) ev'(2) by (simp_all add: txn_at_def work_ok_def)
  have a: "alike ri snap (w_ctx (w\<lparr>w_values := vc\<rparr>)) ri' snap' (w_ctx (w'\<lparr>w_values := vc'\<rparr>))" using "4.prems"(5) by simp
  note sim = txn_ops_sim [OF "4.prems"(1) at(1) fit(2) [of ?c]] and sim' = txn_ops_sim [OF "4.prems"(2) at(2) fit(2) [of ?c]]
  have inner: "same_txn ri snap ri' snap' (txn_ops ri snap st ?inner ?ex (w\<lparr>w_values := vc\<rparr>)) (txn_ops ri' snap' st ?inner ?ex (w'\<lparr>w_values := vc'\<rparr>))"
    by (rule "4.IH"(1) [OF refl "4.prems"(1,2) at a fit(2)])
  show ?case
  proof (cases "spec_ops before st main past ?inner wrote S")
    case (Inl e)
    then show ?thesis using sim sim' ev(1) ev'(1) by (auto simp: txn_sim_def same_txn_def)
  next
    case (Inr x)
    obtain rs es wrote1 S1 where x: "x = (rs, es, wrote1, S1)" by (metis prod_cases4)
    from sim Inr x obtain sub1 w1 where w1:
      "txn_ops ri snap st ?inner ?ex (w\<lparr>w_values := vc\<rparr>) = (Inr rs, \<lparr>tx_main = main, tx_sub = int sub1, tx_produced_any = wrote1\<rparr>, w1)"
      "sub1 \<le> sub + length (op_muts ?inner)" "txn_at ri snap n main sub1 wrote1 S1 w1" by (auto simp: txn_sim_def)
    from sim' Inr x obtain sub1' w1' where w1':
      "txn_ops ri' snap' st ?inner ?ex (w'\<lparr>w_values := vc'\<rparr>) = (Inr rs, \<lparr>tx_main = main, tx_sub = int sub1', tx_produced_any = wrote1\<rparr>, w1')"
      "txn_at ri' snap' n' main sub1' wrote1 S1 w1'" by (auto simp: txn_sim_def)
    have eq: "sub1' = sub1" "alike ri snap (w_ctx w1) ri' snap' (w_ctx w1')" using inner w1(1) w1'(1) by (auto simp: same_txn_def)
    have "same_txn ri snap ri' snap' (txn_ops ri snap st ops \<lparr>tx_main = main, tx_sub = int sub1, tx_produced_any = wrote1\<rparr> w1)
        (txn_ops ri' snap' st ops \<lparr>tx_main = main, tx_sub = int sub1, tx_produced_any = wrote1\<rparr> w1')"
      by (rule "4.IH"(2) [OF refl Inr x [symmetric] refl refl "4.prems"(1,2) w1(3) w1'(2) [unfolded eq(1)] eq(2) fit(3) [OF w1(2)]])
    from same_txn_wrap [OF this, of "\<lambda>r. ResTxn ?c rs # r"] show ?thesis
      using ev(1) ev'(1) w1(1) w1'(1) eq(1) by simp
  qed
qed

section \<open>Stores with the same tables\<close>

lemma alike_refl: "alike ri snap ctx ri snap ctx"
  by (simp add: alike_def)

lemma alike_sym: "alike ri snap ctx ri' snap' ctx' \<Longrightarrow> alike ri' snap' ctx' ri snap ctx"
  by (simp add: alike_def)

lemma alike_trans:
  "alike ri snap ctx ri' snap' ctx' \<Longrightarrow> alike ri' snap' ctx' ri'' snap'' ctx'' \<Longrightarrow> alike ri snap ctx ri'' snap'' ctx''"
  by (simp add: alike_def)

definition same_tables :: "mvcc_store \<Rightarrow> mvcc_store \<Rightarrow> bool" where
  "same_tables a b \<longleftrightarrow> alike (s_index a) (s_engine a) ctx_default (s_index b) (s_engine b) ctx_default \<and>
     t_auth (s_engine b) = t_auth (s_engine a) \<and> s_ws b = s_ws a"

definition twin :: "mvcc_store \<Rightarrow> mvcc_store \<Rightarrow> bool" where
  "twin a b \<longleftrightarrow> store_ok a \<and> store_ok b \<and> same_tables a b"

lemma twin_refl: "store_ok a \<Longrightarrow> twin a a"
  by (simp add: twin_def same_tables_def alike_refl)

lemma twin_sym: "twin a b \<Longrightarrow> twin b a"
  by (auto simp: twin_def same_tables_def intro: alike_sym)

lemma twin_trans: "twin a b \<Longrightarrow> twin b c \<Longrightarrow> twin a c"
  by (auto simp: twin_def same_tables_def intro: alike_trans)

lemma twin_store: "twin a b \<Longrightarrow> store_ok a" "twin a b \<Longrightarrow> store_ok b" "twin a b \<Longrightarrow> s_ws b = s_ws a"
  by (simp_all add: twin_def same_tables_def)

lemma ctx_leases_default [simp]: "ctx_leases snap ctx_default = t_lease snap"
  by (simp add: ctx_leases_def ctx_default_def engine_commit_def)

lemma twin_tables:
  assumes "twin a b"
  shows "ri_gens (s_index b) = ri_gens (s_index a)" "eng_kv (s_engine b) = eng_kv (s_engine a)"
    "eng_lk (s_engine b) = eng_lk (s_engine a)" "t_lease (s_engine b) = t_lease (s_engine a)"
    "t_auth (s_engine b) = t_auth (s_engine a)"
  using assms by (simp_all add: twin_def same_tables_def alike_def)

lemma ri_gens_inject:
  assumes "ri_ok a" "ri_ok b" "ri_gens b = ri_gens a"
  shows "b = a"
proof -
  have "fmlookup (ri_map b) k = fmlookup (ri_map a) k" for k
    using assms(1,2) fun_cong [OF assms(3), of k] by (auto simp: ri_ok_def ri_gens_def split: option.splits)
  then have "ri_map b = ri_map a" by (rule fmap_ext)
  then show ?thesis using assms(1,2) by (simp add: ri_ok_def)
qed

lemma twin_index: "twin a b \<Longrightarrow> s_index b = s_index a"
  using ri_gens_inject [of "s_index a" "s_index b"] twin_tables(1) by (auto simp: twin_def store_ok_def)

lemma twin_lease_keys: "twin a b \<Longrightarrow> t_lease_keys (s_engine b) = t_lease_keys (s_engine a)"
proof (rule fmap_ext)
  fix x assume "twin a b"
  from fun_cong [OF twin_tables(3) [OF this], of x]
  show "fmlookup (t_lease_keys (s_engine b)) x = fmlookup (t_lease_keys (s_engine a)) x"
    by (cases "fmlookup (t_lease_keys (s_engine b)) x"; cases "fmlookup (t_lease_keys (s_engine a)) x") (simp_all add: eng_lk_def)
qed

lemma store_view: "store_ok st \<Longrightarrow> v_revs (s_view st) = ws_revs (s_ws st)"
  by (simp add: store_ok_def)

lemma twin_view: "twin a b \<Longrightarrow> v_revs (s_view b) = v_revs (s_view a)"
  using store_view [OF twin_store(1), of a b] store_view [OF twin_store(2), of a b] twin_store(3) [of a b] by simp

lemma twin_stands:
  assumes "twin a b" "stands_for a sp"
  shows "stands_for b sp"
  using assms(2) by (simp add: stands_for_def models_def past_ok_def twin_index [OF assms(1)] twin_tables(2) [OF assms(1)] twin_store(3) [OF assms(1)])

lemma twin_reads: "twin a b \<Longrightarrow> same_reads a b"
  using same_tables_reads [of a b] twin_tables(1,2) [of a b] twin_store [of a b] by simp

text \<open>A store that another one became without its engine changing holds the same data.\<close>

lemma idle_twin:
  assumes "store_ok a" "store_ok b" "s_engine b = s_engine a"
  shows "twin a b"
proof -
  have ws: "s_ws b = s_ws a" using assms by (intro write_state.equality) (simp_all add: store_ok_def meta_ok_def)
  have "ri_gens (s_index b) = ri_gens (s_index a)"
    using store_engine_gens [OF assms(1)] store_engine_gens [OF assms(2)] assms(3) by simp
  then show ?thesis using assms ws by (simp add: twin_def same_tables_def alike_def)
qed

text \<open>A commit leads to the tables its context stands for.\<close>

lemma idx_puts_leases: "t_lease (engine_commit e (map (\<lambda>(k, i). IdxPut k i) rows)) = t_lease e"
  using idx_puts_keep [of e rows] by simp

lemma commit_alike:
  assumes st: "store_ok st" and at: "batch_at st cur w sp" and cur: "cur \<le> i64_max"
  defines "st' \<equiv> commit_ctx cur (w_ctx w) (end_work w st)"
  shows "alike (s_index st) (s_engine st) (w_ctx w) (s_index st') (s_engine st') ctx_default"
    "t_auth (s_engine st') = t_auth (s_engine st)" "s_ws st' = (s_ws st)\<lparr>current_rev := cur\<rparr>"
proof -
  have ok: "work_ok (s_index st) (s_engine st) (current_rev (s_ws st)) (Revision (cur + 1) 0) w"
    and le: "current_rev (s_ws st) \<le> cur" using at by (simp_all add: batch_at_def)
  note c = commit_ok [OF st ok le cur order.refl, folded st'_def]
  have row: "list_all row_op (cx_batch (w_ctx w))" using ok by (simp add: work_ok_def ctx_ok_def)
  have e: "s_engine st' = engine_commit (s_engine st) (commit_batch cur (w_ctx w) @ map (\<lambda>(k, v). MetaPut k v) (s_pending st))"
    by (simp add: st'_def commit_ctx_def commit_folded_eq Let_def end_work_def)
  have "t_lease (s_engine st') = ctx_leases (s_engine st) (w_ctx w)"
    using meta_ops_keep [OF meta_puts_ops, of _ "s_pending st"]
    by (simp add: e commit_batch_def write_i64_def commit_append idx_puts_leases ctx_leases_def)
  then show "alike (s_index st) (s_engine st) (w_ctx w) (s_index st') (s_engine st') ctx_default"
    using c(2,3) commit_engine(2) [OF row, of "s_engine st" cur "s_pending st"] by (simp add: alike_def e)
  show "t_auth (s_engine st') = t_auth (s_engine st)"
    using commit_engine(4) [OF row, of "s_engine st" cur "s_pending st"] by (simp add: e)
  show "s_ws st' = (s_ws st)\<lparr>current_rev := cur\<rparr>" by (rule c(4))
qed

section \<open>Requests on stores alike\<close>

lemma apply_inner_pair:
  assumes at: "batch_at a cur w sp" "batch_at b cur w' sp" and al: "alike (s_index a) (s_engine a) (w_ctx w) (s_index b) (s_engine b) (w_ctx w')"
    and ms: "muts_fit ms"
  shows "same_end (s_index a) (s_engine a) (s_index b) (s_engine b)
    (apply_inner (s_index a) (s_engine a) cur ms w) (apply_inner (s_index b) (s_engine b) cur ms w')"
proof -
  have "same_end (s_index a) (s_engine a) (s_index b) (s_engine b)
    (apply_loop (s_index a) (s_engine a) (cur + 1) 0 ms w) (apply_loop (s_index b) (s_engine b) (cur + 1) 0 ms w')"
    by (rule apply_loop_same [where S = "sp_now sp"]) (use at al ms in \<open>auto simp: batch_at_def muts_fit_def list_all_iff\<close>)
  then show ?thesis by (auto simp: apply_inner_def same_end_def Let_def split: prod.splits sum.splits)
qed

lemma txn_run_pair:
  assumes at: "batch_at a cur w sp" "batch_at b cur w' sp" and al: "alike (s_index a) (s_engine a) (w_ctx w) (s_index b) (s_engine b) (w_ctx w')"
    and fit: "ops_fit alone 0 ops"
    and alone: "alone \<Longrightarrow> w_ctx w = ctx_default \<and> w_ctx w' = ctx_default \<and> cur = current_rev (s_ws a) \<and> cur = current_rev (s_ws b)"
  shows "same_txn (s_index a) (s_engine a) (s_index b) (s_engine b)
    (txn_ops (s_index a) (s_engine a) (sp_revs sp) ops \<lparr>tx_main = cur + 1, tx_sub = 0, tx_produced_any = False\<rparr> w)
    (txn_ops (s_index b) (s_engine b) (sp_revs sp) ops \<lparr>tx_main = cur + 1, tx_sub = 0, tx_produced_any = False\<rparr> w')"
proof -
  have env: "txn_env alone (s_index st) (s_engine st) (current_rev (s_ws st)) (sp_now sp) (sp_revs sp) (cur + 1) (sp_past sp)"
    if "batch_at st cur v sp" "alone \<Longrightarrow> w_ctx v = ctx_default \<and> cur = current_rev (s_ws st)" for st v
    using that batch_past_ok [OF that(1)] by (cases alone) (simp_all add: txn_env_def batch_at_def)
  have txn: "txn_at (s_index st) (s_engine st) (current_rev (s_ws st)) (cur + 1) 0 False (sp_now sp) v" if "batch_at st cur v sp" for st v
    using that batch_fresh [OF that] by (simp add: txn_at_def batch_at_def)
  have e: "txn_env alone (s_index a) (s_engine a) (current_rev (s_ws a)) (sp_now sp) (sp_revs sp) (cur + 1) (sp_past sp)"
    "txn_env alone (s_index b) (s_engine b) (current_rev (s_ws b)) (sp_now sp) (sp_revs sp) (cur + 1) (sp_past sp)"
    using env [OF at(1)] env [OF at(2)] alone by blast+
  show ?thesis using txn_ops_same [OF e txn [OF at(1)] txn [OF at(2)] al fit] by simp
qed

lemma commit_twin:
  assumes "store_ok a" "store_ok b" "batch_at a cur w sp" "batch_at b cur w' sp" "cur \<le> i64_max"
    and "alike (s_index a) (s_engine a) (w_ctx w) (s_index b) (s_engine b) (w_ctx w')"
    and "t_auth (s_engine b) = t_auth (s_engine a)" "(s_ws b)\<lparr>current_rev := cur\<rparr> = (s_ws a)\<lparr>current_rev := cur\<rparr>"
  shows "twin (commit_ctx cur (w_ctx w) (end_work w a)) (commit_ctx cur (w_ctx w') (end_work w' b))"
proof -
  note ca = commit_alike [OF assms(1,3,5)] and cb = commit_alike [OF assms(2,4,5)]
  have "alike (s_index (commit_ctx cur (w_ctx w) (end_work w a))) (s_engine (commit_ctx cur (w_ctx w) (end_work w a))) ctx_default
      (s_index (commit_ctx cur (w_ctx w') (end_work w' b))) (s_engine (commit_ctx cur (w_ctx w') (end_work w' b))) ctx_default"
    using alike_trans [OF alike_trans [OF alike_sym [OF ca(1)] assms(6)] cb(1)] .
  then show ?thesis
    using ca(2,3) cb(2,3) assms(7,8) commit_batch_at(1) [OF assms(1,3,5)] commit_batch_at(1) [OF assms(2,4,5)]
    by (simp add: twin_def same_tables_def)
qed

lemma twin_start:
  assumes "twin a b"
  obtains sp where "batch_at a (current_rev (s_ws a)) (start_work a) sp" "batch_at b (current_rev (s_ws a)) (start_work b) sp"
    "stands_for a sp" "stands_for b sp" "sp_revs sp = ws_revs (s_ws a)"
    "alike (s_index a) (s_engine a) (w_ctx (start_work a)) (s_index b) (s_engine b) (w_ctx (start_work b))"
proof -
  note st = twin_store [OF assms]
  note sa = abs_store_stands [OF st(1)]
  have sb: "stands_for b (abs_store a)" by (rule twin_stands [OF assms sa])
  show thesis
    by (rule that [of "abs_store a"])
      (use batch_start [OF st(1) sa] batch_start [OF st(2) sb] sa sb st(3) assms in
        \<open>simp_all add: abs_store_def twin_def same_tables_def\<close>)
qed

lemma end_work_twin:
  assumes "twin a b" "cache_fits (s_index a) (s_engine a) (current_rev (s_ws a)) (w_values w)"
    "cache_fits (s_index b) (s_engine b) (current_rev (s_ws b)) (w_values w')"
  shows "twin (end_work w a) (end_work w' b)"
proof -
  note st = twin_store [OF assms(1)]
  have "twin a (end_work w a)" "twin b (end_work w' b)"
    using idle_twin end_work_ok [OF st(1) assms(2)] end_work_ok [OF st(2) assms(3)] st(1,2) by (simp_all add: end_work_def)
  then show ?thesis using assms(1) twin_trans twin_sym by blast
qed

lemma ops_twin [simp]: "twin (a\<lparr>s_ops := x\<rparr>) b = twin a b" "twin a (b\<lparr>s_ops := x\<rparr>) = twin a b"
  by (simp_all add: twin_def same_tables_def)

lemma apply_twin:
  assumes t: "twin a b" and ms: "muts_fit ms" and cur: "current_rev (s_ws a) < i64_max"
  shows "fst (apply_mutations ms b) = fst (apply_mutations ms a) \<and> twin (snd (apply_mutations ms a)) (snd (apply_mutations ms b))"
proof (cases "ms = []")
  case True
  then show ?thesis using t twin_view [OF t] by (simp add: apply_mutations_def)
next
  case ne: False
  let ?n = "current_rev (s_ws a)"
  note st = twin_store [OF t]
  obtain sp where sp: "batch_at a ?n (start_work a) sp" "batch_at b ?n (start_work b) sp"
    "alike (s_index a) (s_engine a) (w_ctx (start_work a)) (s_index b) (s_engine b) (w_ctx (start_work b))"
    by (rule twin_start [OF t])
  note simA = apply_inner_sim [OF sp(1) ms] and simB = apply_inner_sim [OF sp(2) ms] and pair = apply_inner_pair [OF sp ms]
  show ?thesis
  proof (cases "spec_mutations (?n + 1) ms (sp_now sp)")
    case (Inl e)
    then show ?thesis using simA simB ne st(3) end_work_twin [OF t] by (auto simp: apply_mutations_def)
  next
    case (Inr x)
    obtain rs es S where x: "x = (rs, es, S)" by (metis prod_cases3)
    let ?sp = "if es = [] then sp else spec_advance (?n + 1) S sp"
    from simA Inr x obtain w where w: "apply_inner (s_index a) (s_engine a) ?n ms (start_work a) = (Inr (?n + 1, rs, es \<noteq> []), w)"
      "moved a ?n (start_work a) sp es ?sp w" by auto
    from simB Inr x obtain w' where w': "apply_inner (s_index b) (s_engine b) ?n ms (start_work b) = (Inr (?n + 1, rs, es \<noteq> []), w')"
      "moved b ?n (start_work b) sp es ?sp w'" by auto
    have al: "alike (s_index a) (s_engine a) (w_ctx w) (s_index b) (s_engine b) (w_ctx w')" using pair w(1) w'(1) by (simp add: same_end_def)
    show ?thesis
    proof (cases "es = []")
      case True
      then have "twin (end_work w a) (end_work w' b)"
        using end_work_twin [OF t] w(2) w'(2) by (simp add: moved_def batch_at_def work_ok_def)
      then show ?thesis using True ne w(1) w'(1) st(3) by (simp add: apply_mutations_def Let_def)
    next
      case False
      then have at: "batch_at a (?n + 1) w ?sp" "batch_at b (?n + 1) w' ?sp" using w(2) w'(2) by (simp_all add: moved_def)
      have "twin (commit_ctx (?n + 1) (w_ctx w) (end_work w a)) (commit_ctx (?n + 1) (w_ctx w') (end_work w' b))"
        by (rule commit_twin [OF st(1,2) at _ al]) (use cur st(3) twin_tables(5) [OF t] in simp_all)
      then show ?thesis using False ne w(1) w'(1) st(3) by (simp add: apply_mutations_def Let_def)
    qed
  qed
qed

lemma compares_pair:
  assumes "batch_at a cur w sp" "batch_at b cur w' sp"
  obtains vc vc' where
    "evaluate_compares (s_index a) (s_engine a) (w_ctx w) cs (w_values w) = (Inr (list_all (spec_compare (sp_now sp)) cs), vc)"
    "evaluate_compares (s_index b) (s_engine b) (w_ctx w') cs (w_values w') = (Inr (list_all (spec_compare (sp_now sp)) cs), vc')"
    "batch_at a cur (w\<lparr>w_values := vc\<rparr>) sp" "batch_at b cur (w'\<lparr>w_values := vc'\<rparr>) sp"
  using compares_sim [OF assms(1), of cs] compares_sim [OF assms(2), of cs] by blast

lemma txn_twin:
  assumes t: "twin a b" and cur: "current_rev (s_ws a) < i64_max" and fit: "ops_fit True 0 su" "ops_fit True 0 fa"
  shows "fst (txn cs su fa b) = fst (txn cs su fa a) \<and> twin (snd (txn cs su fa a)) (snd (txn cs su fa b))"
proof -
  let ?n = "current_rev (s_ws a)"
  note st = twin_store [OF t]
  obtain sp where sp: "batch_at a ?n (start_work a) sp" "batch_at b ?n (start_work b) sp" "stands_for a sp" "stands_for b sp"
    "sp_revs sp = ws_revs (s_ws a)"
    "alike (s_index a) (s_engine a) (w_ctx (start_work a)) (s_index b) (s_engine b) (w_ctx (start_work b))"
    by (rule twin_start [OF t])
  let ?c = "list_all (spec_compare (sp_now sp)) cs"
  let ?ops = "if ?c then su else fa" and ?ex = "\<lparr>tx_main = ?n + 1, tx_sub = 0, tx_produced_any = False\<rparr>"
  obtain vc vc' where ev: "evaluate_compares (s_index a) (s_engine a) ctx_default cs (s_values a) = (Inr ?c, vc)"
    "evaluate_compares (s_index b) (s_engine b) ctx_default cs (s_values b) = (Inr ?c, vc')"
    and at: "batch_at a ?n ((start_work a)\<lparr>w_values := vc\<rparr>) sp" "batch_at b ?n ((start_work b)\<lparr>w_values := vc'\<rparr>) sp"
    by (rule compares_pair [OF sp(1,2), of cs]) simp
  have ops: "ops_fit True 0 ?ops" using fit by simp
  have al0: "alike (s_index a) (s_engine a) (w_ctx ((start_work a)\<lparr>w_values := vc\<rparr>)) (s_index b) (s_engine b) (w_ctx ((start_work b)\<lparr>w_values := vc'\<rparr>))"
    using sp(6) by simp
  note simA = txn_run_sim [OF at(1) ops] and simB = txn_run_sim [OF at(2) ops] and pair = txn_run_pair [OF at al0 ops]
  have ex: "ws_revs (s_ws b) = sp_revs sp" "ws_revs (s_ws a) = sp_revs sp" "current_rev (s_ws b) = ?n" using sp(5) st(3) by simp_all
  show ?thesis
  proof (cases "spec_ops (sp_now sp) (sp_revs sp) (?n + 1) (sp_past sp) ?ops False (sp_now sp)")
    case (Inl e)
    from simA Inl obtain exa w where w: "txn_ops (s_index a) (s_engine a) (sp_revs sp) ?ops ?ex ((start_work a)\<lparr>w_values := vc\<rparr>) = (Inl e, exa, w)"
      "cache_fits (s_index a) (s_engine a) ?n (w_values w)" by auto
    from simB Inl ex(3) obtain exb w' where w': "txn_ops (s_index b) (s_engine b) (sp_revs sp) ?ops ?ex ((start_work b)\<lparr>w_values := vc'\<rparr>) = (Inl e, exb, w')"
      "cache_fits (s_index b) (s_engine b) (current_rev (s_ws b)) (w_values w')" by auto
    show ?thesis using ev w w' ex end_work_twin [OF t w(2) w'(2)] by (simp add: txn_def Let_def)
  next
    case (Inr x)
    obtain rs es wrote S where x: "x = (rs, es, wrote, S)" by (metis prod_cases4)
    let ?sp = "if es = [] then sp else spec_advance (?n + 1) S sp"
    from simA Inr x obtain suba w where w: "txn_ops (s_index a) (s_engine a) (sp_revs sp) ?ops ?ex ((start_work a)\<lparr>w_values := vc\<rparr>) =
        (Inr rs, \<lparr>tx_main = ?n + 1, tx_sub = int suba, tx_produced_any = wrote\<rparr>, w)" "wrote \<longleftrightarrow> es \<noteq> []"
      "moved a ?n ((start_work a)\<lparr>w_values := vc\<rparr>) sp es ?sp w" by auto
    from simB Inr x ex(3) obtain subb w' where w': "txn_ops (s_index b) (s_engine b) (sp_revs sp) ?ops ?ex ((start_work b)\<lparr>w_values := vc'\<rparr>) =
        (Inr rs, \<lparr>tx_main = ?n + 1, tx_sub = int subb, tx_produced_any = wrote\<rparr>, w')"
      "moved b ?n ((start_work b)\<lparr>w_values := vc'\<rparr>) sp es ?sp w'" by auto
    have al: "alike (s_index a) (s_engine a) (w_ctx w) (s_index b) (s_engine b) (w_ctx w')"
      using pair ex(3) w(1) w'(1) by (simp add: same_txn_def)
    show ?thesis
    proof (cases "es = []")
      case True
      then have "twin (end_work w a) (end_work w' b)"
        using end_work_twin [OF t] w(3) w'(2) by (simp add: moved_def batch_at_def work_ok_def)
      then show ?thesis using True ev w(1,2) w'(1) ex by (simp add: txn_def Let_def) (simp add: end_work_def)
    next
      case False
      then have at': "batch_at a (?n + 1) w ?sp" "batch_at b (?n + 1) w' ?sp" using w(3) w'(2) by (simp_all add: moved_def)
      have "twin (commit_ctx (?n + 1) (w_ctx w) (end_work w a)) (commit_ctx (?n + 1) (w_ctx w') (end_work w' b))"
        by (rule commit_twin [OF st(1,2) at' _ al]) (use cur st(3) twin_tables(5) [OF t] in simp_all)
      then show ?thesis using False ev w(1,2) w'(1) ex by (simp add: txn_def Let_def)
    qed
  qed
qed

section \<open>A shared commit and its requests one by one\<close>

text \<open>A commit in progress over \<open>st\<close>, and a store \<open>b\<close> that committed the same requests one by one.\<close>

definition along :: "mvcc_store \<Rightarrow> int \<Rightarrow> work \<Rightarrow> spec_store \<Rightarrow> mvcc_store \<Rightarrow> bool" where
  "along st cur w sp b \<longleftrightarrow> batch_at st cur w sp \<and> store_ok b \<and> stands_for b sp \<and> s_ws b = (s_ws st)\<lparr>current_rev := cur\<rparr> \<and>
     alike (s_index st) (s_engine st) (w_ctx w) (s_index b) (s_engine b) ctx_default \<and>
     t_auth (s_engine b) = t_auth (s_engine st) \<and> (cur = current_rev (s_ws st) \<longrightarrow> twin st b)"

lemma along_start: "store_ok st \<Longrightarrow> along st (current_rev (s_ws st)) (start_work st) (abs_store st) st"
  using batch_start abs_store_stands twin_refl by (simp add: along_def alike_refl)

lemma along_idle:
  assumes al: "along st cur w sp b" and at: "batch_at st cur w' sp"
    and a: "alike (s_index st) (s_engine st) (w_ctx w') (s_index b) (s_engine b) ctx_default"
    and b': "store_ok b'" "s_engine b' = s_engine b"
  shows "along st cur w' sp b'"
proof -
  have b: "store_ok b" using al by (simp add: along_def)
  have t: "twin b b'" by (rule idle_twin [OF b b'])
  have "stands_for b' sp" using al twin_stands [OF t] by (simp add: along_def)
  moreover have "s_ws b' = s_ws b" "s_index b' = s_index b" by (rule twin_store(3) [OF t], rule twin_index [OF t])
  ultimately show ?thesis using al at a b' twin_trans [OF _ t] by (auto simp: along_def)
qed

lemma along_commit:
  assumes al: "along st cur w sp b" and at: "batch_at st (cur + 1) w' sp'" "batch_at b (cur + 1) v sp'" and cur: "cur < i64_max"
    and a: "alike (s_index st) (s_engine st) (w_ctx w') (s_index b) (s_engine b) (w_ctx v)"
  shows "along st (cur + 1) w' sp' (commit_ctx (cur + 1) (w_ctx v) (end_work v b))"
proof -
  have b: "store_ok b" "s_ws b = (s_ws st)\<lparr>current_rev := cur\<rparr>" "t_auth (s_engine b) = t_auth (s_engine st)" "current_rev (s_ws st) \<le> cur"
    using al by (simp_all add: along_def batch_at_def)
  have c: "cur + 1 \<le> i64_max" using cur by simp
  show ?thesis
    using at(1) b commit_alike [OF b(1) at(2) c] commit_batch_at [OF b(1) at(2) c] alike_trans [OF a]
    by (simp add: along_def)
qed

lemma along_work:
  assumes "along st cur w sp b"
  shows "batch_at st cur w sp" "batch_at b cur (start_work b) sp" "current_rev (s_ws b) = cur" "store_ok b"
    "alike (s_index st) (s_engine st) (w_ctx w) (s_index b) (s_engine b) (w_ctx (start_work b))"
    "sp_revs sp = ws_revs (s_ws b)" "compact_rev (s_ws b) = compact_rev (s_ws st)"
proof -
  have b: "store_ok b" "stands_for b sp" "s_ws b = (s_ws st)\<lparr>current_rev := cur\<rparr>" using assms by (simp_all add: along_def)
  show "batch_at st cur w sp" "current_rev (s_ws b) = cur" "store_ok b" "sp_revs sp = ws_revs (s_ws b)"
    "compact_rev (s_ws b) = compact_rev (s_ws st)"
    "alike (s_index st) (s_engine st) (w_ctx w) (s_index b) (s_engine b) (w_ctx (start_work b))"
    using assms b by (simp_all add: along_def stands_for_def)
  show "batch_at b cur (start_work b) sp" using batch_start [OF b(1,2)] b(3) by simp
qed

lemma push_mark_alike [simp]:
  "alike ri snap (w_ctx (push_mark r w)) ri' snap' ctx' = alike ri snap (w_ctx w) ri' snap' ctx'"
  by (simp add: push_mark_def alike_def ctx_leases_def)

lemma along_push_mark [simp]: "along st cur (push_mark r w) sp b = along st cur w sp b"
  by (simp add: along_def)

text \<open>Requests without events leave their context.\<close>

lemma apply_inner_quiet:
  assumes at: "batch_at st cur w sp" and ms: "muts_fit ms" and s: "spec_mutations (cur + 1) ms (sp_now sp) = Inr (rs, [], S)"
  shows "w_ctx (snd (apply_inner (s_index st) (s_engine st) cur ms w)) = w_ctx w"
proof -
  have "case spec_mutations (cur + 1) ms (sp_now sp) of Inl e \<Rightarrow> True
    | Inr (rs, es, S') \<Rightarrow> \<exists>w'. apply_loop (s_index st) (s_engine st) (cur + 1) 0 ms w = (Inr (rs, es \<noteq> []), w') \<and> (es = [] \<longrightarrow> w_ctx w' = w_ctx w)"
    using apply_loop_sim [of "s_index st" "s_engine st" "current_rev (s_ws st)" "cur + 1" 0 w "sp_now sp" ms] at ms
    by (auto simp: batch_at_def muts_fit_def list_all_iff split: sum.splits prod.splits)
  then show ?thesis using s by (auto simp: apply_inner_def)
qed

lemma wrap_work:
  "snd (snd (case r of (Inl e, ex, w) \<Rightarrow> (Inl e, ex, w) | (Inr rs, ex, w) \<Rightarrow> (Inr (f rs), ex, w))) = snd (snd r)"
  by (cases r) (auto split: sum.splits)

lemma txn_ops_quiet:
  assumes "txn_env alone ri snap n before st main past" "txn_at ri snap n main sub wrote S w" "ops_fit alone sub ops"
    "spec_ops before st main past ops wrote S = Inr (rs, [], wrote', S')"
  shows "w_ctx (snd (snd (txn_ops ri snap st ops \<lparr>tx_main = main, tx_sub = int sub, tx_produced_any = wrote\<rparr> w))) = w_ctx w"
  using assms
proof (induction before st main past ops wrote S arbitrary: sub w rs wrote' S' rule: spec_ops.induct)
  case (2 before st main past r ops wrote S)
  have sub: "int sub \<le> i64_max" and ops: "ops_fit alone sub ops" and rev: "ro_revision r = 0 \<or> n = main - 1"
    using "2.prems"(1,3) by (auto simp: ops_fit_def txn_env_def)
  have env: "rv_current st = main - 1" "0 < main" "past_ok ri snap n (rv_compact st) past"
    using "2.prems"(1) by (auto simp: txn_env_def)
  from "2.prems"(4) obtain res rs2 where r: "spec_read st main past r wrote (km_map S) = Inr res"
    and o: "spec_ops before st main past ops wrote S = Inr (rs2, [], wrote', S')" by (auto simp: bind_res_eq_Inr)
  from range_op_sim [OF "2.prems"(2) sub env rev] r obtain w1 where
    w1: "range_inner ri snap (if wrote then st\<lparr>rv_current := main\<rparr> else st) r w = (Inr res, w1)"
      "w_ctx w1 = w_ctx w" "work_ok ri snap n (Revision main (int sub)) w1" by auto
  note ih = "2.IH" [OF r "2.prems"(1) txn_at_ctx [OF "2.prems"(2) w1(2,3)] ops o]
  then show ?case using w1(1,2) by (cases wrote) (simp_all add: wrap_work)
next
  case (3 before st main past m ops wrote S)
  have sub: "int sub \<le> i64_max" and ops: "ops_fit alone (sub + 1) ops" and m: "mut_ok m"
    using "3.prems"(3) by (auto simp: ops_fit_def)
  have env: "0 \<le> n" "n < main" using "3.prems"(1) by (auto simp: txn_env_def)
  from "3.prems"(4) obtain res S1 rs2 where s: "spec_mutation main m S = Inr (res, [], S1)"
    and o: "spec_ops before st main past ops (wrote \<or> [] \<noteq> ([] :: mvcc_event list)) S1 = Inr (rs2, [], wrote', S')"
    by (auto simp: bind_res_eq_Inr)
  have ok: "work_ok ri snap n (Revision main (int sub)) w" "models ri snap (w_ctx w) S" using "3.prems"(2) by (simp_all add: txn_at_def)
  from txn_at_step [OF "3.prems"(2) env sub m] s obtain w1 where w1: "apply_one ri snap (Revision main (int sub)) m w = (Inr (res, False), w1)"
    "txn_at ri snap n main (sub + 1) (wrote \<or> [] \<noteq> ([] :: mvcc_event list)) S1 w1" by auto
  have "w_ctx w1 = w_ctx w"
    using apply_one_sim [OF ok order.refl _ _ m] env sub s w1(1) by (auto simp: rv_ok_def)
  moreover note ih = "3.IH" [OF s refl refl "3.prems"(1) w1(2) ops o]
  ultimately show ?case using w1(1) by (simp add: Let_def add.commute wrap_work)
next
  case (4 before st main past compares success failure ops wrote S)
  let ?c = "list_all (spec_compare before) compares"
  let ?inner = "if ?c then success else failure"
  note fit = ops_fit_nested [OF "4.prems"(3)]
  have base: "base_ok ri snap n" using "4.prems"(2) by (simp add: txn_at_def work_ok_def)
  have "models ri snap ctx_default before" using "4.prems"(1) fit(1) by (simp add: txn_env_def)
  from evaluate_compares_result [OF base ctx_default_ok [OF base] this txn_at_values [OF "4.prems"(2)], of compares]
  obtain vc where ev: "evaluate_compares ri snap ctx_default compares (w_values w) = (Inr ?c, vc)" "cache_fits ri snap n vc" by blast
  have at: "txn_at ri snap n main sub wrote S (w\<lparr>w_values := vc\<rparr>)"
    using "4.prems"(2) ev(2) by (simp add: txn_at_def work_ok_def)
  from "4.prems"(4) obtain rs1 wrote1 S1 rs2 where
    i: "spec_ops before st main past ?inner wrote S = Inr (rs1, [], wrote1, S1)"
    and o: "spec_ops before st main past ops wrote1 S1 = Inr (rs2, [], wrote', S')"
    by (auto simp: bind_res_eq_Inr Let_def)
  from txn_ops_sim [OF "4.prems"(1) at fit(2) [of ?c]] i obtain sub1 w1 where w1:
    "txn_ops ri snap st ?inner \<lparr>tx_main = main, tx_sub = int sub, tx_produced_any = wrote\<rparr> (w\<lparr>w_values := vc\<rparr>) =
      (Inr rs1, \<lparr>tx_main = main, tx_sub = int sub1, tx_produced_any = wrote1\<rparr>, w1)"
    "sub1 \<le> sub + length (op_muts ?inner)" "txn_at ri snap n main sub1 wrote1 S1 w1" by (auto simp: txn_sim_def)
  have "w_ctx w1 = w_ctx w" using "4.IH"(1) [OF refl "4.prems"(1) at fit(2) i] w1(1) by simp
  moreover note ih = "4.IH"(2) [OF refl i refl refl refl "4.prems"(1) w1(3) fit(3) [OF w1(2)] o]
  ultimately show ?case using ev(1) w1(1) by (simp add: wrap_work)
qed simp

lemma mutations_along:
  assumes al: "along st cur w sp b" and fit: "item_fits (ItemMutations ms)" and cur: "cur < i64_max"
  shows "\<exists>out cur' w' sp' b'. item_step (s_index st) (s_engine st) (compact_rev (s_ws st)) (ItemMutations ms) (cur, w) = (Inr out, cur', w') \<and>
    apply_item_alone (ItemMutations ms) b = (Inr out, b') \<and> along st cur' w' sp' b' \<and> cur' \<le> cur + 1"
proof (cases "ms = []")
  case True
  then show ?thesis using al along_work(3,4) [OF al] store_view [of b] by (auto simp: apply_mutations_def ws_revs_def)
next
  case ne: False
  note wk = along_work [OF al]
  have ms: "muts_fit ms" "item_mutations ms \<noteq> None" using fit by simp_all
  note simA = apply_inner_sim [OF wk(1) ms(1)] and simB = apply_inner_sim [OF wk(2) ms(1)]
    and pair = apply_inner_pair [OF wk(1,2,5) ms(1)]
  show ?thesis
  proof (cases "spec_mutations (cur + 1) ms (sp_now sp)")
    case (Inl e)
    note r = spec_mutations_refusal [OF ms(2) Inl]
    from simA Inl r obtain w' where w': "apply_inner (s_index st) (s_engine st) cur ms w = (Inl (Refused KeyNotFound), w')"
      "cache_fits (s_index st) (s_engine st) (current_rev (s_ws st)) (w_values w')" "w_ctx w' = w_ctx w" by auto
    from simB Inl r obtain v where v: "apply_inner (s_index b) (s_engine b) cur ms (start_work b) = (Inl (Refused KeyNotFound), v)"
      "cache_fits (s_index b) (s_engine b) (current_rev (s_ws b)) (w_values v)" by auto
    have "along st cur w' sp (end_work v b)"
      by (rule along_idle [OF al batch_keep [OF wk(1) w'(3,2)]])
        (use wk(5) w'(3) end_work_ok [OF wk(4) v(2)] in \<open>simp_all add: end_work_def\<close>)
    moreover have "rv_current (v_revs (s_view (end_work v b))) = cur"
      using store_view [OF wk(4)] wk(3) by (simp add: end_work_def ws_revs_def)
    ultimately show ?thesis using ne w'(1) v(1) wk(3) by (auto simp: apply_mutations_def)
  next
    case (Inr x)
    obtain rs es S where x: "x = (rs, es, S)" by (metis prod_cases3)
    let ?sp = "if es = [] then sp else spec_advance (cur + 1) S sp"
    from simA Inr x obtain w' where w': "apply_inner (s_index st) (s_engine st) cur ms w = (Inr (cur + 1, rs, es \<noteq> []), w')"
      "moved st cur w sp es ?sp w'" by auto
    from simB Inr x obtain v where v: "apply_inner (s_index b) (s_engine b) cur ms (start_work b) = (Inr (cur + 1, rs, es \<noteq> []), v)"
      "moved b cur (start_work b) sp es ?sp v" by auto
    have quiet: "w_ctx v = ctx_default" if "es = []" using apply_inner_quiet [OF wk(2) ms(1)] Inr x v(1) that by force
    have a: "alike (s_index st) (s_engine st) (w_ctx w') (s_index b) (s_engine b) (w_ctx v)" using pair w'(1) v(1) by (simp add: same_end_def)
    show ?thesis
    proof (cases "es = []")
      case True
      have "cache_fits (s_index b) (s_engine b) (current_rev (s_ws b)) (w_values v)" using v(2) by (simp add: moved_def batch_at_def work_ok_def)
      from end_work_ok [OF wk(4) this] have "along st cur w' sp (end_work v b)"
        by (intro along_idle [OF al]) (use w'(2) True a quiet in \<open>simp_all add: moved_def end_work_def\<close>)
      then show ?thesis using ne True w'(1) v(1) wk(3) by (auto simp: apply_mutations_def Let_def)
    next
      case False
      then have "along st (cur + 1) w' ?sp (commit_ctx (cur + 1) (w_ctx v) (end_work v b))"
        using along_commit [OF al _ _ cur a] w'(2) v(2) by (simp add: moved_def)
      then show ?thesis using ne False w'(1) v(1) wk(3) by (fastforce simp: apply_mutations_def Let_def)
    qed
  qed
qed

lemma txn_along:
  assumes al: "along st cur w sp b" and fit: "item_fits (ItemTxn cs su fa)" and cur: "cur < i64_max"
  shows "\<exists>out cur' w' sp' b'. item_step (s_index st) (s_engine st) (compact_rev (s_ws st)) (ItemTxn cs su fa) (cur, w) = (Inr out, cur', w') \<and>
    apply_item_alone (ItemTxn cs su fa) b = (Inr out, b') \<and> along st cur' w' sp' b' \<and> cur' \<le> cur + 1"
proof -
  note wk = along_work [OF al]
  let ?c = "list_all (spec_compare (sp_now sp)) cs"
  let ?ops = "if ?c then su else fa" and ?ex = "\<lparr>tx_main = cur + 1, tx_sub = 0, tx_produced_any = False\<rparr>"
  obtain vc vc' where ev: "evaluate_compares (s_index st) (s_engine st) (w_ctx w) cs (w_values w) = (Inr ?c, vc)"
    "evaluate_compares (s_index b) (s_engine b) ctx_default cs (s_values b) = (Inr ?c, vc')"
    and at: "batch_at st cur (w\<lparr>w_values := vc\<rparr>) sp" "batch_at b cur ((start_work b)\<lparr>w_values := vc'\<rparr>) sp"
    by (rule compares_pair [OF wk(1,2), of cs]) simp
  have plain: "list_all plain_op ?ops" "ops_fit False 0 ?ops" using fit by (auto simp: item_txn_def split: if_splits)
  have rv: "sp_revs sp = \<lparr>rv_current = cur, rv_compact = compact_rev (s_ws st)\<rparr>" "0 \<le> cur" using wk(1) by (auto simp: batch_at_def)
  obtain rs es wrote S where sp: "spec_ops (sp_now sp) (sp_revs sp) (cur + 1) (sp_past sp) ?ops False (sp_now sp) = Inr (rs, es, wrote, S)"
    using spec_plain_accepted [OF plain(1), of "sp_revs sp" "cur + 1"] rv
    by (metis add_increasing prod_cases4 revs.select_convs(1) zero_le_one add_nonneg_nonneg)
  have al0: "alike (s_index st) (s_engine st) (w_ctx (w\<lparr>w_values := vc\<rparr>)) (s_index b) (s_engine b) (w_ctx ((start_work b)\<lparr>w_values := vc'\<rparr>))"
    using wk(5) by simp
  let ?sp = "if es = [] then sp else spec_advance (cur + 1) S sp"
  from txn_run_sim [OF at(1) plain(2)] sp obtain suba w' where w': "txn_ops (s_index st) (s_engine st) (sp_revs sp) ?ops ?ex (w\<lparr>w_values := vc\<rparr>) =
      (Inr rs, \<lparr>tx_main = cur + 1, tx_sub = int suba, tx_produced_any = wrote\<rparr>, w')" "wrote \<longleftrightarrow> es \<noteq> []"
    "moved st cur (w\<lparr>w_values := vc\<rparr>) sp es ?sp w'" by auto
  from txn_run_sim [OF at(2) plain(2)] sp obtain subb v where v: "txn_ops (s_index b) (s_engine b) (sp_revs sp) ?ops ?ex ((start_work b)\<lparr>w_values := vc'\<rparr>) =
      (Inr rs, \<lparr>tx_main = cur + 1, tx_sub = int subb, tx_produced_any = wrote\<rparr>, v)"
    "moved b cur ((start_work b)\<lparr>w_values := vc'\<rparr>) sp es ?sp v" by auto
  have a: "alike (s_index st) (s_engine st) (w_ctx w') (s_index b) (s_engine b) (w_ctx v)"
    using txn_run_pair [OF at al0 plain(2)] w'(1) v(1) by (simp add: same_txn_def)
  have env: "txn_env False (s_index b) (s_engine b) (current_rev (s_ws b)) (sp_now sp) (sp_revs sp) (cur + 1) (sp_past sp)"
    "txn_at (s_index b) (s_engine b) (current_rev (s_ws b)) (cur + 1) 0 False (sp_now sp) ((start_work b)\<lparr>w_values := vc'\<rparr>)"
    using at(2) batch_past_ok [OF at(2)] batch_fresh [OF at(2)] by (simp_all add: txn_env_def txn_at_def batch_at_def)
  have quiet: "w_ctx v = ctx_default" if "es = []"
    using txn_ops_quiet [OF env plain(2)] sp v(1) that by simp
  let ?w = "w'\<lparr>w_ops := count_txn (w_ops w')\<rparr>"
  show ?thesis
  proof (cases "es = []")
    case True
    have "cache_fits (s_index b) (s_engine b) (current_rev (s_ws b)) (w_values v)" using v(2) by (simp add: moved_def batch_at_def work_ok_def)
    from end_work_ok [OF wk(4) this] have "along st cur ?w sp ((end_work v b)\<lparr>s_ops := count_txn (s_ops (end_work v b))\<rparr>)"
      by (intro along_idle [OF al]) (use w'(3) True a quiet in \<open>simp_all add: moved_def end_work_def\<close>)
    then show ?thesis using True ev w'(1,2) v(1) wk(3,6) rv by (auto simp: txn_def Let_def end_work_def)
  next
    case False
    have "along st (cur + 1) ?w ?sp (commit_ctx (cur + 1) (w_ctx v) (end_work v b))"
      by (rule along_commit [OF al _ _ cur]) (use w'(3) v(2) a False in \<open>simp_all add: moved_def\<close>)
    then have "along st (cur + 1) (push_mark (cur + 1) ?w) ?sp ((commit_ctx (cur + 1) (w_ctx v) (end_work v b))\<lparr>s_ops := x\<rparr>)" for x
      by (simp add: along_def)
    then show ?thesis using False ev w'(1,2) v(1) wk(3,6) rv by (fastforce simp: txn_def Let_def)
  qed
qed

lemma items_along:
  assumes "along st cur w sp b" "list_all item_fits items" "cur + int (length items) \<le> i64_max"
  shows "\<exists>outs cur' w' sp' b'. apply_items (s_index st) (s_engine st) (compact_rev (s_ws st)) items (cur, w) = (Inr outs, cur', w') \<and>
    apply_each items b = (Inr outs, b') \<and> along st cur' w' sp' b' \<and> cur' \<le> cur + int (length items)"
  using assms
proof (induction items arbitrary: cur w sp b)
  case Nil
  then show ?case by auto
next
  case (Cons item items)
  have lt: "cur < i64_max" and fit: "item_fits item" "list_all item_fits items" using Cons.prems(2,3) by simp_all
  have "\<exists>out cur' w' sp' b'. item_step (s_index st) (s_engine st) (compact_rev (s_ws st)) item (cur, w) = (Inr out, cur', w') \<and>
      apply_item_alone item b = (Inr out, b') \<and> along st cur' w' sp' b' \<and> cur' \<le> cur + 1"
  proof (cases item)
    case (ItemMutations ms)
    then show ?thesis using mutations_along [OF Cons.prems(1) _ lt, of ms] fit(1) by blast
  next
    case (ItemTxn cs su fa)
    then show ?thesis using txn_along [OF Cons.prems(1) _ lt, of cs su fa] fit(1) by blast
  qed
  then obtain out cur1 w1 sp1 b1 where one: "item_step (s_index st) (s_engine st) (compact_rev (s_ws st)) item (cur, w) = (Inr out, cur1, w1)"
    "apply_item_alone item b = (Inr out, b1)" "along st cur1 w1 sp1 b1" "cur1 \<le> cur + 1" by blast
  have "cur1 + int (length items) \<le> i64_max" using one(4) Cons.prems(3) by simp
  from Cons.IH [OF one(3) fit(2) this] obtain outs cur2 w2 sp2 b2 where
    "apply_items (s_index st) (s_engine st) (compact_rev (s_ws st)) items (cur1, w1) = (Inr outs, cur2, w2)"
    "apply_each items b1 = (Inr outs, b2)" "along st cur2 w2 sp2 b2" "cur2 \<le> cur1 + int (length items)" by blast
  then show ?case using one by fastforce
qed

lemma apply_many_twin:
  assumes st: "store_ok st" and fit: "list_all item_fits items" and cur: "current_rev (s_ws st) + int (length items) \<le> i64_max"
  shows "fst (apply_many items st) = fst (apply_each items st) \<and> twin (snd (apply_many items st)) (snd (apply_each items st))"
proof -
  let ?n = "current_rev (s_ws st)"
  from items_along [OF along_start [OF st] fit cur] obtain outs cur' w' sp' b where
    r: "apply_items (s_index st) (s_engine st) (compact_rev (s_ws st)) items (?n, start_work st) = (Inr outs, cur', w')"
      "apply_each items st = (Inr outs, b)" "along st cur' w' sp' b" "cur' \<le> ?n + int (length items)" by blast
  note wk = along_work [OF r(3)]
  have ew: "current_rev (s_ws (end_work w' st)) = ?n" by (simp add: end_work_def)
  show ?thesis
  proof (cases "cur' = ?n")
    case True
    then have t: "twin st b" using r(3) by (simp add: along_def)
    have "cache_fits (s_index st) (s_engine st) ?n (w_values w')" using wk(1) by (simp add: batch_at_def work_ok_def)
    from idle_twin [OF end_work_ok [OF st this] st] have "twin (end_work w' st) st" by (simp add: end_work_def)
    from twin_trans [OF this t] show ?thesis using True r(1,2) ew by (simp add: apply_many_def)
  next
    case False
    have c: "cur' \<le> i64_max" using r(4) cur by simp
    note ca = commit_alike [OF st wk(1) c]
    have "twin (commit_ctx cur' (w_ctx w') (end_work w' st)) b"
      using ca commit_batch_at(1) [OF st wk(1) c] r(3) alike_trans [OF alike_sym [OF ca(1)]]
      by (simp add: twin_def same_tables_def along_def)
    then show ?thesis using False r(1,2) ew by (simp add: apply_many_def)
  qed
qed

end
