(* ===== verification/Mvcc_Twins.thy ===== *)
theory Mvcc_Twins
  imports Mvcc_Caching
begin

text \<open>
  Every operation of the log does the same to two stores with the same tables: the same answer and
  the same tables again. Two members that apply the same entries stay equal, whatever their caches
  hold and whether one of them restarted in between.
\<close>

section \<open>Requests\<close>

lemma apply_item_alone_twin:
  assumes t: "twin a b" and fit: "item_fits item" and cur: "current_rev (s_ws a) < i64_max"
  shows "fst (apply_item_alone item b) = fst (apply_item_alone item a) \<and> twin (snd (apply_item_alone item a)) (snd (apply_item_alone item b))"
proof (cases item)
  case (ItemMutations ms)
  have "muts_fit ms" using fit ItemMutations by simp
  note s = apply_twin [OF t this cur]
  obtain x sa y sb where r: "apply_mutations ms a = (x, sa)" "apply_mutations ms b = (y, sb)" by fastforce
  then have "y = x" "twin sa sb" using s by simp_all
  then show ?thesis using ItemMutations r twin_view [of sa sb] by (auto split: sum.splits mvcc_error.splits)
next
  case (ItemTxn cs su fa)
  have "ops_fit True 0 su" "ops_fit True 0 fa" using fit ItemTxn ops_fit_alone by simp_all
  note s = txn_twin [OF t cur this, of cs]
  obtain x sa y sb where r: "txn cs su fa a = (x, sa)" "txn cs su fa b = (y, sb)" by fastforce
  then have "y = x" "twin sa sb" using s by simp_all
  then show ?thesis using ItemTxn r by (auto split: sum.splits)
qed

lemma item_alone_current:
  assumes "store_ok st" "item_fits item" "current_rev (s_ws st) < i64_max"
  shows "current_rev (s_ws (snd (apply_item_alone item st))) \<le> current_rev (s_ws st) + 1"
proof -
  note sp = abs_store_stands [OF assms(1)]
  obtain r bs sp' where s: "spec_item item (abs_store st) = (r, bs, sp')" by (metis prod_cases3)
  have "stands_for (snd (apply_item_alone item st)) sp'"
    using item_alone_refines [OF assms(1) sp assms(2,3)] s by (auto simp: refines_def split: prod.splits)
  then show ?thesis using spec_item_current [OF s] stands_current stands_current [OF sp] by metis
qed

lemma apply_each_twin:
  assumes "twin a b" "list_all item_fits items" "current_rev (s_ws a) + int (length items) \<le> i64_max"
  shows "fst (apply_each items b) = fst (apply_each items a) \<and> twin (snd (apply_each items a)) (snd (apply_each items b))"
  using assms
proof (induction items arbitrary: a b)
  case (Cons item items)
  have lt: "current_rev (s_ws a) < i64_max" and fit: "item_fits item" "list_all item_fits items" using Cons.prems(2,3) by simp_all
  obtain x sa y sb where r: "apply_item_alone item a = (x, sa)" "apply_item_alone item b = (y, sb)" by fastforce
  then have yx: "y = x" and t: "twin sa sb" using apply_item_alone_twin [OF Cons.prems(1) fit(1) lt] by simp_all
  have "current_rev (s_ws sa) \<le> current_rev (s_ws a) + 1"
    using item_alone_current [OF twin_store(1) [OF Cons.prems(1)] fit(1) lt] r(1) by simp
  then have ih: "fst (apply_each items sb) = fst (apply_each items sa) \<and> twin (snd (apply_each items sa)) (snd (apply_each items sb))"
    using Cons.IH [OF t fit(2)] Cons.prems(3) by simp
  obtain u ta v tb where "apply_each items sa = (u, ta)" "apply_each items sb = (v, tb)" by fastforce
  then show ?case using ih r yx t by (cases x; cases u) auto
qed simp

lemma apply_many_twins:
  assumes t: "twin a b" and fit: "list_all item_fits items" and cur: "current_rev (s_ws a) + int (length items) \<le> i64_max"
  shows "fst (apply_many items b) = fst (apply_many items a) \<and> twin (snd (apply_many items a)) (snd (apply_many items b))"
proof -
  note st = twin_store [OF t]
  have "current_rev (s_ws b) + int (length items) \<le> i64_max" using cur st(3) by simp
  with apply_many_twin [OF st(1) fit cur] apply_many_twin [OF st(2) fit] apply_each_twin [OF t fit cur]
  show ?thesis using twin_trans twin_sym by metis
qed

section \<open>Compaction, leases, auth\<close>

lemma same_tables_eq:
  "same_tables a b \<longleftrightarrow> ri_gens (s_index b) = ri_gens (s_index a) \<and> eng_kv (s_engine b) = eng_kv (s_engine a) \<and>
     eng_lk (s_engine b) = eng_lk (s_engine a) \<and> t_lease (s_engine b) = t_lease (s_engine a) \<and>
     t_auth (s_engine b) = t_auth (s_engine a) \<and> s_ws b = s_ws a"
  by (auto simp: same_tables_def alike_def)

lemma twinI:
  assumes "store_ok a" "store_ok b" "ri_gens (s_index b) = ri_gens (s_index a)" "eng_kv (s_engine b) = eng_kv (s_engine a)"
    "eng_lk (s_engine b) = eng_lk (s_engine a)" "t_lease (s_engine b) = t_lease (s_engine a)"
    "t_auth (s_engine b) = t_auth (s_engine a)" "s_ws b = s_ws a"
  shows "twin a b"
  using assms by (simp add: twin_def same_tables_eq)

lemma compact_rows_other:
  "t_lease (engine_commit e (compact_rows c idxs)) = t_lease e \<and> t_auth (engine_commit e (compact_rows c idxs)) = t_auth e"
proof (induction idxs arbitrary: e)
  case (Cons i idxs)
  have "t_lease (engine_commit x (map (KvDelete k) rs)) = t_lease x \<and> t_auth (engine_commit x (map (KvDelete k) rs)) = t_auth x" for x k rs
    by (induction rs arbitrary: x) (simp_all add: engine_commit_def)
  then have "t_lease (engine_commit e (fst (compact_key c i))) = t_lease e \<and> t_auth (engine_commit e (fst (compact_key c i))) = t_auth e"
    by (simp add: compact_key_result commit_append)
  then show ?case using Cons.IH by (simp add: compact_rows_def commit_append)
qed (simp add: compact_rows_def engine_commit_def)

lemma compact_twin:
  assumes t: "twin a b"
  shows "fst (compact rv b) = fst (compact rv a) \<and> twin (snd (compact rv a)) (snd (compact rv b))"
proof (cases "0 < rv \<and> rv \<le> current_rev (s_ws a) \<and> compact_rev (s_ws a) < rv")
  case True
  note st = twin_store [OF t]
  have rv: "0 < rv" "rv \<le> current_rev (s_ws st)" "compact_rev (s_ws st) < rv" if "st = a \<or> st = b" for st using True that st(3) by auto
  have ok: "store_ok (compacted rv st) \<and> s_ws (compacted rv st) = (s_ws st)\<lparr>compact_rev := rv\<rparr> \<and> fst (compact rv st) = Inr rv \<and>
      ri_gens (s_index (compacted rv st)) = kept_gens (Revision rv i64_max) (ri_gens (s_index st)) \<and>
      eng_kv (s_engine (compacted rv st)) = kept_kv (Revision rv i64_max) (ri_gens (s_index st)) (eng_kv (s_engine st)) \<and>
      eng_lk (s_engine (compacted rv st)) = eng_lk (s_engine st) \<and>
      t_lease (s_engine (compacted rv st)) = t_lease (s_engine st) \<and> t_auth (s_engine (compacted rv st)) = t_auth (s_engine st)"
    if "st = a \<or> st = b" for st
  proof -
    have "store_ok st" using that st by auto
    note r = rv [OF that]
    show ?thesis
      using compact_ok [OF \<open>store_ok st\<close> r] compact_fields(1,2,4) [OF r] compact_tables [OF \<open>store_ok st\<close> r] compact_rows_other
        meta_ops_keep [OF meta_puts_ops, of _ "s_pending st"]
      by (simp add: commit_append write_i64_def) 
  qed
  show ?thesis
    using ok [of a] ok [of b] twin_tables [OF t] st(3) by (auto intro!: twinI simp: compacted_def)
next
  case False
  then show ?thesis using t twin_store(3) [OF t] by (auto simp: compact_def)
qed

lemma grant_twin:
  assumes t: "twin a b" and lid: "i64_ok (granted_id lid a)"
  shows "fst (apply_lease_grant now' lid ttl now_unix b) = fst (apply_lease_grant now lid ttl now_unix a) \<and>
    twin (snd (apply_lease_grant now lid ttl now_unix a)) (snd (apply_lease_grant now' lid ttl now_unix b))"
proof (cases "0 < ttl")
  case True
  note st = twin_store [OF t]
  have g: "granted_id lid b = granted_id lid a" by (simp add: granted_id_def st(3))
  from grant_result [OF st(1) True lid, of now now_unix] obtain sa where sa:
    "apply_lease_grant now lid ttl now_unix a = (Inr \<lparr>lg_id = granted_id lid a, lg_ttl_secs = ttl, lg_revision = current_rev (s_ws a)\<rparr>, sa)"
    "store_ok sa" "t_lease (s_engine sa) = fmupd (lease_id_key (granted_id lid a)) \<lparr>ls_id = granted_id lid a, ls_ttl_secs = ttl,
       ls_deadline_unix_secs = saturating_add_i64 now_unix ttl\<rparr> (t_lease (s_engine a))" by auto
  from grant_result [OF st(2) True, of lid now' now_unix] lid g obtain sb where sb:
    "apply_lease_grant now' lid ttl now_unix b = (Inr \<lparr>lg_id = granted_id lid a, lg_ttl_secs = ttl, lg_revision = current_rev (s_ws b)\<rparr>, sb)"
    "store_ok sb" "t_lease (s_engine sb) = fmupd (lease_id_key (granted_id lid a)) \<lparr>ls_id = granted_id lid a, ls_ttl_secs = ttl,
       ls_deadline_unix_secs = saturating_add_i64 now_unix ttl\<rparr> (t_lease (s_engine b))" by auto
  have f: "s_index s = s_index st \<and> eng_kv (s_engine s) = eng_kv (s_engine st) \<and> eng_lk (s_engine s) = eng_lk (s_engine st) \<and>
      t_auth (s_engine s) = t_auth (s_engine st) \<and> s_ws s = (s_ws st)\<lparr>next_lease_id := max (next_lease_id (s_ws st)) (granted_id lid st)\<rparr>"
    if "apply_lease_grant n lid ttl now_unix st = (r, s)" for n st r s
    using that True meta_ops_keep [OF meta_puts_ops, of _ "s_pending st"]
    by (auto simp: apply_lease_grant_def granted_id_def Let_def write_i64_def commit_folded_eq stamp_lease_applied_def max_def
        commit_append eng_kv_def eng_lk_def fun_eq_iff split: if_splits)
  show ?thesis
    using sa sb f [OF sa(1)] f [OF sb(1)] twin_tables [OF t] st(3) g by (auto intro!: twinI)
next
  case False
  then show ?thesis using t by (simp add: apply_lease_grant_def)
qed

lemma lease_row_commit:
  "s_index (commit_folded [LeasePut k l] st) = s_index st" "s_ws (commit_folded [LeasePut k l] st) = s_ws st"
  "eng_kv (s_engine (commit_folded [LeasePut k l] st)) = eng_kv (s_engine st)"
  "eng_lk (s_engine (commit_folded [LeasePut k l] st)) = eng_lk (s_engine st)"
  "t_auth (s_engine (commit_folded [LeasePut k l] st)) = t_auth (s_engine st)"
  "t_lease (s_engine (commit_folded [LeasePut k l] st)) = fmupd k l (t_lease (s_engine st))"
  using meta_ops_keep [OF meta_puts_ops, of "store_op_apply (s_engine st) (LeasePut k l)" "s_pending st"]
  by (simp_all add: commit_folded_eq eng_kv_def eng_lk_def fun_eq_iff)

lemma keepalive_twin:
  assumes t: "twin a b"
  shows "fst (apply_lease_keepalive now' lid now_unix b) = fst (apply_lease_keepalive now lid now_unix a) \<and>
    twin (snd (apply_lease_keepalive now lid now_unix a)) (snd (apply_lease_keepalive now' lid now_unix b))"
proof (cases "fmlookup (t_lease (s_engine a)) (lease_id_key lid)")
  case None
  then show ?thesis using t twin_tables(4) [OF t] by (simp add: apply_lease_keepalive_def)
next
  case (Some rec)
  note st = twin_store [OF t]
  have ok: "store_ok (snd (apply_lease_keepalive n lid now_unix s))" if "store_ok s" for n s
    using keepalive_keeps [OF that] by (simp add: keeps_def)
  show ?thesis
    using Some ok [OF st(1), of now] ok [OF st(2), of now'] twin_tables [OF t] st(3)
    by (auto simp: apply_lease_keepalive_def Let_def stamp_lease_applied_def lease_row_commit intro!: twinI)
qed

lemma apply_auth_twin:
  assumes t: "twin a b"
  shows "fst (apply_auth now' op b) = fst (apply_auth now op a) \<and> twin (snd (apply_auth now op a)) (snd (apply_auth now' op b))"
proof (cases "plan (t_auth (s_engine a)) op")
  case (Inl e)
  then show ?thesis using t twin_tables(5) [OF t] twin_view [OF t] by (simp add: apply_auth_def)
next
  case (Inr x)
  obtain ws fx where x: "x = (ws, fx)" by fastforce
  note st = twin_store [OF t]
  have ok: "store_ok (snd (apply_auth n op s))" if "store_ok s" for n s
    using same_data_keeps [OF that apply_auth_data [OF that]] by (simp add: keeps_def)
  let ?b = "\<lambda>st. map AuthWrite ws @ map (\<lambda>(k, v). MetaPut k v) (s_pending st)"
  have auth: "t_auth (engine_commit e (map AuthWrite ws)) = foldl auth_write_apply (t_auth e) ws \<and>
      t_kv (engine_commit e (map AuthWrite ws)) = t_kv e \<and> t_lease_keys (engine_commit e (map AuthWrite ws)) = t_lease_keys e \<and>
      t_lease (engine_commit e (map AuthWrite ws)) = t_lease e" for e
    by (induction ws arbitrary: e) (simp_all add: engine_commit_def)
  have f: "s_index (snd (apply_auth n op s)) = s_index s \<and> s_ws (snd (apply_auth n op s)) = s_ws s \<and>
      eng_kv (s_engine (snd (apply_auth n op s))) = eng_kv (s_engine s) \<and> eng_lk (s_engine (snd (apply_auth n op s))) = eng_lk (s_engine s) \<and>
      t_lease (s_engine (snd (apply_auth n op s))) = t_lease (s_engine s) \<and>
      t_auth (s_engine (snd (apply_auth n op s))) = foldl auth_write_apply (t_auth (s_engine s)) ws \<and>
      fst (apply_auth n op s) = (rv_current (v_revs (s_view s)), Inr ())" if "plan (t_auth (s_engine s)) op = Inr (ws, fx)" for n s
    using that auth meta_ops_keep [OF meta_puts_ops, of _ "s_pending s"]
    by (auto simp: apply_auth_def fold_raft_meta_eq Let_def commit_append eng_kv_def eng_lk_def fun_eq_iff)
  show ?thesis
    using f [of a now] f [of b now'] Inr x twin_tables [OF t] twin_view [OF t] st(3) ok [OF st(1), of now] ok [OF st(2), of now']
    by (auto intro!: twinI)
qed

lemma lease_applied_twin [simp]:
  "twin (a\<lparr>s_lease_applied := x\<rparr>) b = twin a b" "twin a (b\<lparr>s_lease_applied := x\<rparr>) = twin a b"
  by (simp_all add: twin_def same_tables_def)

lemma lease_delete_twin:
  assumes t: "twin a b"
  shows "twin (commit_folded [LeaseDelete k] a) (commit_folded [LeaseDelete k] b)"
proof -
  note st = twin_store [OF t]
  have f: "store_ok (commit_folded [LeaseDelete k] s) \<and> s_index (commit_folded [LeaseDelete k] s) = s_index s \<and>
      s_ws (commit_folded [LeaseDelete k] s) = s_ws s \<and> eng_kv (s_engine (commit_folded [LeaseDelete k] s)) = eng_kv (s_engine s) \<and>
      eng_lk (s_engine (commit_folded [LeaseDelete k] s)) = eng_lk (s_engine s) \<and>
      t_auth (s_engine (commit_folded [LeaseDelete k] s)) = t_auth (s_engine s) \<and>
      t_lease (s_engine (commit_folded [LeaseDelete k] s)) = fmdrop k (t_lease (s_engine s))" if "store_ok s" for s
  proof -
    have "i64_ok (next_lease_id (s_ws s))" "or_zero (read_i64 (engine_commit (s_engine s) [LeaseDelete k]) META_KEY_NEXT_LEASE_ID) = next_lease_id (s_ws s)"
      using that by (simp_all add: store_ok_def meta_ok_def read_i64_def)
    from quiet_commit(1) [OF that abs_store_stands [OF that] _ this] have "store_ok (commit_folded [LeaseDelete k] s)" by simp
    then show ?thesis using meta_ops_keep [OF meta_puts_ops, of "store_op_apply (s_engine s) (LeaseDelete k)" "s_pending s"]
      by (simp add: commit_folded_eq eng_kv_def eng_lk_def fun_eq_iff)
  qed
  show ?thesis using f [OF st(1)] f [OF st(2)] twin_tables [OF t] st(3) by (auto intro!: twinI)
qed

lemma lease_deletes_alike:
  assumes a: "alike ri snap (w_ctx w) ri' snap' (w_ctx w')" and none: "\<forall>x \<in> set xs. \<not> ctx_lk snap (w_ctx w) x"
  shows "alike ri snap (w_ctx (with_lease_deletes lk xs w)) ri' snap' (w_ctx (with_lease_deletes lk xs w'))"
proof -
  have none': "\<forall>x \<in> set xs. \<not> ctx_lk snap' (w_ctx w') x" using none a by (simp add: alike_def)
  have "ctx_leases s (w_ctx (with_lease_deletes lk xs v)) = fmdrop lk (ctx_leases s (w_ctx v))" for s v
    by (simp add: ctx_leases_def with_lease_deletes_def commit_append lease_key_deletes)
  then show ?thesis
    using a by (simp add: alike_def lease_deletes_tables [OF none] lease_deletes_tables [OF none'])
qed

lemma revoke_form:
  assumes "lease_entries (s_engine st) lid = map (lease_key_index lid) ks" "i64_ok lid" "ks \<noteq> []"
    and "apply_inner (s_index st) (s_engine st) (current_rev (s_ws st)) (map (\<lambda>k. MutDeleteRange k [] False) ks) (start_work st) = (Inr (rv, rs, True), w)"
  defines "w' \<equiv> with_lease_deletes (lease_id_key lid) (map (lease_key_index lid) ks) w"
  shows "\<exists>x. snd (apply_lease_revoke lid st) = (commit_ctx rv (w_ctx w') (end_work w' st))\<lparr>s_lease_applied := x\<rparr>"
proof -
  have "end_work w' st = end_work w st" by (simp add: end_work_def w'_def with_lease_deletes_def)
  then show ?thesis
    using assms collect_keys_index [OF assms(2), of ks] by (auto simp: apply_lease_revoke_def Let_def with_lease_deletes_def)
qed

lemma revoke_twin:
  assumes t: "twin a b" and lid: "lease_id_ok lid" and cur: "current_rev (s_ws a) < i64_max"
    and len: "int (length (attached lid (kv_at a (current_rev (s_ws a))))) \<le> i64_max"
  shows "fst (apply_lease_revoke lid b) = fst (apply_lease_revoke lid a) \<and> twin (snd (apply_lease_revoke lid a)) (snd (apply_lease_revoke lid b))"
proof -
  note st = twin_store [OF t]
  let ?n = "current_rev (s_ws a)" and ?sp = "abs_store a"
  let ?ks = "attached lid (km_map (sp_now ?sp))"
  let ?ms = "map (\<lambda>k. MutDeleteRange k [] False) ?ks"
  note sa = abs_store_stands [OF st(1)]
  note sb = twin_stands [OF t sa]
  have len': "int (length ?ks) \<le> i64_max" using len by (simp add: abs_store_def)
  have curb: "current_rev (s_ws b) < i64_max" using cur st(3) by simp
  have fst: "fst (apply_lease_revoke lid b) = fst (apply_lease_revoke lid a)"
    using revoke_spec [OF st(1) sa lid cur len'] revoke_spec [OF st(2) sb lid curb len'] st(3) by auto
  have ent: "lease_entries (s_engine a) lid = map (lease_key_index lid) ?ks" "lease_entries (s_engine b) lid = map (lease_key_index lid) ?ks"
    using models_attached [OF st(1) _ lid] models_attached [OF st(2) _ lid] sa sb by (simp_all add: stands_for_def)
  have ok: "i64_ok lid" using lid by (simp add: lease_id_ok_def)
  show ?thesis
  proof (cases "?ks = []")
    case True
    have "end_work (start_work s) s = s" for s by (simp add: end_work_def start_work_def)
    then show ?thesis using True ent fst lease_delete_twin [OF t, of "lease_id_key lid"]
      by (simp add: apply_lease_revoke_def Let_def ctx_default_def)
  next
    case False
    have "distinct ?ks" "\<forall>k \<in> set ?ks. fmlookup (km_map (sp_now ?sp)) k \<noteq> None"
      using attached_sorted [of lid "km_map (sp_now ?sp)"] by (auto simp: in_attached strict_sorted_iff)
    from spec_deletes [OF this, of "?n + 1"] obtain es S where
      S: "spec_mutations (?n + 1) ?ms (sp_now ?sp) = Inr (replicate (length ?ks) \<lparr>mr_n = 1, mr_prev_kvs = []\<rparr>, es, S)"
        "length es = length ?ks" "km_map S = fmfilter (\<lambda>k. k \<notin> set ?ks) (km_map (sp_now ?sp))" by blast
    have es: "es \<noteq> []" using S(2) False by auto
    have ms: "muts_fit ?ms" using len' by (simp add: muts_fit_def list_all_iff)
    have bb: "batch_at b ?n (start_work b) ?sp" using batch_start [OF st(2) sb] st(3) by simp
    note ba = batch_start [OF st(1) sa]
    from apply_inner_sim [OF ba ms] S(1) es obtain w where
      w: "apply_inner (s_index a) (s_engine a) ?n ?ms (start_work a) = (Inr (?n + 1, replicate (length ?ks) \<lparr>mr_n = 1, mr_prev_kvs = []\<rparr>, True), w)"
        "moved a ?n (start_work a) ?sp es (spec_advance (?n + 1) S ?sp) w" by auto
    from apply_inner_sim [OF bb ms] S(1) es obtain v where
      v: "apply_inner (s_index b) (s_engine b) ?n ?ms (start_work b) = (Inr (?n + 1, replicate (length ?ks) \<lparr>mr_n = 1, mr_prev_kvs = []\<rparr>, True), v)"
        "moved b ?n (start_work b) ?sp es (spec_advance (?n + 1) S ?sp) v" by auto
    have "alike (s_index a) (s_engine a) (w_ctx (start_work a)) (s_index b) (s_engine b) (w_ctx (start_work b))"
      using t by (simp add: twin_def same_tables_def)
    from apply_inner_pair [OF ba bb this ms] w(1) v(1) have al: "alike (s_index a) (s_engine a) (w_ctx w) (s_index b) (s_engine b) (w_ctx v)"
      by (auto simp: same_end_def)
    have at: "batch_at a (?n + 1) w (spec_advance (?n + 1) S ?sp)" "batch_at b (?n + 1) v (spec_advance (?n + 1) S ?sp)"
      using w(2) v(2) es by (simp_all add: moved_def)
    have gone: "\<forall>k \<in> set ?ks. fmlookup (km_map (sp_now (spec_advance (?n + 1) S ?sp))) k = None" using S(3) by (simp add: spec_advance_def)
    note na = entries_gone [OF at(1) lid gone] and nb = entries_gone [OF at(2) lid gone]
    let ?d = "with_lease_deletes (lease_id_key lid) (map (lease_key_index lid) ?ks)"
    have "twin (commit_ctx (?n + 1) (w_ctx (?d w)) (end_work (?d w) a)) (commit_ctx (?n + 1) (w_ctx (?d v)) (end_work (?d v) b))"
      by (rule commit_twin [OF st(1,2) lease_deletes_batch [OF at(1) na] lease_deletes_batch [OF at(2) nb] _ lease_deletes_alike [OF al na]])
        (use cur st(3) twin_tables(5) [OF t] in simp_all)
    moreover obtain x where "snd (apply_lease_revoke lid a) = (commit_ctx (?n + 1) (w_ctx (?d w)) (end_work (?d w) a))\<lparr>s_lease_applied := x\<rparr>"
      using revoke_form [OF ent(1) ok False w(1)] by blast
    moreover obtain y where "snd (apply_lease_revoke lid b) = (commit_ctx (?n + 1) (w_ctx (?d v)) (end_work (?d v) b))\<lparr>s_lease_applied := y\<rparr>"
      using revoke_form [OF ent(2) ok False] v(1) st(3) by auto
    ultimately show ?thesis using fst by simp
  qed
qed

lemma same_data_twin:
  assumes "store_ok a" "same_data a a'" "t_lease (s_engine a') = t_lease (s_engine a)" "t_auth (s_engine a') = t_auth (s_engine a)"
  shows "twin a a'"
proof -
  obtain b where b: "list_all side_op b" "s_engine a' = engine_commit (s_engine a) b" using assms(2) by (auto simp: same_data_def)
  note k = side_ops_keep [OF b(1), of "s_engine a"]
  have "store_ok a'" using same_data_keeps [OF assms(1,2)] by (simp add: keeps_def)
  then show ?thesis using assms k by (auto intro!: twinI simp: same_data_def b(2) eng_kv_def eng_lk_def fun_eq_iff)
qed

lemma stage_twin:
  assumes "store_ok a"
  shows "twin a (stage_raft_meta applied m a)" "twin a (stage_batch_progress p a)" "twin a (stage_batched_marker a)"
  using idle_twin [OF assms] same_data_keeps [OF assms stage_raft_meta_data [OF assms]]
    same_data_keeps [OF assms stage_batch_progress_data [OF assms]] same_data_keeps [OF assms stage_batched_marker_data [OF assms]]
  by (simp_all add: keeps_def stage_raft_meta_def stage_batch_progress_def stage_batched_marker_def Let_def split: option.split)

lemma flush_twin: "store_ok a \<Longrightarrow> twin a (flush_raft_meta a)"
  using same_data_twin [OF _ flush_raft_meta_data] meta_ops_keep [OF meta_puts_ops, of "s_engine a" "s_pending a"]
  by (simp add: flush_raft_meta_def fold_raft_meta_eq)

lemma cluster_twin: "store_ok a \<Longrightarrow> twin a (snd (apply_cluster_id cid a))"
  using same_data_twin [OF _ apply_cluster_id_data] meta_ops_keep [OF meta_puts_ops, of _ "s_pending a"]
  by (auto simp: apply_cluster_id_def fold_raft_meta_eq Let_def commit_append split: option.split)

text \<open>A restart: the store opened on the tables.\<close>

lemma reopen_twin:
  assumes "store_ok st" "\<forall>b. fmlookup (t_meta (s_engine st)) META_KEY_CLUSTER_ID = Some b \<longrightarrow> length b = 8"
  shows "\<exists>st'. open_with hash now (s_engine st) cfg = Inr st' \<and> twin st st'"
proof -
  from open_ok [OF store_ok_engine [OF assms(1)] assms(2), of hash now cfg] obtain st' where st':
    "open_with hash now (s_engine st) cfg = Inr st'" "store_ok st'"
    "s_ws st' = \<lparr>current_rev = or_zero (read_i64 (s_engine st) META_KEY_CURRENT_REV),
      compact_rev = or_zero (read_i64 (s_engine st) META_KEY_COMPACT_REV),
      next_lease_id = or_zero (read_i64 (s_engine st) META_KEY_NEXT_LEASE_ID)\<rparr>"
    "eng_kv (s_engine st') = eng_kv (s_engine st)" "ri_gens (s_index st') = engine_gens (s_engine st)" by blast
  have ws: "s_ws st' = s_ws st" using st'(3) assms(1) by (simp add: store_ok_def meta_ok_def)
  have "eng_lk (s_engine st') = eng_lk (s_engine st) \<and> t_lease (s_engine st') = t_lease (s_engine st) \<and> t_auth (s_engine st') = t_auth (s_engine st)"
    using st'(1) unfolding open_with_def Let_def bind_res_def
    by (auto simp: load_index_def reload_auth_def write_i64_def eng_lk_def Let_def split: sum.splits if_splits)
  then have "twin st st'" using st' ws store_engine_gens [OF assms(1)] assms(1) by (auto intro!: twinI)
  then show ?thesis using st'(1) by blast
qed

end
