(* ===== verification/Raft_Types.thy ===== *)
theory Raft_Types
  imports Mvcc_Store
begin

text \<open>
  What the raft log carries, \<^verbatim>\<open>crates/raft/src/types.rs\<close>: the entries of the log and the responses
  of the state machine to them; and, of the openraft types they meet, log ids and memberships.
\<close>

section \<open>Log ids and memberships\<close>

text \<open>A log id: the term and the node of the leader that appended the entry, and its index.\<close>

record log_id =
  li_term :: nat
  li_node :: nat
  li_index :: nat

text \<open>A membership: one set of voters, two during a change, and the addresses of all nodes; stored
  with the log id of the entry that set it.\<close>

record membership =
  mb_configs :: "nat fset list"
  mb_nodes :: "(nat, string) fmap"

record stored_membership =
  sm_log_id :: "log_id option"
  sm_membership :: membership

definition membership_default :: membership where
  "membership_default = \<lparr>mb_configs = [], mb_nodes = fmempty\<rparr>"

definition stored_membership_default :: stored_membership where
  "stored_membership_default = \<lparr>sm_log_id = None, sm_membership = membership_default\<rparr>"

definition voter_ids :: "membership \<Rightarrow> nat fset" where
  "voter_ids m = fold (\<lambda>c s. s |\<union>| c) (mb_configs m) {||}"

definition next_index :: "log_id option \<Rightarrow> nat" where
  "next_index l = (case l of None \<Rightarrow> 0 | Some l \<Rightarrow> li_index l + 1)"

section \<open>Entries and responses\<close>

datatype log_entry =
    LogApply "mutation list"
  | LogTxn "compare list" "txn_op list" "txn_op list"
  | LogCompact int
  | LogLeaseGrant int int int
  | LogLeaseRevoke int
  | LogLeaseKeepAlive int int
  | LogNoop
  | LogAuth auth_op
  | LogBatch "log_entry list"
  | LogClusterId nat

datatype log_response =
    RespApply int "mutation_result list"
  | RespTxn txn_result
  | RespCompact int
  | RespLeaseGrant lease_grant_result
  | RespLeaseRevoke lease_revoke_result
  | RespLeaseKeepAlive lease_ttl_result
  | RespNoop int
  | RespAuth int nat "auth_apply_error + unit"
  | RespBatch "log_response list"
  | RespRefused int refusal

fun header_revision :: "log_response \<Rightarrow> int" where
  "header_revision (RespApply revision _) = revision"
| "header_revision (RespTxn t) = tr_revision t"
| "header_revision (RespCompact rv) = rv"
| "header_revision (RespLeaseGrant g) = lg_revision g"
| "header_revision (RespLeaseRevoke r) = lv_revision r"
| "header_revision (RespLeaseKeepAlive _) = 0"
| "header_revision (RespNoop revision) = revision"
| "header_revision (RespAuth revision _ _) = revision"
| "header_revision (RespBatch rs) =
     (case map header_revision rs of [] \<Rightarrow> 0 | r # rest \<Rightarrow> fold max rest r)"
| "header_revision (RespRefused revision _) = revision"

text \<open>An entry as openraft hands it to the state machine.\<close>

datatype entry_payload =
    PayloadBlank
  | PayloadNormal log_entry
  | PayloadMembership membership

record raft_entry =
  en_log_id :: log_id
  en_payload :: entry_payload

end
