(* ===== verification/Snapshot_Policy.thy ===== *)
theory Snapshot_Policy
  imports Prelude
begin

text \<open>
  Snapshots counted in proposals, \<^verbatim>\<open>crates/raft/src/snapshot_policy.rs\<close>: how many proposals the
  applied entries held, when a snapshot is due and up to where the log is purged after it. The task
  that triggers them (\<^verbatim>\<open>spawn\<close>) waits on timers and the raft handle and is not modelled. An index
  or a count is a \<open>nat\<close>; a \<^verbatim>\<open>u64\<close> count of proposals does not wrap in the life of a process.
\<close>

section \<open>The proposals of the applied entries\<close>

record proposal_log =
  pl_entries :: "(nat \<times> nat) list"
  pl_floor :: "nat \<times> nat"
  pl_total :: nat

definition proposal_log_default :: proposal_log where
  "proposal_log_default = \<lparr>pl_entries = [], pl_floor = (0, 0), pl_total = 0\<rparr>"

definition pl_record :: "nat \<Rightarrow> nat \<Rightarrow> proposal_log \<Rightarrow> proposal_log" where
  "pl_record index n l =
     (if n = 0 then l
      else let total = pl_total l + n
           in l\<lparr>pl_total := total, pl_entries := pl_entries l @ [(index, total)]\<rparr>)"

definition cumulative_at :: "nat \<Rightarrow> proposal_log \<Rightarrow> nat" where
  "cumulative_at index l =
     (let n = length (takeWhile (\<lambda>(i, _). i \<le> index) (pl_entries l))
      in if n > 0 then snd (pl_entries l ! (n - 1))
         else let (fi, fc) = pl_floor l in if index \<ge> fi then fc else 0)"

fun purge_loop :: "nat \<Rightarrow> nat \<Rightarrow> nat \<Rightarrow> (nat \<times> nat) list \<Rightarrow> nat option \<Rightarrow> nat option" where
  "purge_loop snapshot_index at keep [] point = point"
| "purge_loop snapshot_index at keep ((i, c) # es) point =
     (if i > snapshot_index \<or> at - c < keep then point
      else purge_loop snapshot_index at keep es (Some i))"

definition purge_point :: "nat \<Rightarrow> nat \<Rightarrow> proposal_log \<Rightarrow> nat option" where
  "purge_point snapshot_index keep l =
     (if keep = 0 then Some snapshot_index
      else purge_loop snapshot_index (cumulative_at snapshot_index l) keep (pl_entries l) None)"

fun forget_loop :: "nat \<Rightarrow> (nat \<times> nat) list \<Rightarrow> nat \<times> nat \<Rightarrow> (nat \<times> nat) list \<times> (nat \<times> nat)" where
  "forget_loop index ((i, c) # es) flr =
     (if i \<le> index then forget_loop index es (i, c) else ((i, c) # es, flr))"
| "forget_loop index [] flr = ([], flr)"

definition forget_upto :: "nat \<Rightarrow> proposal_log \<Rightarrow> proposal_log" where
  "forget_upto index l =
     (let (es, flr) = forget_loop index (pl_entries l) (pl_floor l)
      in l\<lparr>pl_entries := es, pl_floor := flr\<rparr>)"

section \<open>When a snapshot is due\<close>

definition snapshot_due :: "nat \<Rightarrow> nat \<Rightarrow> nat \<Rightarrow> nat option \<Rightarrow> bool" where
  "snapshot_due since count age interval \<longleftrightarrow>
     (count > 0 \<and> since \<ge> count) \<or> (since > 0 \<and> (case interval of Some i \<Rightarrow> age \<ge> i | None \<Rightarrow> False))"

definition default_wal_max_bytes :: "nat option \<Rightarrow> nat" where
  "default_wal_max_bytes volume_bytes =
     (let mib = 2 ^ 20
      in case volume_bytes of
           Some v \<Rightarrow> if v > 0 then min (max (v div 8) (64 * mib)) (1024 * mib) else 1024 * mib
         | None \<Rightarrow> 1024 * mib)"

section \<open>The invariant\<close>

text \<open>Entries and their counts ascend strictly from the floor, up to the total.\<close>

abbreviation below :: "nat \<times> nat \<Rightarrow> nat \<times> nat \<Rightarrow> bool" where
  "below x y \<equiv> fst x < fst y \<and> snd x < snd y"

definition pl_rows :: "proposal_log \<Rightarrow> (nat \<times> nat) list" where
  "pl_rows l = pl_floor l # pl_entries l"

definition pl_ok :: "proposal_log \<Rightarrow> bool" where
  "pl_ok l \<longleftrightarrow> sorted_wrt below (pl_rows l) \<and> snd (last (pl_rows l)) = pl_total l"

text \<open>The count at an index is that of the last row not above it.\<close>

lemma last_takeWhile:
  "sorted_wrt below (r # rs) \<Longrightarrow> fst r \<le> j \<Longrightarrow>
   last (filter (\<lambda>x. fst x \<le> j) (r # rs)) = last (r # takeWhile (\<lambda>x. fst x \<le> j) rs)"
proof (induction rs arbitrary: r)
  case (Cons x rs)
  show ?case
  proof (cases "fst x \<le> j")
    case True
    then show ?thesis using Cons by simp
  next
    case False
    then have "filter (\<lambda>x. fst x \<le> j) (x # rs) = []" using Cons.prems by (auto simp: filter_empty_conv)
    then show ?thesis using Cons.prems False by simp
  qed
qed simp

lemma cumulative_row:
  assumes "pl_ok l" "fst (pl_floor l) \<le> j"
  shows "cumulative_at j l = snd (last (filter (\<lambda>x. fst x \<le> j) (pl_rows l)))"
proof -
  let ?t = "takeWhile (\<lambda>x. fst x \<le> j) (pl_entries l)"
  have t: "takeWhile (\<lambda>(i, _). i \<le> j) (pl_entries l) = ?t" by (simp add: split_def)
  have row: "pl_entries l ! (length ?t - 1) = last ?t" if "?t \<noteq> []"
    using that takeWhile_nth [of "length ?t - 1" "\<lambda>x. fst x \<le> j" "pl_entries l"] by (simp add: last_conv_nth)
  have "last (filter (\<lambda>x. fst x \<le> j) (pl_rows l)) = last (pl_floor l # ?t)"
    unfolding pl_rows_def by (rule last_takeWhile) (use assms in \<open>simp_all add: pl_ok_def pl_rows_def\<close>)
  then show ?thesis using assms(2) row by (cases "?t = []") (simp_all add: cumulative_at_def t Let_def split_def)
qed

lemma rows_snoc:
  assumes "pl_ok l" "fst (last (pl_rows l)) < i" "0 < n"
  shows "pl_ok (pl_record i n l)" "pl_rows (pl_record i n l) = pl_rows l @ [(i, pl_total l + n)]"
proof -
  show rows: "pl_rows (pl_record i n l) = pl_rows l @ [(i, pl_total l + n)]"
    using assms(3) by (simp add: pl_record_def pl_rows_def Let_def)
  have "below x (i, pl_total l + n)" if "x \<in> set (pl_rows l)" for x
  proof -
    have "x = last (pl_rows l) \<or> below x (last (pl_rows l))"
      using that assms(1) unfolding pl_ok_def
      by (cases "pl_rows l" rule: rev_cases) (auto simp: sorted_wrt_append)
    then show ?thesis using assms by (auto simp: pl_ok_def)
  qed
  then show "pl_ok (pl_record i n l)"
    using assms(1,3) unfolding pl_ok_def rows by (auto simp: sorted_wrt_append pl_record_def Let_def)
qed

lemma forget_loop_rows:
  "sorted_wrt below (flr # es) \<Longrightarrow>
   \<exists>gone. flr # es = gone @ snd (forget_loop i es flr) # fst (forget_loop i es flr) \<and> (\<forall>x \<in> set (tl (gone @ [snd (forget_loop i es flr)])). fst x \<le> i)"
proof (induction i es flr rule: forget_loop.induct)
  case (1 index i c es flr)
  show ?case
  proof (cases "i \<le> index")
    case True
    have "sorted_wrt below ((i, c) # es)" using "1.prems" by simp
    from "1.IH" [OF True this] obtain gone where
      "(i, c) # es = gone @ snd (forget_loop index es (i, c)) # fst (forget_loop index es (i, c))"
      "\<forall>x \<in> set (tl (gone @ [snd (forget_loop index es (i, c))])). fst x \<le> index" by blast
    then show ?thesis using True by (intro exI [of _ "flr # gone"]) (cases gone; auto)
  qed auto
qed auto

lemma forget_rows:
  assumes "pl_ok l"
  shows "\<exists>gone. pl_rows l = gone @ pl_rows (forget_upto i l)" "pl_ok (forget_upto i l)"
    "fst (pl_floor l) \<le> i \<Longrightarrow> fst (pl_floor (forget_upto i l)) \<le> i"
proof -
  from forget_loop_rows [of "pl_floor l" "pl_entries l" i] assms obtain gone where
    g: "pl_rows l = gone @ pl_rows (forget_upto i l)" "\<forall>x \<in> set (tl (gone @ [pl_floor (forget_upto i l)])). fst x \<le> i"
    by (auto simp: pl_ok_def pl_rows_def forget_upto_def split_def Let_def)
  then show "\<exists>gone. pl_rows l = gone @ pl_rows (forget_upto i l)" by blast
  have "pl_rows (forget_upto i l) \<noteq> []" "pl_total (forget_upto i l) = pl_total l"
    by (simp_all add: pl_rows_def forget_upto_def split_def Let_def)
  then show "pl_ok (forget_upto i l)" using assms g(1) by (simp add: pl_ok_def sorted_wrt_append)
  show "fst (pl_floor (forget_upto i l)) \<le> i" if "fst (pl_floor l) \<le> i"
    using g that by (cases gone) (auto simp: pl_rows_def)
qed

section \<open>Runs\<close>

text \<open>What the state machine and the policy task do to the counts.\<close>

datatype plog_op = PlRecord nat nat | PlForget nat

fun plog_step :: "plog_op \<Rightarrow> proposal_log \<Rightarrow> proposal_log" where
  "plog_step (PlRecord i n) l = pl_record i n l"
| "plog_step (PlForget i) l = forget_upto i l"

fun recorded :: "plog_op list \<Rightarrow> (nat \<times> nat) list" where
  "recorded [] = []"
| "recorded (PlRecord i n # ops) = (i, n) # recorded ops"
| "recorded (PlForget _ # ops) = recorded ops"

definition proposals_upto :: "nat \<Rightarrow> (nat \<times> nat) list \<Rightarrow> nat" where
  "proposals_upto j h = sum_list (map snd (filter (\<lambda>x. fst x \<le> j) h))"

definition counts_ok :: "(nat \<times> nat) list \<Rightarrow> proposal_log \<Rightarrow> bool" where
  "counts_ok h l \<longleftrightarrow> pl_ok l \<and> pl_total l = sum_list (map snd h) \<and>
     fst (last (pl_rows l)) \<le> Max (insert 0 (fst ` set h)) \<and>
     (\<forall>j \<ge> fst (pl_floor l). cumulative_at j l = proposals_upto j h)"

lemma counts_record:
  assumes c: "counts_ok h l" and i: "\<forall>x \<in> set h. fst x < i" "0 < i"
  shows "counts_ok (h @ [(i, n)]) (pl_record i n l)"
proof (cases "n = 0")
  case True
  have "Max (insert 0 (fst ` set h)) \<le> Max (insert 0 (fst ` set (h @ [(i, n)])))" by (rule Max_mono) auto
  moreover have "fst (last (pl_rows l)) \<le> Max (insert 0 (fst ` set h))" using c by (simp only: counts_ok_def)
  ultimately have "fst (last (pl_rows l)) \<le> Max (insert 0 (fst ` set (h @ [(i, n)])))" by (rule order.trans [rotated])
  then show ?thesis using c True by (auto simp: counts_ok_def proposals_upto_def pl_record_def)
next
  case False
  have lt: "fst (last (pl_rows l)) < i"
  proof -
    have "Max (insert 0 (fst ` set h)) < i" using i by (subst Max_less_iff) auto
    moreover have "fst (last (pl_rows l)) \<le> Max (insert 0 (fst ` set h))" using c by (simp only: counts_ok_def)
    ultimately show ?thesis by (rule order.strict_trans1 [rotated])
  qed
  note rows = rows_snoc [OF _ lt, of n]
  have ok: "pl_ok (pl_record i n l)" and eq: "pl_rows (pl_record i n l) = pl_rows l @ [(i, pl_total l + n)]"
    using rows c False by (simp_all add: counts_ok_def)
  have fl: "pl_floor (pl_record i n l) = pl_floor l" "pl_total (pl_record i n l) = pl_total l + n"
    using False by (simp_all add: pl_record_def Let_def)
  have "cumulative_at j (pl_record i n l) = proposals_upto j (h @ [(i, n)])" if j: "fst (pl_floor l) \<le> j" for j
  proof (cases "i \<le> j")
    case True
    then have "filter (\<lambda>x. fst x \<le> j) h = h" using i by (intro filter_True) force
    then show ?thesis using True cumulative_row [OF ok] fl j c eq by (simp add: proposals_upto_def counts_ok_def)
  next
    case False
    then show ?thesis using cumulative_row [OF ok] cumulative_row [of l j] fl j c eq by (simp add: proposals_upto_def counts_ok_def)
  qed
  moreover have "i \<le> Max (insert 0 (fst ` set (h @ [(i, n)])))" by (rule Max_ge) auto
  ultimately show ?thesis using c ok eq fl by (simp add: counts_ok_def)
qed

lemma counts_forget:
  assumes c: "counts_ok h l"
  shows "counts_ok h (forget_upto i l)"
proof -
  have ok: "pl_ok l" using c by (simp add: counts_ok_def)
  from forget_rows(1) [OF ok, of i] obtain gone where g: "pl_rows l = gone @ pl_rows (forget_upto i l)" by blast
  note ok' = forget_rows(2) [OF ok, of i]
  have ne: "pl_rows (forget_upto i l) \<noteq> []" by (simp add: pl_rows_def)
  have floor: "fst (pl_floor l) \<le> fst (pl_floor (forget_upto i l))"
    using ok g by (cases gone) (auto simp: pl_ok_def pl_rows_def less_imp_le)
  have "cumulative_at j (forget_upto i l) = proposals_upto j h" if j: "fst (pl_floor (forget_upto i l)) \<le> j" for j
  proof -
    have "filter (\<lambda>x. fst x \<le> j) (pl_rows (forget_upto i l)) \<noteq> []" using j by (simp add: pl_rows_def)
    then have "cumulative_at j (forget_upto i l) = cumulative_at j l"
      using cumulative_row [OF ok' j] cumulative_row [OF ok] floor j g by simp
    then show ?thesis using c floor j by (simp add: counts_ok_def)
  qed
  moreover have "pl_total (forget_upto i l) = pl_total l" by (simp add: forget_upto_def split_def Let_def)
  ultimately show ?thesis using c ok' g ne by (simp add: counts_ok_def)
qed

lemma counts_run:
  assumes "counts_ok h l" "sorted_wrt (<) (map fst (h @ recorded ops))" "\<forall>x \<in> set (h @ recorded ops). 0 < fst x"
  shows "counts_ok (h @ recorded ops) (fold plog_step ops l)"
  using assms
proof (induction ops arbitrary: h l)
  case (Cons op ops)
  show ?case
  proof (cases op)
    case (PlRecord i n)
    have "counts_ok (h @ [(i, n)]) (pl_record i n l)"
      by (rule counts_record) (use Cons.prems PlRecord in \<open>auto simp: sorted_wrt_append\<close>)
    from Cons.IH [OF this] show ?thesis using Cons.prems PlRecord by simp
  next
    case (PlForget i)
    from Cons.IH [OF counts_forget [OF Cons.prems(1), of i]] show ?thesis using Cons.prems PlForget by simp
  qed
qed simp

lemma counts_start: "counts_ok [] proposal_log_default"
  by (simp add: counts_ok_def pl_ok_def pl_rows_def proposal_log_default_def proposals_upto_def cumulative_at_def)

lemma purge_loop_point:
  assumes "sorted_wrt below es" "purge_loop s at keep es point = p" "\<forall>x \<in> set es. fst x \<le> s \<longrightarrow> snd x \<le> at"
  defines "good \<equiv> \<lambda>x. fst x \<le> s \<and> keep \<le> at - snd x"
  shows "p = (if filter good es = [] then point else Some (fst (last (filter good es))))"
  using assms(1-3)
proof (induction es arbitrary: point)
  case (Cons x es)
  obtain i c where x: "x = (i, c)" by (cases x)
  show ?case
  proof (cases "i > s \<or> at - c < keep")
    case True
    have "filter good (x # es) = []"
    proof -
      have "\<not> good y" if "y \<in> set es" for y
        using that True Cons.prems(1,3) x by (force simp: good_def)
      moreover have "\<not> good x" using True x by (auto simp: good_def)
      ultimately show ?thesis by (auto simp: filter_empty_conv)
    qed
    then show ?thesis using Cons.prems(2) True x by simp
  next
    case False
    then have "good x" using x by (auto simp: good_def)
    then show ?thesis using Cons.IH [of "Some i"] Cons.prems False x by (cases "filter good es = []") auto
  qed
qed simp

lemma proposals_mono: "i \<le> j \<Longrightarrow> proposals_upto i h \<le> proposals_upto j h"
  unfolding proposals_upto_def by (induction h) auto

lemma counts_row:
  assumes c: "counts_ok h l" and x: "x \<in> set (pl_entries l)"
  shows "snd x = proposals_upto (fst x) h"
proof -
  have ok: "sorted_wrt below (pl_rows l)" using c by (simp add: counts_ok_def pl_ok_def)
  have "x \<in> set (pl_rows l)" using x by (simp add: pl_rows_def)
  then obtain as bs where e: "pl_rows l = as @ x # bs" by (meson split_list)
  have "filter (\<lambda>y. fst y \<le> fst x) bs = []" using ok unfolding e by (auto simp: sorted_wrt_append filter_empty_conv)
  then have "last (filter (\<lambda>y. fst y \<le> fst x) (pl_rows l)) = x" unfolding e by simp
  moreover have "fst (pl_floor l) \<le> fst x" using ok x by (auto simp: pl_rows_def less_imp_le)
  ultimately show ?thesis using cumulative_row [of l "fst x"] c by (simp add: counts_ok_def)
qed

lemma last_filter_max:
  assumes "sorted_wrt below es" "x \<in> set es" "P x"
  shows "fst x \<le> fst (last (filter P es))"
proof -
  have "sorted_wrt below (filter P es)" "x \<in> set (filter P es)" using assms by (simp_all add: sorted_wrt_filter)
  then show ?thesis by (cases "filter P es" rule: rev_cases) (auto simp: sorted_wrt_append)
qed

lemma purge_counts:
  assumes c: "counts_ok h l" and s: "fst (pl_floor l) \<le> s" "0 < keep"
  shows "case purge_point s keep l of
      Some p \<Rightarrow> p \<le> s \<and> proposals_upto p h + keep \<le> proposals_upto s h \<and>
        (\<forall>x \<in> set (pl_entries l). p < fst x \<and> fst x \<le> s \<longrightarrow> proposals_upto s h < proposals_upto (fst x) h + keep)
    | None \<Rightarrow> \<forall>x \<in> set (pl_entries l). fst x \<le> s \<longrightarrow> proposals_upto s h < proposals_upto (fst x) h + keep"
proof -
  let ?good = "\<lambda>x. fst x \<le> s \<and> keep \<le> proposals_upto s h - snd x"
  let ?g = "filter ?good (pl_entries l)"
  have so: "sorted_wrt below (pl_entries l)" using c by (simp add: counts_ok_def pl_ok_def pl_rows_def)
  have le: "\<forall>x \<in> set (pl_entries l). fst x \<le> s \<longrightarrow> snd x \<le> proposals_upto s h"
    using counts_row [OF c] proposals_mono by auto
  have "cumulative_at s l = proposals_upto s h" using c s(1) by (simp add: counts_ok_def)
  then have p: "purge_point s keep l = (if ?g = [] then None else Some (fst (last ?g)))"
    using purge_loop_point [OF so refl le, of keep None] s(2) by (simp add: purge_point_def)
  show ?thesis
  proof (cases "?g = []")
    case True
    have "proposals_upto s h < proposals_upto (fst x) h + keep" if "x \<in> set (pl_entries l)" "fst x \<le> s" for x
    proof -
      have "\<not> ?good x" using True that(1) by (auto simp: filter_empty_conv)
      then show ?thesis using that(2) counts_row [OF c that(1)] by linarith
    qed
    then show ?thesis using p True by simp
  next
    case False
    have "last ?g \<in> set ?g" by (rule last_in_set [OF False])
    then have g: "?good (last ?g)" "last ?g \<in> set (pl_entries l)" by auto
    have one: "fst (last ?g) \<le> s" "keep \<le> proposals_upto s h - proposals_upto (fst (last ?g)) h"
      using g counts_row [OF c g(2)] by auto
    have "proposals_upto s h < proposals_upto (fst x) h + keep"
      if "x \<in> set (pl_entries l)" "fst (last ?g) < fst x" "fst x \<le> s" for x
      using last_filter_max [OF so that(1), of ?good] that counts_row [OF c that(1)] by linarith
    then show ?thesis using one s(2) p False by auto
  qed
qed

text \<open>C31: However applied entries are recorded and purged ones forgotten, the count at an index is
  the number of proposals of all the entries applied up to it since the start, the forgotten ones
  included, for every index not below the last one forgotten. The purge point of a snapshot is
  the newest entry after which the asked number of proposals is still kept; there is none
  exactly when every entry still counted is too near the snapshot.\<close>

theorem purge_keeps:
  assumes "l = fold plog_step ops proposal_log_default"
    and "sorted_wrt (<) (map fst (recorded ops))" "\<forall>x \<in> set (recorded ops). 0 < fst x"
    and "fst (pl_floor l) \<le> s" "0 < keep"
  shows "(\<forall>j \<ge> fst (pl_floor l). cumulative_at j l = proposals_upto j (recorded ops)) \<and>
    (case purge_point s keep l of
       Some p \<Rightarrow> p \<le> s \<and> proposals_upto p (recorded ops) + keep \<le> proposals_upto s (recorded ops) \<and>
         (\<forall>x \<in> set (pl_entries l).
            p < fst x \<and> fst x \<le> s \<longrightarrow> proposals_upto s (recorded ops) < proposals_upto (fst x) (recorded ops) + keep)
     | None \<Rightarrow> \<forall>x \<in> set (pl_entries l).
         fst x \<le> s \<longrightarrow> proposals_upto s (recorded ops) < proposals_upto (fst x) (recorded ops) + keep)"
proof -
  have "counts_ok (recorded ops) l" using counts_run [OF counts_start, of ops] assms(1-3) by simp
  from purge_counts [OF this assms(4,5)] this show ?thesis by (simp add: counts_ok_def)
qed

text \<open>The second conjunct counts at an index where every entry up to it has been forgotten.\<close>

theorem purge_keeps_witness:
  "let l = fold plog_step [PlRecord 1 4, PlRecord 2 3, PlRecord 3 5, PlForget 1] proposal_log_default in
   purge_point 3 5 l = Some 2 \<and> cumulative_at 1 l = 4 \<and>
   proposals_upto 2 [(1, 4), (2, 3), (3, 5)] + 5 \<le> proposals_upto 3 [(1, 4), (2, 3), (3, 5)]"
proof -
  let ?l = "fold plog_step [PlRecord 1 4, PlRecord 2 3, PlRecord 3 5, PlForget 1] proposal_log_default"
  have l: "?l = \<lparr>pl_entries = [(2, 7), (3, 12)], pl_floor = (1, 4), pl_total = 12\<rparr>"
    by (simp add: proposal_log_default_def pl_record_def forget_upto_def)
  let ?L = "\<lparr>pl_entries = [(2, 7), (3, 12)], pl_floor = (1, 4), pl_total = 12\<rparr>"
  have p: "purge_point 3 5 ?L = Some 2" by (simp add: purge_point_def cumulative_at_def Let_def)
  have "(\<forall>j \<ge> 1. cumulative_at j ?L = proposals_upto j [(1, 4), (2, 3), (3, 5)]) \<and>
    proposals_upto 2 [(1, 4), (2, 3), (3, 5)] + 5 \<le> proposals_upto 3 [(1, 4), (2, 3), (3, 5)]"
    using purge_keeps [OF l [symmetric], of 3 5] unfolding p by simp
  then have "cumulative_at 1 ?L = proposals_upto 1 [(1, 4), (2, 3), (3, 5)] \<and>
    proposals_upto 2 [(1, 4), (2, 3), (3, 5)] + 5 \<le> proposals_upto 3 [(1, 4), (2, 3), (3, 5)]" by blast
  then show ?thesis unfolding l using p by (simp add: Let_def proposals_upto_def)
qed

end
