(* ===== verification/Raft_Machine.thy ===== *)
theory Raft_Machine
  imports Raft_Types Snapshot_Policy
begin

text \<open>
  The raft state machine, \<^verbatim>\<open>crates/raft/src/state_machine.rs\<close>: it applies committed log entries to
  the MVCC store, in order, and keeps beside them how far it got, so that a restart neither repeats
  nor loses one. Writing and installing snapshots is not modelled.

  The log id and the membership are stored as bincode; the codec is an argument, the record
  \<open>meta_codec\<close>. An applied entry first waits until the log holds it durably (\<^verbatim>\<open>wait_durable\<close>), which
  changes nothing here. The times at which leases and sessions are stamped are an argument: \<open>clk i j\<close>
  is the clock when sub-entry \<open>j\<close> of the entry with index \<open>i\<close> is applied.
\<close>

record meta_codec =
  mc_ser_log_id :: "log_id option \<Rightarrow> string + bytes"
  mc_de_log_id :: "bytes \<Rightarrow> string + log_id option"
  mc_ser_membership :: "stored_membership \<Rightarrow> string + bytes"
  mc_de_membership :: "bytes \<Rightarrow> string + stored_membership"

record snapshot_meta =
  sn_last_log_id :: "log_id option"
  sn_last_membership :: stored_membership
  sn_snapshot_id :: string

record machine =
  m_mvcc :: mvcc_store
  m_last_applied :: "log_id option"
  m_last_membership :: stored_membership
  m_current_snapshot :: "snapshot_meta option"
  m_snapshot_idx :: nat
  m_batch_progress :: "(nat \<times> nat) option"
  m_applied :: nat
  m_proposals :: proposal_log

section \<open>Batch progress\<close>

definition encode_progress :: "nat \<Rightarrow> nat \<Rightarrow> bytes" where
  "encode_progress index done = be_bytes 8 index @ be_bytes 8 done"

definition decode_progress :: "bytes \<Rightarrow> (nat \<times> nat) option" where
  "decode_progress b =
     (if length b < 16 then None
      else Some (of_be_bytes (take 8 b), of_be_bytes (take 8 (drop 8 b))))"

section \<open>Opening\<close>

definition open_machine :: "meta_codec \<Rightarrow> snapshot_meta option \<Rightarrow> mvcc_store \<Rightarrow> string + machine" where
  "open_machine c latest_meta mvcc =
     (let (applied_bytes, membership_bytes) = read_raft_meta mvcc in
      bind_res (case applied_bytes of Some b \<Rightarrow> mc_de_log_id c b | None \<Rightarrow> Inr None) (\<lambda>last_applied.
      bind_res (case membership_bytes of Some b \<Rightarrow> mc_de_membership c b | None \<Rightarrow> Inr stored_membership_default) (\<lambda>membership.
      let progress = Option.bind (read_batch_progress mvcc) decode_progress
      in Inr \<lparr>m_mvcc = mvcc, m_last_applied = last_applied, m_last_membership = membership,
              m_current_snapshot = latest_meta, m_snapshot_idx = 0, m_batch_progress = progress,
              m_applied = next_index last_applied, m_proposals = proposal_log_default\<rparr>)))"

section \<open>Applying a request\<close>

datatype apply_error = ErrMvcc mvcc_error | ErrOther string

definition current_revision :: "mvcc_store \<Rightarrow> int" where
  "current_revision st = rv_current (v_revs (s_view st))"

definition nested_batch :: "nat \<Rightarrow> string" where
  "nested_batch index = ''nested batch in log entry '' @ show_nat index"

fun apply_request :: "nat \<Rightarrow> log_entry \<Rightarrow> nat \<Rightarrow> mvcc_store \<Rightarrow> (apply_error + log_response) \<times> mvcc_store" where
  "apply_request now (LogApply mutations) index st =
     (case apply_mutations mutations st of
        (Inl e, st) \<Rightarrow> (Inl (ErrMvcc e), st)
      | (Inr (revision, results), st) \<Rightarrow> (Inr (RespApply revision results), st))"
| "apply_request now (LogTxn compares success failure) index st =
     (case txn compares success failure st of
        (Inl e, st) \<Rightarrow> (Inl (ErrMvcc e), st)
      | (Inr result, st) \<Rightarrow> (Inr (RespTxn result), st))"
| "apply_request now (LogCompact rv) index st =
     (case compact rv st of
        (Inl e, st) \<Rightarrow> (Inl (ErrMvcc e), st)
      | (Inr compacted, st) \<Rightarrow> (Inr (RespCompact compacted), st))"
| "apply_request now (LogLeaseGrant lid ttl_secs now_unix) index st =
     (case apply_lease_grant now lid ttl_secs now_unix st of
        (Inl e, st) \<Rightarrow> (Inl (ErrMvcc e), st)
      | (Inr res, st) \<Rightarrow> (Inr (RespLeaseGrant res), st))"
| "apply_request now (LogLeaseRevoke lid) index st =
     (case apply_lease_revoke lid st of
        (Inl e, st) \<Rightarrow> (Inl (ErrMvcc e), st)
      | (Inr res, st) \<Rightarrow> (Inr (RespLeaseRevoke res), st))"
| "apply_request now (LogLeaseKeepAlive lid now_unix) index st =
     (case apply_lease_keepalive now lid now_unix st of
        (Inl e, st) \<Rightarrow> (Inl (ErrMvcc e), st)
      | (Inr res, st) \<Rightarrow> (Inr (RespLeaseKeepAlive res), st))"
| "apply_request now LogNoop index st = (Inr (RespNoop (current_revision st)), st)"
| "apply_request now (LogClusterId cid) index st =
     (let (_, st) = apply_cluster_id cid st in (Inr (RespNoop (current_revision st)), st))"
| "apply_request now (LogAuth op) index st =
     (case apply_auth now op st of
        ((revision, result), st) \<Rightarrow> (Inr (RespAuth revision index result), st))"
| "apply_request now (LogBatch _) index st = (Inl (ErrOther (nested_batch index)), st)"

definition apply_data :: "nat \<Rightarrow> log_entry \<Rightarrow> nat \<Rightarrow> mvcc_store \<Rightarrow> (apply_error + log_response) \<times> mvcc_store" where
  "apply_data now data index st =
     (case apply_request now data index st of
        (Inr r, st) \<Rightarrow> (Inr r, st)
      | (Inl (ErrMvcc e), st) \<Rightarrow>
          (case refusal_of e of
             Some refusal \<Rightarrow> (Inr (RespRefused (current_revision st) refusal), st)
           | None \<Rightarrow> (Inl (ErrMvcc e), st))
      | (Inl (ErrOther e), st) \<Rightarrow> (Inl (ErrOther e), st))"

section \<open>Batched entries\<close>

definition MAX_RUN :: nat where
  "MAX_RUN = 256"

fun groupable :: "log_entry \<Rightarrow> apply_item option" where
  "groupable (LogApply mutations) = item_mutations mutations"
| "groupable (LogTxn compares success failure) = item_txn compares success failure"
| "groupable _ = None"

fun map_while :: "('a \<Rightarrow> 'b option) \<Rightarrow> 'a list \<Rightarrow> 'b list" where
  "map_while f [] = []"
| "map_while f (x # xs) = (case f x of Some y \<Rightarrow> y # map_while f xs | None \<Rightarrow> [])"

fun outcome_response :: "apply_outcome \<Rightarrow> log_response" where
  "outcome_response (OutMutations revision results) = RespApply revision results"
| "outcome_response (OutTxn t) = RespTxn t"
| "outcome_response (OutRefused revision refusal) = RespRefused revision refusal"

text \<open>One turn of the loop over the sub-entries: the responses it adds, the position after it, and
  whether the log id of the entry is staged.\<close>

definition batch_step ::
  "(nat \<Rightarrow> nat) \<Rightarrow> nat \<Rightarrow> log_entry list \<Rightarrow> nat \<Rightarrow> bytes \<Rightarrow> nat \<Rightarrow> bool \<Rightarrow> mvcc_store \<Rightarrow>
   (apply_error + log_response list \<times> nat \<times> bool) \<times> mvcc_store" where
  "batch_step clk index subs skip applied_bytes j staged st =
     (let sub = subs ! j in
      case sub of
        LogBatch _ \<Rightarrow> (Inl (ErrOther (nested_batch index)), st)
      | _ \<Rightarrow>
        if j < skip then (Inr ([RespNoop (current_revision st)], j + 1, staged), st)
        else
          let run = map_while groupable (take MAX_RUN (drop j subs)) in
          if length run > 1 then
            let stop = j + length run;
                st = stage_batch_progress (encode_progress index stop) st;
                (st, staged) = (if stop = length subs then (stage_raft_meta applied_bytes None st, True) else (st, staged))
            in case apply_many run st of
                 (Inl e, st) \<Rightarrow> (Inl (ErrMvcc e), st)
               | (Inr outs, st) \<Rightarrow> (Inr (map outcome_response outs, stop, staged), st)
          else
            let st = stage_batch_progress (encode_progress index (j + 1)) st;
                (st, staged) = (if j + 1 = length subs then (stage_raft_meta applied_bytes None st, True) else (st, staged))
            in case apply_data (clk j) sub index st of
                 (Inl e, st) \<Rightarrow> (Inl e, st)
               | (Inr r, st) \<Rightarrow> (Inr ([r], j + 1, staged), st))"

lemma batch_step_forward:
  "batch_step clk index subs skip ab j staged st = (Inr (out, j', staged'), st') \<Longrightarrow> j < j'"
  by (auto simp: batch_step_def Let_def split: log_entry.splits if_splits prod.splits sum.splits)

function batch_loop ::
  "(nat \<Rightarrow> nat) \<Rightarrow> nat \<Rightarrow> log_entry list \<Rightarrow> nat \<Rightarrow> bytes \<Rightarrow> nat \<Rightarrow> bool \<Rightarrow> mvcc_store \<Rightarrow>
   (apply_error + log_response list \<times> bool) \<times> mvcc_store" where
  "batch_loop clk index subs skip applied_bytes j staged st =
     (if j < length subs then
        (case batch_step clk index subs skip applied_bytes j staged st of
           (Inl e, st) \<Rightarrow> (Inl e, st)
         | (Inr (out, j, staged), st) \<Rightarrow>
             (case batch_loop clk index subs skip applied_bytes j staged st of
                (Inl e, st) \<Rightarrow> (Inl e, st)
              | (Inr (rest, staged), st) \<Rightarrow> (Inr (out @ rest, staged), st)))
      else (Inr ([], staged), st))"
  by pat_completeness auto
termination
  by (relation "measure (\<lambda>(clk, index, subs, skip, ab, j, staged, st). length subs - j)")
    (auto dest!: batch_step_forward [OF sym])

declare batch_loop.simps [simp del]

definition apply_batch ::
  "(nat \<Rightarrow> nat) \<Rightarrow> nat \<Rightarrow> log_entry list \<Rightarrow> nat \<Rightarrow> bytes \<Rightarrow> mvcc_store \<Rightarrow> (apply_error + log_response) \<times> mvcc_store" where
  "apply_batch clk index subs skip applied_bytes st =
     (case batch_loop clk index subs skip applied_bytes 0 False (stage_batched_marker st) of
        (Inl e, st) \<Rightarrow> (Inl e, st)
      | (Inr (out, staged), st) \<Rightarrow>
          (Inr (RespBatch out), if \<not> staged then stage_raft_meta applied_bytes None st else st))"

section \<open>Applying entries\<close>

datatype machine_error =
    SerializeApplied string
  | SerializeMembership string
  | ApplyFailed apply_error

definition applied_to :: "log_id \<Rightarrow> machine \<Rightarrow> machine" where
  "applied_to lid m = m\<lparr>m_last_applied := Some lid, m_applied := li_index lid + 1\<rparr>"

definition skip_of :: "(nat \<times> nat) option \<Rightarrow> nat \<Rightarrow> nat" where
  "skip_of progress index = (case progress of Some (i, n) \<Rightarrow> if i = index then n else 0 | None \<Rightarrow> 0)"

definition apply_entry ::
  "meta_codec \<Rightarrow> (nat \<Rightarrow> nat \<Rightarrow> nat) \<Rightarrow> raft_entry \<Rightarrow> machine \<Rightarrow> (machine_error + log_response) \<times> machine" where
  "apply_entry c clk entry m =
     (let lid = en_log_id entry; index = li_index lid in
      case mc_ser_log_id c (Some lid) of
        Inl e \<Rightarrow> (Inl (SerializeApplied e), m)
      | Inr applied_bytes \<Rightarrow>
          (case en_payload entry of
             PayloadMembership mb \<Rightarrow>
               let stored = \<lparr>sm_log_id = Some lid, sm_membership = mb\<rparr> in
               (case mc_ser_membership c stored of
                  Inl e \<Rightarrow> (Inl (SerializeMembership e), m)
                | Inr membership_bytes \<Rightarrow>
                    let st = stage_raft_meta applied_bytes (Some membership_bytes) (m_mvcc m) in
                    (Inr (RespNoop (current_revision st)),
                     applied_to lid (m\<lparr>m_mvcc := st, m_last_membership := stored\<rparr>)))
           | PayloadNormal (LogBatch subs) \<Rightarrow>
               (case apply_batch (clk index) index subs (skip_of (m_batch_progress m) index) applied_bytes (m_mvcc m) of
                  (Inl e, st) \<Rightarrow> (Inl (ApplyFailed e), m\<lparr>m_mvcc := st\<rparr>)
                | (Inr r, st) \<Rightarrow>
                    (Inr r, applied_to lid (m\<lparr>m_mvcc := st, m_proposals := pl_record index (length subs) (m_proposals m)\<rparr>)))
           | PayloadNormal data \<Rightarrow>
               (case apply_data (clk index 0) data index (stage_raft_meta applied_bytes None (m_mvcc m)) of
                  (Inl e, st) \<Rightarrow> (Inl (ApplyFailed e), m\<lparr>m_mvcc := st\<rparr>)
                | (Inr r, st) \<Rightarrow>
                    (Inr r, applied_to lid (m\<lparr>m_mvcc := st, m_proposals := pl_record index 1 (m_proposals m)\<rparr>)))
           | PayloadBlank \<Rightarrow>
               let st = stage_raft_meta applied_bytes None (m_mvcc m) in
               (Inr (RespNoop (current_revision st)), applied_to lid (m\<lparr>m_mvcc := st\<rparr>))))"

fun apply_entries ::
  "meta_codec \<Rightarrow> (nat \<Rightarrow> nat \<Rightarrow> nat) \<Rightarrow> raft_entry list \<Rightarrow> machine \<Rightarrow> (machine_error + log_response list) \<times> machine" where
  "apply_entries c clk [] m = (Inr [], m)"
| "apply_entries c clk (entry # entries) m =
     (case apply_entry c clk entry m of
        (Inl e, m) \<Rightarrow> (Inl e, m)
      | (Inr r, m) \<Rightarrow>
          (case apply_entries c clk entries m of
             (Inl e, m) \<Rightarrow> (Inl e, m)
           | (Inr rs, m) \<Rightarrow> (Inr (r # rs), m)))"

definition machine_apply ::
  "meta_codec \<Rightarrow> (nat \<Rightarrow> nat \<Rightarrow> nat) \<Rightarrow> raft_entry list \<Rightarrow> machine \<Rightarrow> (machine_error + log_response list) \<times> machine" where
  "machine_apply c clk entries m =
     (case apply_entries c clk entries m of
        (Inl e, m) \<Rightarrow> (Inl e, m)
      | (Inr responses, m) \<Rightarrow> (Inr responses, m\<lparr>m_mvcc := flush_raft_meta (m_mvcc m)\<rparr>))"

definition applied_state :: "machine \<Rightarrow> log_id option \<times> stored_membership" where
  "applied_state m = (m_last_applied m, m_last_membership m)"

section \<open>Recovery of old data directories\<close>

definition recover_applied_floor ::
  "meta_codec \<Rightarrow> log_id option \<Rightarrow> machine \<Rightarrow> (string + log_id option) \<times> machine" where
  "recover_applied_floor c flr m =
     (case flr of
        None \<Rightarrow> (Inr None, m)
      | Some lid \<Rightarrow>
          if m_last_applied m \<noteq> None \<or> current_revision (m_mvcc m) = 0 then (Inr None, m)
          else (case mc_ser_log_id c (Some lid) of
                  Inl e \<Rightarrow> (Inl e, m)
                | Inr b \<Rightarrow>
                    (Inr (Some lid),
                     applied_to lid (m\<lparr>m_mvcc := flush_raft_meta (stage_raft_meta b None (m_mvcc m))\<rparr>))))"

definition membership_is_empty :: "machine \<Rightarrow> bool" where
  "membership_is_empty m \<longleftrightarrow> voter_ids (sm_membership (m_last_membership m)) = {||}"

definition recover_membership ::
  "meta_codec \<Rightarrow> stored_membership \<Rightarrow> machine \<Rightarrow> (string + unit) \<times> machine" where
  "recover_membership c mb m =
     (case mc_ser_membership c mb of
        Inl e \<Rightarrow> (Inl e, m)
      | Inr b \<Rightarrow> (Inr (), m\<lparr>m_mvcc := persist_membership b (m_mvcc m), m_last_membership := mb\<rparr>))"

end
