(* ===== verification/Raft_Folding.thy ===== *)
theory Raft_Folding
  imports Mvcc_Twins Raft_Machine
begin

text \<open>
  Raft metadata and data reach the tables together: every operation of the store that the state
  machine calls either leaves the engine as it is, or makes one commit that also writes everything
  staged. What the tables say of the log position is then the position of the data beside it.
\<close>

section \<open>The batch of an apply holds no metadata\<close>

text \<open>Rows the operations write themselves: none under the keys of the raft metadata, and a cluster
  id of eight bytes.\<close>

fun quiet_row :: "store_op \<Rightarrow> bool" where
  "quiet_row (MetaPut k v) = (\<not> raft_key k \<and> (k = META_KEY_CLUSTER_ID \<longrightarrow> length v = 8))"
| "quiet_row _ = True"

definition quiet_work :: "work \<Rightarrow> bool" where
  "quiet_work w \<longleftrightarrow> list_all quiet_row (cx_batch (w_ctx w))"

lemma lease_switch_quiet [simp]: "list_all quiet_row (lease_switch a b k)"
  by (simp add: lease_switch_def)

lemma take_index_batch: "cx_batch (snd (take_index ri ctx k)) = cx_batch ctx"
  by (simp add: take_index_def split: option.split)

lemma restore_index_batch: "cx_batch (restore_index idx f ctx) = cx_batch ctx"
  by (simp add: restore_index_def)

lemma apply_put_quiet: "quiet_work w \<Longrightarrow> quiet_work (snd (apply_put ri snap rv k v l iv il p w))"
  using take_index_batch [of ri "w_ctx w" k]
  by (auto simp: apply_put_def Let_def quiet_work_def restore_index_batch split: prod.split)

lemma delete_key_quiet: "quiet_work (snd rw) \<Longrightarrow> quiet_work (snd (delete_key ri snap rv p k rw))"
  using take_index_batch [of ri "w_ctx (snd rw)" k]
  by (auto simp: delete_key_def Let_def quiet_work_def restore_index_batch split: prod.split option.split)

lemma fold_delete_quiet: "quiet_work (snd rw) \<Longrightarrow> quiet_work (snd (fold (delete_key ri snap rv p) ks rw))"
  by (induction ks arbitrary: rw) (simp_all add: delete_key_quiet)

lemma apply_one_quiet: "quiet_work w \<Longrightarrow> quiet_work (snd (apply_one ri snap rv m w))"
proof -
  assume w: "quiet_work w"
  have "quiet_work (snd (apply_one_uncounted ri snap rv m w))"
    by (cases m) (use w apply_put_quiet fold_delete_quiet [of "(mutation_result_default, w)"] in \<open>auto simp: Let_def split_def\<close>)
  then show ?thesis by (auto simp: apply_one_def quiet_work_def split: prod.split sum.split)
qed

lemma apply_loop_quiet: "quiet_work w \<Longrightarrow> quiet_work (snd (apply_loop ri snap main sub ms w))"
proof (induction ms arbitrary: sub w)
  case (Cons m ms)
  have "quiet_work (snd (apply_one ri snap (Revision main (int sub)) m w))" by (rule apply_one_quiet [OF Cons.prems])
  then show ?case using Cons.IH [of "snd (apply_one ri snap (Revision main (int sub)) m w)" "sub + 1"]
    by (auto split: prod.splits sum.splits)
qed simp

lemma apply_inner_quiet_rows: "quiet_work w \<Longrightarrow> quiet_work (snd (apply_inner ri snap n ms w))"
  using apply_loop_quiet [of w ri snap "n + 1" 0 ms] by (auto simp: apply_inner_def Let_def split: prod.splits sum.splits)

lemma range_inner_ctx: "w_ctx (snd (range_inner ri snap st r w)) = w_ctx w"
  by (auto simp: range_inner_def Let_def split: prod.splits sum.splits)

lemma txn_ops_quiet_rows: "quiet_work w \<Longrightarrow> quiet_work (snd (snd (txn_ops ri snap st ops ex w)))"
proof (induction ri snap st ops ex w rule: txn_ops.induct)
  case (2 ri snap st r ops ex w)
  have "quiet_work (snd (range_inner ri snap rs r w))" for rs using "2.prems" by (simp add: quiet_work_def range_inner_ctx)
  then show ?case using "2.IH" by (auto simp: Let_def split: prod.splits sum.splits) (metis snd_conv)+
next
  case (3 ri snap st m ops ex w)
  have "quiet_work (snd (apply_one ri snap (Revision (tx_main ex) (tx_sub ex)) m w))" by (rule apply_one_quiet [OF "3.prems"])
  then show ?case using "3.IH" by (auto simp: Let_def split: prod.splits sum.splits)
next
  case (4 ri snap st cs su fa ops ex w)
  have "quiet_work (w\<lparr>w_values := vc\<rparr>)" for vc using "4.prems" by (simp add: quiet_work_def)
  then show ?case using "4.IH" by (fastforce simp: Let_def split: prod.splits sum.splits)
qed simp

lemma item_step_quiet: "quiet_work w \<Longrightarrow> quiet_work (snd (snd (item_step ri snap c item (cur, w))))"
proof (cases item)
  case (ItemMutations ms)
  assume "quiet_work w"
  then have "quiet_work (snd (apply_inner ri snap cur ms w))" by (rule apply_inner_quiet_rows)
  then show ?thesis using \<open>quiet_work w\<close> ItemMutations
    by (auto simp: push_mark_def quiet_work_def split: prod.splits sum.splits mvcc_error.splits)
next
  case (ItemTxn cs su fa)
  assume w: "quiet_work w"
  have "quiet_work (w\<lparr>w_values := vc\<rparr>)" for vc using w by (simp add: quiet_work_def)
  note q = txn_ops_quiet_rows [OF this]
  obtain r vc where e: "evaluate_compares ri snap (w_ctx w) cs (w_values w) = (r, vc)" by fastforce
  show ?thesis
  proof (cases r)
    case (Inl a)
    then show ?thesis using w e ItemTxn by (simp add: quiet_work_def)
  next
    case (Inr b)
    let ?t = "txn_ops ri snap \<lparr>rv_current = cur, rv_compact = c\<rparr> (if b then su else fa)
      \<lparr>tx_main = cur + 1, tx_sub = 0, tx_produced_any = False\<rparr> (w\<lparr>w_values := vc\<rparr>)"
    have "quiet_work (snd (snd ?t))" by (rule q)
    then show ?thesis unfolding ItemTxn item_step.simps e Inr
      by (cases ?t) (auto simp: push_mark_def quiet_work_def Let_def split: sum.splits)
  qed
qed

lemma apply_items_quiet: "quiet_work w \<Longrightarrow> quiet_work (snd (snd (apply_items ri snap c items (cur, w))))"
proof (induction items arbitrary: cur w)
  case (Cons i items)
  obtain r cur' w' where s: "item_step ri snap c i (cur, w) = (r, cur', w')" by (metis prod.exhaust)
  have "quiet_work w'" using item_step_quiet [OF Cons.prems, of ri snap c i cur] s by simp
  from Cons.IH [OF this, of cur'] show ?case using s \<open>quiet_work w'\<close> by (auto split: prod.splits sum.splits)
qed simp

section \<open>Every operation folds\<close>

definition folds :: "mvcc_store \<Rightarrow> mvcc_store \<Rightarrow> bool" where
  "folds st st' \<longleftrightarrow> (s_engine st' = s_engine st \<and> s_pending st' = s_pending st) \<or>
     (s_pending st' = [] \<and> (\<exists>b. list_all quiet_row b \<and>
        s_engine st' = engine_commit (s_engine st) (b @ map (\<lambda>(k, v). MetaPut k v) (s_pending st))))"

lemma folds_refl [simp]: "folds st st"
  by (simp add: folds_def)

lemma folds_cong: "s_engine a' = s_engine a \<Longrightarrow> s_pending a' = s_pending a \<Longrightarrow> s_engine b' = s_engine b \<Longrightarrow> s_pending b' = s_pending b \<Longrightarrow>
    folds a b = folds a' b'"
  by (simp add: folds_def)

lemma end_work_rows [simp]: "s_engine (end_work w st) = s_engine st" "s_pending (end_work w st) = s_pending st"
  by (simp_all add: end_work_def)

lemma folds_other [simp]:
  "folds st (x\<lparr>s_ops := ops\<rparr>) = folds st x" "folds st (x\<lparr>s_lease_applied := l\<rparr>) = folds st x"
  "folds st (x\<lparr>s_values := vs\<rparr>) = folds st x" "folds st (x\<lparr>s_view := v\<rparr>) = folds st x"
  "folds st (x\<lparr>s_ws := ws\<rparr>) = folds st x" "folds st (x\<lparr>s_index := ri\<rparr>) = folds st x"
  by (simp_all add: folds_def)

lemma folds_end_work [simp]: "folds st (end_work w st)"
  by (simp add: folds_def)

lemma foldsI:
  "list_all quiet_row b \<Longrightarrow> s_pending st' = [] \<Longrightarrow>
   s_engine st' = engine_commit (engine_commit (s_engine st) b) (map (\<lambda>(k, v). MetaPut k v) (s_pending st)) \<Longrightarrow> folds st st'"
  by (auto simp: folds_def commit_append)

lemma commit_folded_folds:
  "list_all quiet_row b \<Longrightarrow> s_engine a = s_engine st \<Longrightarrow> s_pending a = s_pending st \<Longrightarrow> folds st (commit_folded b a)"
  by (rule foldsI) (simp_all add: commit_folded_eq commit_append)

lemma write_i64_quiet [simp]: "list_all quiet_row (write_i64 b k v) \<longleftrightarrow> list_all quiet_row b \<and> \<not> raft_key k"
  by (auto simp: write_i64_def i64_to_be_bytes_def)

lemma meta_keys_raft [simp]:
  "\<not> raft_key META_KEY_CURRENT_REV" "\<not> raft_key META_KEY_COMPACT_REV" "\<not> raft_key META_KEY_NEXT_LEASE_ID" "\<not> raft_key META_KEY_CLUSTER_ID"
  using raft_key_meta by blast+

lemma commit_ctx_folds:
  assumes "quiet_work w"
  shows "folds st (commit_ctx rv (w_ctx w) (end_work v st))"
proof -
  have "list_all quiet_row (map (\<lambda>(k, idx). IdxPut k idx) xs)" for xs by (auto simp: list_all_iff)
  then have "list_all quiet_row (commit_batch rv (w_ctx w))" using assms by (simp add: commit_batch_def quiet_work_def)
  from commit_folded_folds [OF this, of "end_work v st" st] show ?thesis by (simp add: folds_def commit_ctx_def Let_def)
qed

lemma start_quiet [simp]: "quiet_work (start_work st)"
  by (simp add: quiet_work_def ctx_default_def)

lemma apply_mutations_folds: "folds st (snd (apply_mutations ms st))"
proof -
  obtain r w where r: "apply_inner (s_index st) (s_engine st) (current_rev (s_ws st)) ms (start_work st) = (r, w)" by fastforce
  have "quiet_work w" using apply_inner_quiet_rows [OF start_quiet, of "s_index st" "s_engine st" _ ms] r by (metis snd_conv)
  then show ?thesis using r commit_ctx_folds [of w st _ w]
    by (auto simp: apply_mutations_def Let_def split: sum.split)
qed

lemma txn_folds: "folds st (snd (txn cs su fa st))"
proof -
  obtain r vc where e: "evaluate_compares (s_index st) (s_engine st) ctx_default cs (s_values st) = (r, vc)" by fastforce
  show ?thesis
  proof (cases r)
    case (Inl a)
    then show ?thesis using e by (simp add: txn_def Let_def folds_def)
  next
    case (Inr b)
    let ?t = "txn_ops (s_index st) (s_engine st) (ws_revs (s_ws st)) (if b then su else fa)
      \<lparr>tx_main = current_rev (s_ws st) + 1, tx_sub = 0, tx_produced_any = False\<rparr> ((start_work st)\<lparr>w_values := vc\<rparr>)"
    obtain q ex w where t: "?t = (q, ex, w)" by (metis prod.exhaust)
    have "quiet_work w" using txn_ops_quiet_rows [of "(start_work st)\<lparr>w_values := vc\<rparr>"] t
      by (metis (no_types, lifting) snd_conv quiet_work_def start_quiet work.select_convs(1) work.surjective work.update_convs(2))
    note c = commit_ctx_folds [OF this, of st _ w]
    show ?thesis unfolding txn_def Let_def start_work_simps e Inr prod.case sum.case t
      using c by (simp split: sum.split)
  qed
qed

lemma apply_many_folds: "folds st (snd (apply_many items st))"
proof -
  obtain r cur w where r: "apply_items (s_index st) (s_engine st) (compact_rev (s_ws st)) items (current_rev (s_ws st), start_work st) = (r, cur, w)"
    by (metis prod.exhaust)
  have "quiet_work w" using apply_items_quiet [OF start_quiet] r by (metis snd_conv)
  then show ?thesis using r commit_ctx_folds [of w st _ w] by (simp add: apply_many_def Let_def split: sum.split)
qed

lemma compact_folds: "folds st (snd (compact rv st))"
proof -
  have "list_all quiet_row (fst (compact_key c i))" for c i
    by (simp add: compact_key_def split_def Let_def list_all_iff)
  then have "list_all quiet_row (concat (map (fst \<circ> compact_key c \<circ> f) xs))" for c f xs
    by (induction xs) simp_all
  then show ?thesis by (auto simp: compact_def Let_def intro!: commit_folded_folds)
qed

lemma grant_folds: "folds st (snd (apply_lease_grant now lid ttl nu st))"
  by (simp add: apply_lease_grant_def Let_def stamp_lease_applied_def commit_folded_folds)

lemma keepalive_folds: "folds st (snd (apply_lease_keepalive now lid nu st))"
  by (auto simp: apply_lease_keepalive_def Let_def stamp_lease_applied_def commit_folded_folds split: option.split)

lemma auth_folds: "folds st (snd (apply_auth now op st))"
proof (cases "plan (t_auth (s_engine st)) op")
  case (Inr x)
  obtain ws fx where x: "x = (ws, fx)" by fastforce
  have "list_all quiet_row (map AuthWrite ws)" by (simp add: list_all_iff)
  then show ?thesis using Inr x by (auto simp: apply_auth_def Let_def fold_raft_meta_eq folds_def)
qed (simp add: apply_auth_def)

lemma cluster_folds: "folds st (snd (apply_cluster_id cid st))"
proof (cases "cluster_id st")
  case None
  then show ?thesis
    by (intro foldsI [of "[MetaPut META_KEY_CLUSTER_ID (be_bytes 8 cid)]"]) (simp_all add: apply_cluster_id_def fold_raft_meta_eq Let_def)
next
  case (Some x)
  then show ?thesis by (cases "s_pending st = []")
    (simp_all add: apply_cluster_id_def fold_raft_meta_eq Let_def folds_def, auto intro: exI [of _ "[]"])
qed

lemma revoke_folds: "folds st (snd (apply_lease_revoke lid st))"
proof (cases "collect_keys (lease_entries (s_engine st) lid)")
  case (Inr ks)
  define ms where "ms = map (\<lambda>k. MutDeleteRange k [] False) ks"
  obtain r w where r: "(if ms \<noteq> [] then apply_inner (s_index st) (s_engine st) (current_rev (s_ws st)) ms (start_work st)
      else (Inr (current_rev (s_ws st), [], False), start_work st)) = (r, w)" by fastforce
  have w: "quiet_work w" using apply_inner_quiet_rows [OF start_quiet [of st], of "s_index st" "s_engine st" "current_rev (s_ws st)" ms] r
    by (cases "ms = []") auto
  define d where "d = (w_ctx w)\<lparr>cx_batch := cx_batch (w_ctx w) @ [LeaseDelete (lease_id_key lid)] @ map LeaseKeyDelete (lease_entries (s_engine st) lid)\<rparr>"
  have q: "quiet_work (w\<lparr>w_ctx := d\<rparr>)" using w by (auto simp: quiet_work_def d_def list_all_iff)
  have c: "folds st (commit_ctx rv d (end_work w st))" for rv using commit_ctx_folds [OF q, of st rv w] by simp
  have f: "folds st (commit_folded (cx_batch d) (end_work w st))"
    by (rule commit_folded_folds) (use q in \<open>simp_all add: quiet_work_def\<close>)
  show ?thesis
  proof (cases r)
    case (Inl e)
    then show ?thesis using Inr r by (simp add: apply_lease_revoke_def ms_def [symmetric])
  next
    case (Inr x)
    obtain rv rs p where x: "x = (rv, rs, p)" by (metis prod.exhaust)
    show ?thesis using \<open>collect_keys _ = _\<close> r Inr x c f
      by (simp add: apply_lease_revoke_def Let_def ms_def [symmetric] d_def)
  qed
qed (simp add: apply_lease_revoke_def)

lemma apply_request_folds: "folds st (snd (apply_request now e i st))"
proof (cases e)
  case (LogApply ms)
  then show ?thesis using apply_mutations_folds [of st ms] by (auto split: prod.split sum.split)
next
  case (LogTxn cs su fa)
  then show ?thesis using txn_folds [of st cs su fa] by (auto split: prod.split sum.split)
next
  case (LogCompact rv)
  then show ?thesis using compact_folds [of st rv] by (auto split: prod.split sum.split)
next
  case (LogLeaseGrant a b c)
  then show ?thesis using grant_folds [of st now a b c] by (auto split: prod.split sum.split)
next
  case (LogLeaseRevoke lid)
  then show ?thesis using revoke_folds [of st lid] by (auto split: prod.split sum.split)
next
  case (LogLeaseKeepAlive a b)
  then show ?thesis using keepalive_folds [of st now a b] by (auto split: prod.split sum.split)
next
  case (LogAuth op)
  then show ?thesis using auth_folds [of st now op] by (auto split: prod.split)
next
  case (LogClusterId cid)
  then show ?thesis using cluster_folds [of st cid] by (auto simp: Let_def split: prod.split)
qed simp_all

lemma apply_data_snd: "snd (apply_data now e i st) = snd (apply_request now e i st)"
  by (auto simp: apply_data_def split: prod.split sum.split apply_error.split option.split)

lemma apply_data_folds: "folds st (snd (apply_data now e i st))"
  by (simp add: apply_data_snd apply_request_folds)

section \<open>What the tables say after a step\<close>

definition row :: "string \<Rightarrow> mvcc_store \<Rightarrow> bytes option" where
  "row k st = fmlookup (t_meta (s_engine st)) k"

text \<open>The row as it will be once what is staged has committed.\<close>

definition shown :: "string \<Rightarrow> mvcc_store \<Rightarrow> bytes option" where
  "shown k st = (case map_of (rev (s_pending st)) k of Some v \<Rightarrow> Some v | None \<Rightarrow> row k st)"

lemma meta_puts_row:
  "fmlookup (t_meta (engine_commit e (map (\<lambda>(k, v). MetaPut k v) ps))) k =
   (case map_of (rev ps) k of Some v \<Rightarrow> Some v | None \<Rightarrow> fmlookup (t_meta e) k)"
proof (induction ps arbitrary: e)
  case (Cons p ps)
  then show ?case by (cases p) (auto simp: map_add_def split: option.split)
qed simp

lemma quiet_rows_meta:
  "list_all quiet_row b \<Longrightarrow> raft_key k \<Longrightarrow> fmlookup (t_meta (engine_commit e b)) k = fmlookup (t_meta e) k"
proof (induction b arbitrary: e)
  case (Cons op b)
  then show ?case by (cases op) auto
qed simp

lemma folds_rows:
  assumes "folds st st'" "raft_key k"
  shows "(s_engine st' = s_engine st \<and> s_pending st' = s_pending st) \<or>
    (s_pending st' = [] \<and> row k st' = shown k st)"
  using assms by (auto simp: folds_def row_def shown_def commit_append meta_puts_row quiet_rows_meta split: option.split)

lemma folds_shown: "folds st st' \<Longrightarrow> raft_key k \<Longrightarrow> shown k st' = shown k st"
  using folds_rows [of st st' k] by (auto simp: shown_def row_def split: option.split)

text \<open>A cluster id, where there is one, has eight bytes.\<close>

definition cid_ok :: "mvcc_store \<Rightarrow> bool" where
  "cid_ok st \<longleftrightarrow> (\<forall>b. row META_KEY_CLUSTER_ID st = Some b \<longrightarrow> length b = 8)"

lemma quiet_rows_cid:
  "list_all quiet_row b \<Longrightarrow> \<forall>v. fmlookup (t_meta e) META_KEY_CLUSTER_ID = Some v \<longrightarrow> length v = 8 \<Longrightarrow>
   fmlookup (t_meta (engine_commit e b)) META_KEY_CLUSTER_ID = Some v \<Longrightarrow> length v = 8"
proof (induction b arbitrary: e)
  case (Cons op b)
  have "\<forall>v. fmlookup (t_meta (store_op_apply e op)) META_KEY_CLUSTER_ID = Some v \<longrightarrow> length v = 8"
    using Cons.prems(1,2) by (cases op) auto
  from Cons.IH [OF _ this] show ?case using Cons.prems by simp
qed simp

lemma pending_cid: "store_ok st \<Longrightarrow> map_of (rev (s_pending st)) META_KEY_CLUSTER_ID = None"
  by (auto simp: store_ok_def meta_ok_def list_all_iff map_of_eq_None_iff)

lemma folds_cid: "folds st st' \<Longrightarrow> store_ok st \<Longrightarrow> cid_ok st \<Longrightarrow> cid_ok st'"
  using quiet_rows_cid [of _ "s_engine st"] pending_cid [of st]
  by (auto simp: folds_def cid_ok_def row_def commit_append meta_puts_row split: option.splits)

end
