(* ===== verification/Raft_Replay.thy ===== *)
theory Raft_Replay
  imports Raft_Folding
begin

text \<open>
  The state machine as a whole: members that apply the same entries agree, no fitting entry stops
  it, and a restart at any moment of an apply, in the middle of a batch too, resumes where the tables
  are: every sub-entry takes effect exactly once.
\<close>

section \<open>Entries that fit\<close>

text \<open>What is asked of an entry in the state it meets: counts and lease ids within their integer
  types, no revision beyond the last one of i64, the two odd lease ids not revoked.\<close>

fun entry_fits :: "log_entry \<Rightarrow> mvcc_store \<Rightarrow> bool" where
  "entry_fits (LogApply ms) st = (muts_fit ms \<and> current_rev (s_ws st) < i64_max)"
| "entry_fits (LogTxn cs su fa) st = (ops_fit True 0 su \<and> ops_fit True 0 fa \<and> current_rev (s_ws st) < i64_max)"
| "entry_fits (LogLeaseGrant lid ttl now_unix) st = i64_ok (granted_id lid st)"
| "entry_fits (LogLeaseRevoke lid) st = (lease_id_ok lid \<and> current_rev (s_ws st) < i64_max \<and>
     int (length (attached lid (kv_at st (current_rev (s_ws st))))) \<le> i64_max)"
| "entry_fits (LogBatch _) st = False"
| "entry_fits _ st = True"

lemma twin_current: "twin a b \<Longrightarrow> current_revision b = current_revision a"
  using twin_store [of a b] by (simp add: current_revision_def store_ok_def)

lemma twin_ok: "twin a b \<Longrightarrow> store_ok a" "twin a b \<Longrightarrow> store_ok b"
  by (simp_all add: twin_def)

lemma cluster_current: "current_revision (snd (apply_cluster_id cid st)) = current_revision st"
  by (auto simp: apply_cluster_id_def fold_raft_meta_eq current_revision_def Let_def split: option.split)

lemma apply_request_twin:
  assumes t: "twin a b" and fit: "entry_fits e a"
  shows "fst (apply_request now' e i b) = fst (apply_request now e i a) \<and>
    twin (snd (apply_request now e i a)) (snd (apply_request now' e i b))"
proof (cases e)
  case (LogApply ms)
  then show ?thesis using apply_twin [OF t, of ms] fit
    by (cases "apply_mutations ms a"; cases "apply_mutations ms b") (auto split: sum.split)
next
  case (LogTxn cs su fa)
  then show ?thesis using txn_twin [OF t, of su fa cs] fit
    by (cases "txn cs su fa a"; cases "txn cs su fa b") (auto split: sum.split)
next
  case (LogCompact rv)
  then show ?thesis using compact_twin [OF t, of rv]
    by (cases "compact rv a"; cases "compact rv b") (auto split: sum.split)
next
  case (LogLeaseGrant lid ttl nu)
  then show ?thesis using grant_twin [OF t, of lid now' ttl nu now] fit
    by (cases "apply_lease_grant now lid ttl nu a"; cases "apply_lease_grant now' lid ttl nu b") (auto split: sum.split)
next
  case (LogLeaseRevoke lid)
  then show ?thesis using revoke_twin [OF t, of lid] fit
    by (cases "apply_lease_revoke lid a"; cases "apply_lease_revoke lid b") (auto split: sum.split)
next
  case (LogLeaseKeepAlive lid nu)
  then show ?thesis using keepalive_twin [OF t, of now' lid nu now]
    by (cases "apply_lease_keepalive now lid nu a"; cases "apply_lease_keepalive now' lid nu b") (auto split: sum.split)
next
  case (LogAuth op)
  then show ?thesis using apply_auth_twin [OF t, of now' op now]
    by (cases "apply_auth now op a"; cases "apply_auth now' op b") auto
next
  case (LogClusterId cid)
  have "twin (snd (apply_cluster_id cid a)) (snd (apply_cluster_id cid b))"
    using cluster_twin [OF twin_ok(1) [OF t], of cid] cluster_twin [OF twin_ok(2) [OF t], of cid] t
    by (meson twin_sym twin_trans)
  then show ?thesis using LogClusterId t cluster_current [of cid] twin_current [OF t] by (simp add: split_def Let_def)
qed (use t fit twin_current [OF t] in simp_all)

lemma apply_data_twin:
  assumes t: "twin a b" and fit: "entry_fits e a"
  shows "fst (apply_data now' e i b) = fst (apply_data now e i a) \<and>
    twin (snd (apply_data now e i a)) (snd (apply_data now' e i b))"
proof -
  note r = apply_request_twin [OF t fit, of now' i now]
  have "current_revision (snd (apply_request now' e i b)) = current_revision (snd (apply_request now e i a))"
    using twin_current r by blast
  then show ?thesis using r
    by (cases "apply_request now e i a"; cases "apply_request now' e i b")
      (auto simp: apply_data_def split: sum.split apply_error.split option.split)
qed

section \<open>No fitting entry stops the machine\<close>

lemma failure_refused: "request_failure e \<Longrightarrow> \<exists>r. refusal_of e = Some r"
  by (cases e) (auto simp: request_failure_def)

lemma apply_failure:
  assumes "store_ok st" "muts_fit ms" "current_rev (s_ws st) < i64_max" "apply_mutations ms st = (Inl e, st')"
  shows "request_failure e"
proof -
  have "refines (spec_apply ms (abs_store st)) st (Inl e, st')"
    using apply_refines_spec [OF assms(1) abs_store_stands [OF assms(1)] assms(2,3)] assms(4) by simp
  from failed_refines [OF assms(1) this] show ?thesis by (blast dest: spec_apply_failure)
qed

lemma txn_failure:
  assumes "store_ok st" "current_rev (s_ws st) < i64_max" "ops_fit True 0 su" "ops_fit True 0 fa" "txn cs su fa st = (Inl e, st')"
  shows "request_failure e"
proof -
  have "refines (spec_txn cs su fa (abs_store st)) st (Inl e, st')"
    using txn_refines_spec [OF assms(1) abs_store_stands [OF assms(1)] assms(2-4), of cs] assms(5) by simp
  from failed_refines [OF assms(1) this] show ?thesis by (blast dest: spec_txn_failure)
qed

lemma apply_request_errors:
  assumes st: "store_ok st" and fit: "entry_fits e st" and r: "fst (apply_request now e i st) = Inl x"
  shows "\<exists>y r. x = ErrMvcc y \<and> refusal_of y = Some r"
proof (cases e)
  case (LogApply ms)
  then show ?thesis using r fit apply_failure [OF st, of ms] failure_refused
    by (cases "apply_mutations ms st") (auto split: sum.splits)
next
  case (LogTxn cs su fa)
  then show ?thesis using r fit txn_failure [OF st, of su fa cs] failure_refused
    by (cases "txn cs su fa st") (auto split: sum.splits)
next
  case (LogCompact rv)
  then show ?thesis using r by (auto simp: compact_def Let_def split: if_splits)
next
  case (LogLeaseGrant lid ttl nu)
  then show ?thesis using r by (auto simp: apply_lease_grant_def Let_def split: if_splits)
next
  case (LogLeaseRevoke lid)
  have "int (length (attached lid (km_map (sp_now (abs_store st))))) \<le> i64_max" using fit LogLeaseRevoke by (simp add: abs_store_def)
  then show ?thesis using r fit LogLeaseRevoke revoke_spec [OF st abs_store_stands [OF st], of lid] by auto
next
  case (LogLeaseKeepAlive lid nu)
  then show ?thesis using r by (auto simp: apply_lease_keepalive_def Let_def split: option.splits)
next
  case (LogAuth op)
  then show ?thesis using r by (auto split: prod.splits)
qed (use r fit in \<open>auto simp: Let_def split: prod.splits\<close>)

lemma apply_data_answers:
  assumes "store_ok st" "entry_fits e st"
  shows "\<exists>r. fst (apply_data now e i st) = Inr r"
  using apply_request_errors [OF assms, of now i]
  by (cases "apply_request now e i st") (auto simp: apply_data_def split: sum.split apply_error.split option.split)

section \<open>The loop over a batch\<close>

definition run_at :: "log_entry list \<Rightarrow> nat \<Rightarrow> apply_item list" where
  "run_at subs j = map_while groupable (take MAX_RUN (drop j subs))"

text \<open>What is asked of one turn of the loop: that the run, or the one sub-entry, fits.\<close>

definition turn_fits :: "log_entry list \<Rightarrow> nat \<Rightarrow> nat \<Rightarrow> mvcc_store \<Rightarrow> bool" where
  "turn_fits subs skip j st \<longleftrightarrow>
     (if j < skip then \<forall>ss. subs ! j \<noteq> LogBatch ss
      else if length (run_at subs j) > 1
      then list_all item_fits (run_at subs j) \<and> current_rev (s_ws st) + int (length (run_at subs j)) \<le> i64_max
      else entry_fits (subs ! j) st)"

function batch_fits :: "(nat \<Rightarrow> nat) \<Rightarrow> nat \<Rightarrow> log_entry list \<Rightarrow> nat \<Rightarrow> bytes \<Rightarrow> nat \<Rightarrow> bool \<Rightarrow> mvcc_store \<Rightarrow> bool" where
  "batch_fits clk index subs skip ab j staged st =
     (j < length subs \<longrightarrow> turn_fits subs skip j st \<and>
        (case batch_step clk index subs skip ab j staged st of
           (Inl e, _) \<Rightarrow> True
         | (Inr (out, j, staged), st) \<Rightarrow> batch_fits clk index subs skip ab j staged st))"
  by pat_completeness auto
termination
  by (relation "measure (\<lambda>(clk, index, subs, skip, ab, j, staged, st). length subs - j)")
    (auto dest!: batch_step_forward [OF sym])

declare batch_fits.simps [simp del]

lemma group_not_batch: "length (run_at subs j) > 1 \<Longrightarrow> subs ! j \<noteq> LogBatch ss"
proof
  assume l: "length (run_at subs j) > 1" and b: "subs ! j = LogBatch ss"
  then have "j < length subs" by (cases "j < length subs") (simp_all add: run_at_def)
  then have "drop j subs = LogBatch ss # drop (Suc j) subs" using b by (metis Cons_nth_drop_Suc)
  then show False using l by (simp add: run_at_def MAX_RUN_def)
qed

text \<open>A turn of the loop, by its three kinds.\<close>

definition stage_turn :: "nat \<Rightarrow> log_entry list \<Rightarrow> bytes \<Rightarrow> nat \<Rightarrow> mvcc_store \<Rightarrow> mvcc_store" where
  "stage_turn index subs ab stop st =
     (let st = stage_batch_progress (encode_progress index stop) st
      in if stop = length subs then stage_raft_meta ab None st else st)"

lemma batch_step_skip:
  "\<forall>ss. subs ! j \<noteq> LogBatch ss \<Longrightarrow> j < skip \<Longrightarrow>
   batch_step clk index subs skip ab j staged st = (Inr ([RespNoop (current_revision st)], j + 1, staged), st)"
  by (cases "subs ! j") (simp_all add: batch_step_def)

lemma batch_step_run:
  assumes "\<not> j < skip" "length (run_at subs j) > 1"
  shows "batch_step clk index subs skip ab j staged st =
    (case apply_many (run_at subs j) (stage_turn index subs ab (j + length (run_at subs j)) st) of
       (Inl e, st) \<Rightarrow> (Inl (ErrMvcc e), st)
     | (Inr outs, st) \<Rightarrow> (Inr (map outcome_response outs, j + length (run_at subs j), j + length (run_at subs j) = length subs \<or> staged), st))"
  using assms group_not_batch [OF assms(2)]
  by (cases "subs ! j") (auto simp: batch_step_def Let_def run_at_def stage_turn_def split: prod.split sum.split)

lemma batch_step_one:
  assumes "\<not> j < skip" "\<not> length (run_at subs j) > 1" "\<forall>ss. subs ! j \<noteq> LogBatch ss"
  shows "batch_step clk index subs skip ab j staged st =
    (case apply_data (clk j) (subs ! j) index (stage_turn index subs ab (j + 1) st) of
       (Inl e, st) \<Rightarrow> (Inl e, st)
     | (Inr r, st) \<Rightarrow> (Inr ([r], j + 1, j + 1 = length subs \<or> staged), st))"
  using assms by (cases "subs ! j") (auto simp: batch_step_def Let_def run_at_def stage_turn_def split: prod.split sum.split)

lemma stage_turn_ok: "store_ok st \<Longrightarrow> twin st (stage_turn index subs ab stop st)"
  using stage_twin(2) [of st "encode_progress index stop"] stage_twin(1) [OF twin_ok(2)] twin_trans
  unfolding stage_turn_def Let_def by (metis (full_types))

lemma stage_turn_pair:
  assumes "twin a b"
  shows "twin (stage_turn i subs ab stop a) (stage_turn i' subs' ab' stop' b)"
  using assms stage_turn_ok [OF twin_ok(1) [OF assms]] stage_turn_ok [OF twin_ok(2) [OF assms]]
  by (meson twin_sym twin_trans)

lemma stage_turn_ws: "s_ws (stage_turn i subs ab stop st) = s_ws st"
  by (simp add: stage_turn_def Let_def stage_raft_meta_def stage_batch_progress_def)

lemma twin_attached: "twin a b \<Longrightarrow> kv_at b r = kv_at a r"
  using twin_index [of a b] twin_tables [of a b] by (intro fmap_ext) (simp add: kv_at_lookup)

lemma entry_fits_twin: "twin a b \<Longrightarrow> entry_fits e b = entry_fits e a"
  using twin_store(3) [of a b] twin_attached [of a b] by (cases e) (simp_all add: granted_id_def)

lemma turn_fits_twin: "twin a b \<Longrightarrow> turn_fits subs skip j b = turn_fits subs skip j a"
  using twin_store(3) [of a b] entry_fits_twin [of a b] by (simp add: turn_fits_def)

lemma entry_fits_not_batch: "entry_fits e st \<Longrightarrow> e \<noteq> LogBatch ss"
  by (cases e) auto

lemma many_answers:
  assumes "store_ok st" "list_all item_fits items" "current_rev (s_ws st) + int (length items) \<le> i64_max"
  shows "\<exists>outs. fst (apply_many items st) = Inr outs"
proof -
  note sp = abs_store_stands [OF assms(1)]
  have "items_at st (current_rev (s_ws st)) (start_work st) (abs_store st) []"
    using batch_start [OF assms(1) sp] by (simp add: items_at_def ctx_default_def)
  from items_sim [OF this assms(2)] obtain outs bs sp' where "spec_items items (abs_store st) = (Inr outs, bs, sp')" by blast
  then show ?thesis using apply_many_refines_spec [OF assms(1) sp assms(2,3)] by (auto simp: refines_def split: prod.splits)
qed

lemma batch_step_twin:
  assumes t: "twin a b" and fit: "turn_fits subs skip j a"
  shows "\<exists>x a' b'. batch_step clk i subs skip ab j staged a = (Inr x, a') \<and>
    batch_step clk' i subs skip ab' j staged b = (Inr x, b') \<and> twin a' b'"
proof (cases "j < skip")
  case True
  then show ?thesis using fit t twin_current [OF t] by (auto simp: turn_fits_def batch_step_skip)
next
  case skip: False
  show ?thesis
  proof (cases "length (run_at subs j) > 1")
    case True
    let ?a = "stage_turn i subs ab (j + length (run_at subs j)) a" and ?b = "stage_turn i subs ab' (j + length (run_at subs j)) b"
    have f: "list_all item_fits (run_at subs j)" "current_rev (s_ws ?a) + int (length (run_at subs j)) \<le> i64_max"
      using fit True skip by (simp_all add: turn_fits_def stage_turn_ws)
    note p = stage_turn_pair [OF t, of i subs ab "j + length (run_at subs j)" i subs ab' "j + length (run_at subs j)"]
    note m = apply_many_twins [OF p f] and o = many_answers [OF twin_ok(1) [OF p] f]
    then show ?thesis unfolding batch_step_run [OF skip True]
      by (cases "apply_many (run_at subs j) ?a"; cases "apply_many (run_at subs j) ?b") auto
  next
    case False
    have e: "entry_fits (subs ! j) a" using fit False skip by (simp add: turn_fits_def)
    let ?a = "stage_turn i subs ab (j + 1) a" and ?b = "stage_turn i subs ab' (j + 1) b"
    note p = stage_turn_pair [OF t, of i subs ab "j + 1" i subs ab' "j + 1"]
    have e': "entry_fits (subs ! j) ?a" using e entry_fits_twin [OF stage_turn_ok [OF twin_ok(1) [OF t]]] by simp
    note d = apply_data_twin [OF p e', of "clk' j" i "clk j"] and o = apply_data_answers [OF twin_ok(1) [OF p] e', of "clk j" i]
    have "\<forall>ss. subs ! j \<noteq> LogBatch ss" using e entry_fits_not_batch by blast
    then show ?thesis unfolding batch_step_one [OF skip False \<open>\<forall>ss. subs ! j \<noteq> LogBatch ss\<close>] using d o
      by (cases "apply_data (clk j) (subs ! j) i ?a"; cases "apply_data (clk' j) (subs ! j) i ?b") auto
  qed
qed

lemma batch_loop_step:
  assumes "j < length subs" "batch_step clk i subs skip ab j staged st = (Inr (out, j', staged'), st')"
  shows "batch_loop clk i subs skip ab j staged st =
    (case batch_loop clk i subs skip ab j' staged' st' of
       (Inl e, st) \<Rightarrow> (Inl e, st) | (Inr (rest, staged), st) \<Rightarrow> (Inr (out @ rest, staged), st))"
  using assms by (subst batch_loop.simps) simp

lemma batch_loop_end: "\<not> j < length subs \<Longrightarrow> batch_loop clk i subs skip ab j staged st = (Inr ([], staged), st)"
  by (subst batch_loop.simps) simp

lemma batch_fits_step:
  assumes "batch_fits clk i subs skip ab j staged st" "j < length subs"
  shows "turn_fits subs skip j st"
    "batch_step clk i subs skip ab j staged st = (Inr (out, j', staged'), st') \<Longrightarrow> batch_fits clk i subs skip ab j' staged' st'"
  using assms by (subst (asm) batch_fits.simps, simp)+

lemma batch_loop_twin:
  assumes "twin a b" "batch_fits clk i subs skip ab j staged a"
  shows "\<exists>x a' b'. batch_loop clk i subs skip ab j staged a = (Inr x, a') \<and>
    batch_loop clk' i subs skip ab' j staged b = (Inr x, b') \<and> twin a' b'"
  using assms
proof (induction "length subs - j" arbitrary: j staged a b rule: less_induct)
  case less
  show ?case
  proof (cases "j < length subs")
    case True
    note f = batch_fits_step [OF less.prems(2) True]
    from batch_step_twin [OF less.prems(1) f(1), of clk i ab staged clk' ab'] obtain out j' staged' a' b' where
      s: "batch_step clk i subs skip ab j staged a = (Inr (out, j', staged'), a')"
        "batch_step clk' i subs skip ab' j staged b = (Inr (out, j', staged'), b')" "twin a' b'" by auto
    have "length subs - j' < length subs - j" using batch_step_forward [OF s(1)] True by simp
    from less.hyps [OF this s(3) f(2) [OF s(1)]] obtain rest staged'' a'' b'' where
      "batch_loop clk i subs skip ab j' staged' a' = (Inr (rest, staged''), a'')"
      "batch_loop clk' i subs skip ab' j' staged' b' = (Inr (rest, staged''), b'')" "twin a'' b''" by auto
    then show ?thesis using batch_loop_step [OF True s(1)] batch_loop_step [OF True s(2)] by simp
  next
    case False
    then show ?thesis using less.prems by (simp add: batch_loop_end)
  qed
qed

section \<open>Members that agree\<close>

definition codec_ok :: "meta_codec \<Rightarrow> bool" where
  "codec_ok c \<longleftrightarrow> (\<forall>x. \<exists>b. mc_ser_log_id c x = Inr b \<and> mc_de_log_id c b = Inr x) \<and>
     (\<forall>x. \<exists>b. mc_ser_membership c x = Inr b \<and> mc_de_membership c b = Inr x)"

definition applied_bytes :: "meta_codec \<Rightarrow> log_id \<Rightarrow> bytes" where
  "applied_bytes c lid = projr (mc_ser_log_id c (Some lid))"

definition agree :: "machine \<Rightarrow> machine \<Rightarrow> bool" where
  "agree m n \<longleftrightarrow> twin (m_mvcc m) (m_mvcc n) \<and> applied_state n = applied_state m"

definition entry_index :: "raft_entry \<Rightarrow> nat" where
  "entry_index e = li_index (en_log_id e)"

text \<open>A log entry fits the machine it meets.\<close>

definition raft_fits :: "meta_codec \<Rightarrow> (nat \<Rightarrow> nat \<Rightarrow> nat) \<Rightarrow> raft_entry \<Rightarrow> machine \<Rightarrow> bool" where
  "raft_fits c clk e m \<longleftrightarrow>
     (case en_payload e of
        PayloadNormal (LogBatch subs) \<Rightarrow>
          entry_index e < 2 ^ 64 \<and> length subs < 2 ^ 64 \<and> batch_fits (clk (entry_index e)) (entry_index e) subs (skip_of (m_batch_progress m) (entry_index e))
            (applied_bytes c (en_log_id e)) 0 False (stage_batched_marker (m_mvcc m))
      | PayloadNormal d \<Rightarrow> entry_fits d (m_mvcc m)
      | _ \<Rightarrow> True)"

fun entries_fit :: "meta_codec \<Rightarrow> (nat \<Rightarrow> nat \<Rightarrow> nat) \<Rightarrow> raft_entry list \<Rightarrow> machine \<Rightarrow> bool" where
  "entries_fit c clk [] m = True"
| "entries_fit c clk (e # es) m \<longleftrightarrow> raft_fits c clk e m \<and>
     (case apply_entry c clk e m of (Inl _, _) \<Rightarrow> True | (Inr _, m) \<Rightarrow> entries_fit c clk es m)"

lemma codec_bytes:
  assumes "codec_ok c"
  shows "mc_ser_log_id c (Some lid) = Inr (applied_bytes c lid)" "mc_de_log_id c (applied_bytes c lid) = Inr (Some lid)"
    "\<exists>b. mc_ser_membership c mb = Inr b \<and> mc_de_membership c b = Inr mb"
proof -
  obtain b where "mc_ser_log_id c (Some lid) = Inr b" "mc_de_log_id c b = Inr (Some lid)" using assms unfolding codec_ok_def by blast
  then show "mc_ser_log_id c (Some lid) = Inr (applied_bytes c lid)" "mc_de_log_id c (applied_bytes c lid) = Inr (Some lid)"
    by (simp_all add: applied_bytes_def)
  show "\<exists>b. mc_ser_membership c mb = Inr b \<and> mc_de_membership c b = Inr mb" using assms by (simp add: codec_ok_def)
qed

lemma stage_pair:
  assumes "twin a b"
  shows "twin (stage_raft_meta x m a) (stage_raft_meta y n b)" "twin (stage_batched_marker a) (stage_batched_marker b)"
    "twin (flush_raft_meta a) (flush_raft_meta b)"
  using assms stage_twin [OF twin_ok(1) [OF assms]] stage_twin [OF twin_ok(2) [OF assms]]
    flush_twin [OF twin_ok(1) [OF assms]] flush_twin [OF twin_ok(2) [OF assms]]
  by (meson twin_sym twin_trans)+

lemma apply_entry_blank:
  assumes "codec_ok c" "en_payload e = PayloadBlank"
  shows "apply_entry c clk e m = (Inr (RespNoop (current_revision (m_mvcc m))),
    applied_to (en_log_id e) (m\<lparr>m_mvcc := stage_raft_meta (applied_bytes c (en_log_id e)) None (m_mvcc m)\<rparr>))"
  using assms codec_bytes(1) [OF assms(1)] by (simp add: apply_entry_def Let_def stage_raft_meta_def current_revision_def)

lemma apply_entry_membership:
  assumes "codec_ok c" "en_payload e = PayloadMembership mb"
  shows "\<exists>b. mc_de_membership c b = Inr \<lparr>sm_log_id = Some (en_log_id e), sm_membership = mb\<rparr> \<and>
    (\<forall>clk m. apply_entry c clk e m = (Inr (RespNoop (current_revision (m_mvcc m))),
      applied_to (en_log_id e) (m\<lparr>m_mvcc := stage_raft_meta (applied_bytes c (en_log_id e)) (Some b) (m_mvcc m),
        m_last_membership := \<lparr>sm_log_id = Some (en_log_id e), sm_membership = mb\<rparr>\<rparr>)))"
  using assms codec_bytes(1) [OF assms(1), of "en_log_id e"]
    codec_bytes(3) [OF assms(1), of "\<lparr>sm_log_id = Some (en_log_id e), sm_membership = mb\<rparr>"]
  by (auto simp: apply_entry_def Let_def stage_raft_meta_def current_revision_def)

lemma apply_entry_data:
  assumes "codec_ok c" "en_payload e = PayloadNormal d" "\<forall>ss. d \<noteq> LogBatch ss"
  shows "apply_entry c clk e m =
    (case apply_data (clk (entry_index e) 0) d (entry_index e) (stage_raft_meta (applied_bytes c (en_log_id e)) None (m_mvcc m)) of
       (Inl x, st) \<Rightarrow> (Inl (ApplyFailed x), m\<lparr>m_mvcc := st\<rparr>)
     | (Inr r, st) \<Rightarrow> (Inr r, applied_to (en_log_id e)
         (m\<lparr>m_mvcc := st, m_proposals := pl_record (entry_index e) 1 (m_proposals m)\<rparr>)))"
  unfolding entry_index_def using assms codec_bytes(1) [OF assms(1)] by (cases d) (simp_all add: apply_entry_def Let_def)

lemma apply_entry_batch:
  assumes "codec_ok c" "en_payload e = PayloadNormal (LogBatch subs)"
  shows "apply_entry c clk e m =
    (case apply_batch (clk (entry_index e)) (entry_index e) subs (skip_of (m_batch_progress m) (entry_index e))
        (applied_bytes c (en_log_id e)) (m_mvcc m) of
       (Inl x, st) \<Rightarrow> (Inl (ApplyFailed x), m\<lparr>m_mvcc := st\<rparr>)
     | (Inr r, st) \<Rightarrow> (Inr r, applied_to (en_log_id e)
         (m\<lparr>m_mvcc := st, m_proposals := pl_record (entry_index e) (length subs) (m_proposals m)\<rparr>)))"
  unfolding entry_index_def using assms codec_bytes(1) [OF assms(1)] by (simp add: apply_entry_def Let_def)

lemma raft_fits_data:
  assumes "en_payload e = PayloadNormal d" "\<forall>ss. d \<noteq> LogBatch ss"
  shows "raft_fits c clk e m = entry_fits d (m_mvcc m)"
  using assms by (cases d) (simp_all add: raft_fits_def)

lemma applied_to_simps [simp]:
  "m_mvcc (applied_to lid m) = m_mvcc m" "m_last_applied (applied_to lid m) = Some lid"
  "m_last_membership (applied_to lid m) = m_last_membership m" "m_batch_progress (applied_to lid m) = m_batch_progress m"
  "m_applied (applied_to lid m) = li_index lid + 1"
  by (simp_all add: applied_to_def)

lemma apply_entry_twin:
  assumes c: "codec_ok c" and a: "agree m n" and f: "raft_fits c clk e m"
    and sk: "skip_of (m_batch_progress n) (entry_index e) = skip_of (m_batch_progress m) (entry_index e)"
  shows "\<exists>r m' n'. apply_entry c clk e m = (Inr r, m') \<and> apply_entry c clk' e n = (Inr r, n') \<and> agree m' n' \<and>
    m_batch_progress m' = m_batch_progress m \<and> m_batch_progress n' = m_batch_progress n \<and> m_last_applied m' = Some (en_log_id e)"
proof -
  have t: "twin (m_mvcc m) (m_mvcc n)" and mb: "m_last_membership n = m_last_membership m"
    using a by (simp_all add: agree_def applied_state_def)
  let ?ab = "applied_bytes c (en_log_id e)" and ?i = "entry_index e"
  note s = stage_pair(1) [OF t, of ?ab None ?ab None]
  show ?thesis
  proof (cases "en_payload e")
    case PayloadBlank
    then show ?thesis using apply_entry_blank [OF c] s mb twin_current [OF t] by (simp add: agree_def applied_state_def)
  next
    case (PayloadMembership mem)
    from apply_entry_membership [OF c this] obtain b where
      "\<And>clk m. apply_entry c clk e m = (Inr (RespNoop (current_revision (m_mvcc m))),
        applied_to (en_log_id e) (m\<lparr>m_mvcc := stage_raft_meta ?ab (Some b) (m_mvcc m),
          m_last_membership := \<lparr>sm_log_id = Some (en_log_id e), sm_membership = mem\<rparr>\<rparr>))" by blast
    then show ?thesis using stage_pair(1) [OF t, of ?ab "Some b" ?ab "Some b"] twin_current [OF t] by (simp add: agree_def applied_state_def)
  next
    case p: (PayloadNormal d)
    show ?thesis
    proof (cases "\<exists>subs. d = LogBatch subs")
      case True
      then obtain subs where d: "d = LogBatch subs" by blast
      have "batch_fits (clk ?i) ?i subs (skip_of (m_batch_progress m) ?i) ?ab 0 False (stage_batched_marker (m_mvcc m))"
        using f p d by (simp add: raft_fits_def)
      from batch_loop_twin [OF stage_pair(2) [OF t] this, of "clk' ?i" ?ab] obtain out staged a' b' where
        l: "batch_loop (clk ?i) ?i subs (skip_of (m_batch_progress m) ?i) ?ab 0 False (stage_batched_marker (m_mvcc m)) = (Inr (out, staged), a')"
          "batch_loop (clk' ?i) ?i subs (skip_of (m_batch_progress n) ?i) ?ab 0 False (stage_batched_marker (m_mvcc n)) = (Inr (out, staged), b')"
          "twin a' b'" using sk by auto
      then show ?thesis using apply_entry_batch [OF c] p d mb stage_pair(1) [OF l(3), of ?ab None ?ab None]
        by (simp add: apply_batch_def agree_def applied_state_def)
    next
      case False
      then have nb: "\<forall>ss. d \<noteq> LogBatch ss" by blast
      have "entry_fits d (m_mvcc m)" using f raft_fits_data [OF p nb] by simp
      then have e: "entry_fits d (stage_raft_meta ?ab None (m_mvcc m))"
        using entry_fits_twin [OF stage_twin(1) [OF twin_ok(1) [OF t]]] by simp
      from apply_data_answers [OF twin_ok(1) [OF s] e, of "clk ?i 0" ?i] obtain r where
        "fst (apply_data (clk ?i 0) d ?i (stage_raft_meta ?ab None (m_mvcc m))) = Inr r" by blast
      then show ?thesis using apply_data_twin [OF s e, of "clk' ?i 0" ?i "clk ?i 0"] apply_entry_data [OF c p nb] mb
        by (cases "apply_data (clk ?i 0) d ?i (stage_raft_meta ?ab None (m_mvcc m))";
            cases "apply_data (clk' ?i 0) d ?i (stage_raft_meta ?ab None (m_mvcc n))")
          (simp add: agree_def applied_state_def)
    qed
  qed
qed

lemma apply_entries_twin:
  assumes "codec_ok c" "agree m n" "entries_fit c clk es m"
    "\<forall>e \<in> set es. skip_of (m_batch_progress n) (entry_index e) = skip_of (m_batch_progress m) (entry_index e)"
  shows "\<exists>rs m' n'. apply_entries c clk es m = (Inr rs, m') \<and> apply_entries c clk' es n = (Inr rs, n') \<and> agree m' n'"
  using assms(2-)
proof (induction es arbitrary: m n)
  case (Cons e es)
  from apply_entry_twin [OF assms(1) Cons.prems(1), of clk e clk'] Cons.prems obtain r m' n' where
    s: "apply_entry c clk e m = (Inr r, m')" "apply_entry c clk' e n = (Inr r, n')" "agree m' n'"
      "m_batch_progress m' = m_batch_progress m" "m_batch_progress n' = m_batch_progress n" by auto
  from Cons.IH [OF s(3)] s Cons.prems show ?case by fastforce
qed simp

lemma machine_apply_twin:
  assumes "codec_ok c" "agree m n" "entries_fit c clk es m"
    "\<forall>e \<in> set es. skip_of (m_batch_progress n) (entry_index e) = skip_of (m_batch_progress m) (entry_index e)"
  shows "\<exists>rs m' n'. machine_apply c clk es m = (Inr rs, m') \<and> machine_apply c clk' es n = (Inr rs, n') \<and> agree m' n'"
proof -
  from apply_entries_twin [OF assms, of clk'] obtain rs m' n' where
    "apply_entries c clk es m = (Inr rs, m')" "apply_entries c clk' es n = (Inr rs, n')" "agree m' n'" by blast
  then show ?thesis using stage_pair(3) [of "m_mvcc m'" "m_mvcc n'"]
    by (auto simp: machine_apply_def agree_def applied_state_def)
qed

text \<open>C12: Members that agree stay in agreement: two state machines with the same tables, whatever their
  caches hold and their clocks say, answer the same committed entries with the same responses, never
  stop on an entry that fits, and agree again afterwards.\<close>

theorem members_agree:
  assumes "codec_ok c" "agree m n" "entries_fit c clk es m"
    "\<forall>e \<in> set es. skip_of (m_batch_progress n) (entry_index e) = skip_of (m_batch_progress m) (entry_index e)"
  shows "\<exists>rs. fst (machine_apply c clk es m) = Inr rs \<and> fst (machine_apply c clk' es n) = Inr rs \<and> length rs = length es \<and>
    agree (snd (machine_apply c clk es m)) (snd (machine_apply c clk' es n))"
proof -
  from machine_apply_twin [OF assms, of clk'] obtain rs m' n' where
    r: "machine_apply c clk es m = (Inr rs, m')" "machine_apply c clk' es n = (Inr rs, n')" "agree m' n'" by blast
  have "length rs = length es" if "apply_entries c clk es m = (Inr rs, m')" for es rs m m'
    using that by (induction es arbitrary: rs m) (auto split: prod.splits sum.splits)
  then have "length rs = length es" using r(1) by (auto simp: machine_apply_def split: prod.splits sum.splits)
  then show ?thesis using r by simp
qed

section \<open>A sample machine\<close>

text \<open>A codec, by counting: any pair of functions that invert each other will do.\<close>

definition sample_codec :: meta_codec where
  "sample_codec = \<lparr>
     mc_ser_log_id = (\<lambda>x. Inr (replicate (to_nat (map_option (\<lambda>l. (li_term l, li_node l, li_index l)) x)) 0)),
     mc_de_log_id = (\<lambda>b. Inr (map_option (\<lambda>(t, n, i). \<lparr>li_term = t, li_node = n, li_index = i\<rparr>) (from_nat (length b)))),
     mc_ser_membership = (\<lambda>m. Inr (replicate (to_nat (map_option (\<lambda>l. (li_term l, li_node l, li_index l)) (sm_log_id m),
       mb_configs (sm_membership m), mb_nodes (sm_membership m))) 0)),
     mc_de_membership = (\<lambda>b. case from_nat (length b) of (l, cs, ns) \<Rightarrow>
       Inr \<lparr>sm_log_id = map_option (\<lambda>(t, n, i). \<lparr>li_term = t, li_node = n, li_index = i\<rparr>) l,
            sm_membership = \<lparr>mb_configs = cs, mb_nodes = ns\<rparr>\<rparr>)\<rparr>"

lemma record_eta:
  "\<lparr>li_term = li_term l, li_node = li_node l, li_index = li_index l\<rparr> = l"
  "\<lparr>sm_log_id = sm_log_id m, sm_membership = \<lparr>mb_configs = mb_configs (sm_membership m), mb_nodes = mb_nodes (sm_membership m)\<rparr>\<rparr> = m"
  by simp_all

lemma sample_codec_ok: "codec_ok sample_codec"
  by (auto simp: codec_ok_def sample_codec_def option.map_comp o_def record_eta option.map_ident)

definition sample_machine :: "mvcc_store \<Rightarrow> machine" where
  "sample_machine st = \<lparr>m_mvcc = st, m_last_applied = None, m_last_membership = stored_membership_default,
     m_current_snapshot = None, m_snapshot_idx = 0, m_batch_progress = None, m_applied = 0, m_proposals = proposal_log_default\<rparr>"

definition sample_entry :: "nat \<Rightarrow> entry_payload \<Rightarrow> raft_entry" where
  "sample_entry i p = \<lparr>en_log_id = \<lparr>li_term = 1, li_node = 1, li_index = i\<rparr>, en_payload = p\<rparr>"

lemma sample_agree: "agree (sample_machine sample_store) (sample_machine sample_store)"
  by (simp add: agree_def sample_machine_def twin_refl sample_store_ok)

theorem members_agree_witness:
  "\<exists>rs. fst (machine_apply sample_codec (\<lambda>_ _. 0) [sample_entry 0 PayloadBlank, sample_entry 1 (PayloadNormal (LogApply [sample_put [1] 0]))]
      (sample_machine sample_store)) = Inr rs \<and> length rs = 2"
proof -
  have "entries_fit sample_codec (\<lambda>_ _. 0) [sample_entry 0 PayloadBlank, sample_entry 1 (PayloadNormal (LogApply [sample_put [1] 0]))]
      (sample_machine sample_store)"
    by (auto simp: apply_entry_blank [OF sample_codec_ok] sample_entry_def raft_fits_def sample_machine_def sample_fits stage_raft_meta_def
        sample_store_ok i64_defs split: prod.splits sum.splits)
  from members_agree [OF sample_codec_ok sample_agree this, of "\<lambda>_ _. 7"] show ?thesis by auto
qed

end
