(* ===== verification/Raft_Crash.thy ===== *)
theory Raft_Crash
  imports Raft_Replay
begin

text \<open>
  Crashes of the state machine: the moments at which the process may stop while it applies entries,
  what the tables then say, and that applying the rest of the log after a restart ends where the run
  without the crash ends.
\<close>

section \<open>Moments of a crash\<close>

text \<open>The stores between the turns of the loop over a batch. Inside a turn the engine is the one
  before or the one after it, since each turn makes at most one commit.\<close>

function batch_points ::
  "(nat \<Rightarrow> nat) \<Rightarrow> nat \<Rightarrow> log_entry list \<Rightarrow> nat \<Rightarrow> bytes \<Rightarrow> nat \<Rightarrow> bool \<Rightarrow> mvcc_store \<Rightarrow> mvcc_store list" where
  "batch_points clk i subs skip ab j staged st =
     st # (if j < length subs then
             (case batch_step clk i subs skip ab j staged st of
                (Inl _, st) \<Rightarrow> [st]
              | (Inr (_, j, staged), st) \<Rightarrow> batch_points clk i subs skip ab j staged st)
           else [])"
  by pat_completeness auto
termination
  by (relation "measure (\<lambda>(clk, index, subs, skip, ab, j, staged, st). length subs - j)")
    (auto dest!: batch_step_forward [OF sym])

declare batch_points.simps [simp del]

definition entry_points :: "meta_codec \<Rightarrow> (nat \<Rightarrow> nat \<Rightarrow> nat) \<Rightarrow> raft_entry \<Rightarrow> machine \<Rightarrow> mvcc_store list" where
  "entry_points c clk e m = m_mvcc m #
     (case en_payload e of
        PayloadNormal (LogBatch subs) \<Rightarrow>
          batch_points (clk (entry_index e)) (entry_index e) subs (skip_of (m_batch_progress m) (entry_index e))
            (applied_bytes c (en_log_id e)) 0 False (stage_batched_marker (m_mvcc m))
      | _ \<Rightarrow> [])"

fun crash_points :: "meta_codec \<Rightarrow> (nat \<Rightarrow> nat \<Rightarrow> nat) \<Rightarrow> raft_entry list \<Rightarrow> machine \<Rightarrow> mvcc_store list" where
  "crash_points c clk [] m = [m_mvcc m, flush_raft_meta (m_mvcc m)]"
| "crash_points c clk (e # es) m = entry_points c clk e m @
     (case apply_entry c clk e m of (Inl _, m) \<Rightarrow> [m_mvcc m] | (Inr _, m) \<Rightarrow> crash_points c clk es m)"

section \<open>Batch progress\<close>

lemma progress_roundtrip: "i < 2 ^ 64 \<Longrightarrow> n < 2 ^ 64 \<Longrightarrow> decode_progress (encode_progress i n) = Some (i, n)"
  by (simp add: decode_progress_def encode_progress_def of_be_bytes_be_bytes)

section \<open>What is staged\<close>

lemma map_of_filter_key: "(\<And>v. P (k, v)) \<Longrightarrow> map_of (filter P xs) k = map_of xs k"
  by (induction xs) auto

lemma raft_keys:
  "raft_key META_KEY_RAFT_APPLIED" "raft_key META_KEY_RAFT_MEMBERSHIP" "raft_key META_KEY_RAFT_BATCH" "raft_key META_KEY_BATCHED"
  by (simp_all add: raft_key_def)

lemma key_names:
  "META_KEY_RAFT_APPLIED \<noteq> META_KEY_RAFT_MEMBERSHIP" "META_KEY_RAFT_APPLIED \<noteq> META_KEY_RAFT_BATCH"
  "META_KEY_RAFT_MEMBERSHIP \<noteq> META_KEY_RAFT_BATCH" "META_KEY_BATCHED \<noteq> META_KEY_RAFT_APPLIED"
  "META_KEY_BATCHED \<noteq> META_KEY_RAFT_MEMBERSHIP" "META_KEY_BATCHED \<noteq> META_KEY_RAFT_BATCH"
  by (simp_all add: META_KEY_RAFT_APPLIED_def META_KEY_RAFT_MEMBERSHIP_def META_KEY_RAFT_BATCH_def META_KEY_BATCHED_def)

lemma shown_other:
  assumes "map_of (rev (s_pending st')) k = map_of (rev (s_pending st)) k" "s_engine st' = s_engine st"
  shows "shown k st' = shown k st"
  using assms by (simp add: shown_def row_def split: option.split)

lemma shown_staged: "map_of (rev (s_pending st)) k = Some v \<Longrightarrow> shown k st = Some v"
  by (simp add: shown_def)

lemmas stage_defs = stage_raft_meta_def stage_batch_progress_def stage_batched_marker_def rev_filter map_of_filter_key
  key_names key_names [symmetric] Let_def

lemma shown_stage_meta [simp]:
  "shown META_KEY_RAFT_APPLIED (stage_raft_meta ab mb st) = Some ab"
  "shown META_KEY_RAFT_MEMBERSHIP (stage_raft_meta ab None st) = shown META_KEY_RAFT_MEMBERSHIP st"
  "shown META_KEY_RAFT_MEMBERSHIP (stage_raft_meta ab (Some b) st) = Some b"
  "shown META_KEY_RAFT_BATCH (stage_raft_meta ab mb st) = shown META_KEY_RAFT_BATCH st"
  subgoal by (rule shown_staged) (cases mb; simp add: stage_defs)
  subgoal by (rule shown_other) (simp_all add: stage_defs)
  subgoal by (rule shown_staged) (simp add: stage_defs)
  subgoal by (rule shown_other; cases mb) (simp_all add: stage_defs)
  done

lemma shown_stage_progress [simp]:
  "shown META_KEY_RAFT_BATCH (stage_batch_progress b st) = Some b"
  "shown META_KEY_RAFT_APPLIED (stage_batch_progress b st) = shown META_KEY_RAFT_APPLIED st"
  "shown META_KEY_RAFT_MEMBERSHIP (stage_batch_progress b st) = shown META_KEY_RAFT_MEMBERSHIP st"
  subgoal by (rule shown_staged) (simp add: stage_defs)
  subgoal by (rule shown_other) (simp_all add: stage_defs)
  subgoal by (rule shown_other) (simp_all add: stage_defs)
  done

lemma shown_marker [simp]:
  "shown META_KEY_RAFT_BATCH (stage_batched_marker st) = shown META_KEY_RAFT_BATCH st"
  "shown META_KEY_RAFT_APPLIED (stage_batched_marker st) = shown META_KEY_RAFT_APPLIED st"
  "shown META_KEY_RAFT_MEMBERSHIP (stage_batched_marker st) = shown META_KEY_RAFT_MEMBERSHIP st"
  by (rule shown_other; simp add: stage_batched_marker_def key_names(4-6) [symmetric])+

lemma stage_engine [simp]:
  "s_engine (stage_raft_meta ab mb st) = s_engine st" "s_engine (stage_batch_progress b st) = s_engine st"
  "s_engine (stage_batched_marker st) = s_engine st" "s_engine (stage_turn i subs ab stop st) = s_engine st"
  by (simp_all add: stage_raft_meta_def stage_batch_progress_def stage_batched_marker_def stage_turn_def Let_def)

lemma shown_settled: "s_pending st = [] \<Longrightarrow> shown k st = row k st"
  by (simp add: shown_def)

section \<open>Skipping\<close>

lemma batch_step_from:
  assumes "skip \<le> j" "skip' \<le> j"
  shows "batch_step clk i subs skip ab j staged st = batch_step clk i subs skip' ab j staged st"
  using assms by (cases "subs ! j") (simp_all add: batch_step_def)

lemma batch_loop_from:
  assumes "skip \<le> j" "skip' \<le> j"
  shows "batch_loop clk i subs skip ab j staged st = batch_loop clk i subs skip' ab j staged st"
  using assms
proof (induction "length subs - j" arbitrary: j staged st rule: less_induct)
  case less
  show ?case
  proof (cases "j < length subs")
    case True
    obtain r st' where s: "batch_step clk i subs skip ab j staged st = (r, st')" by fastforce
    have s': "batch_step clk i subs skip' ab j staged st = (r, st')" using s batch_step_from [OF less.prems] by metis
    show ?thesis
    proof (cases r)
      case (Inl e)
      then show ?thesis using s s' by (subst (1 2) batch_loop.simps) simp
    next
      case (Inr x)
      obtain out j' staged' where x: "x = (out, j', staged')" by (metis prod.exhaust)
      have "j < j'" using batch_step_forward s Inr x by metis
      then have "batch_loop clk i subs skip ab j' staged' st' = batch_loop clk i subs skip' ab j' staged' st'"
        using less.hyps [of j'] less.prems True by simp
      then show ?thesis using batch_loop_step [OF True] s s' Inr x by simp
    qed
  qed (simp add: batch_loop_end)
qed

lemma batch_fits_from:
  assumes "skip \<le> j" "skip' \<le> j" "batch_fits clk i subs skip ab j staged st"
  shows "batch_fits clk i subs skip' ab j staged st"
  using assms
proof (induction "length subs - j" arbitrary: j staged st rule: less_induct)
  case less
  show ?case
  proof (cases "j < length subs")
    case True
    note f = batch_fits_step [OF less.prems(3) True]
    have t: "turn_fits subs skip' j st" using f(1) less.prems(1,2) by (simp add: turn_fits_def)
    have "batch_fits clk i subs skip' ab j' staged' st'"
      if "batch_step clk i subs skip' ab j staged st = (Inr (out, j', staged'), st')" for out j' staged' st'
    proof -
      have s: "batch_step clk i subs skip ab j staged st = (Inr (out, j', staged'), st')"
        using that batch_step_from [OF less.prems(1,2)] by metis
      then show ?thesis using less.hyps [of j'] batch_step_forward [OF s] less.prems(1,2) True f(2) [OF s] by simp
    qed
    then show ?thesis using t by (subst batch_fits.simps) (auto split: prod.split sum.split)
  qed (subst batch_fits.simps, simp)
qed

text \<open>Skipped sub-entries are answered and change nothing.\<close>

lemma batch_loop_skip:
  assumes "j \<le> d" "d \<le> length subs" "\<forall>k < d. \<forall>ss. subs ! k \<noteq> LogBatch ss"
    and "batch_loop clk i subs d ab d staged st = (Inr (out, staged'), st')"
  shows "\<exists>out'. batch_loop clk i subs d ab j staged st = (Inr (out', staged'), st')"
  using assms(1)
proof (induction "d - j" arbitrary: j)
  case 0
  then show ?case using assms(4) by auto
next
  case (Suc n)
  then have j: "j < d" "j < length subs" using assms(2) by simp_all
  have "n = d - (j + 1)" "j + 1 \<le> d" using Suc.hyps(2) j by simp_all
  from Suc.hyps(1) [OF this] obtain out' where
    "batch_loop clk i subs d ab (j + 1) staged st = (Inr (out', staged'), st')" by blast
  then show ?case using batch_loop_step [OF j(2) batch_step_skip [OF _ j(1)]] assms(3) j(1) by auto
qed

section \<open>Resuming\<close>

definition de_applied :: "meta_codec \<Rightarrow> bytes option \<Rightarrow> string + log_id option" where
  "de_applied c b = (case b of Some b \<Rightarrow> mc_de_log_id c b | None \<Rightarrow> Inr None)"

definition de_members :: "meta_codec \<Rightarrow> bytes option \<Rightarrow> string + stored_membership" where
  "de_members c b = (case b of Some b \<Rightarrow> mc_de_membership c b | None \<Rightarrow> Inr stored_membership_default)"

definition de_skip :: "bytes option \<Rightarrow> nat \<Rightarrow> nat" where
  "de_skip b i = skip_of (Option.bind b decode_progress) i"

text \<open>The tables, once what is staged is in them, say what the machine holds in memory; only the
  next entry may be partly applied.\<close>

definition mach_inv :: "meta_codec \<Rightarrow> machine \<Rightarrow> bool" where
  "mach_inv c m \<longleftrightarrow> store_ok (m_mvcc m) \<and> cid_ok (m_mvcc m) \<and> m_applied m = next_index (m_last_applied m) \<and>
     de_applied c (shown META_KEY_RAFT_APPLIED (m_mvcc m)) = Inr (m_last_applied m) \<and>
     de_members c (shown META_KEY_RAFT_MEMBERSHIP (m_mvcc m)) = Inr (m_last_membership m) \<and>
     (\<forall>i \<ge> m_applied m. de_skip (shown META_KEY_RAFT_BATCH (m_mvcc m)) i = skip_of (m_batch_progress m) i) \<and>
     (\<forall>i > m_applied m. skip_of (m_batch_progress m) i = 0)"

text \<open>A machine opened on the tables of \<open>x\<close> ends, given the entries after the position the tables
  name, where \<open>F\<close> is.\<close>

definition resumes :: "meta_codec \<Rightarrow> raft_entry list \<Rightarrow> machine \<Rightarrow> mvcc_store \<Rightarrow> bool" where
  "resumes c es F x \<longleftrightarrow> (\<exists>p mem. de_applied c (row META_KEY_RAFT_APPLIED x) = Inr p \<and>
     de_members c (row META_KEY_RAFT_MEMBERSHIP x) = Inr mem \<and>
     (\<forall>i > next_index p. de_skip (row META_KEY_RAFT_BATCH x) i = 0) \<and>
     (\<forall>n clk. twin x (m_mvcc n) \<and> m_last_applied n = p \<and> m_last_membership n = mem \<and>
        (\<forall>i \<ge> next_index p. skip_of (m_batch_progress n) i = de_skip (row META_KEY_RAFT_BATCH x) i) \<longrightarrow>
        (\<exists>rs F'. machine_apply c clk (filter (\<lambda>e. next_index p \<le> entry_index e) es) n = (Inr rs, F') \<and> agree F F')))"

lemma resumes_idle:
  assumes "resumes c es F x" "store_ok x" "store_ok y" "s_engine y = s_engine x"
  shows "resumes c es F y"
proof -
  have "row k y = row k x" for k using assms(4) by (simp add: row_def)
  moreover have "twin y n \<Longrightarrow> twin x n" for n using idle_twin [OF assms(2-4)] twin_trans by blast
  ultimately show ?thesis using assms(1) unfolding resumes_def by auto
qed

lemma machine_apply_cons:
  assumes "apply_entry c clk e m = (Inr r, m')"
  shows "machine_apply c clk (e # es) m =
    (case machine_apply c clk es m' of (Inl x, m) \<Rightarrow> (Inl x, m) | (Inr rs, m) \<Rightarrow> (Inr (r # rs), m))"
  using assms by (simp add: machine_apply_def split: prod.split sum.split)

lemma settled_resumes:
  assumes c: "codec_ok c" and m: "mach_inv c m" "s_pending (m_mvcc m) = []" and fit: "entries_fit c clk rest m"
    and F: "machine_apply c clk rest m = (Inr rs, F)"
    and es: "\<forall>e \<in> set pre. entry_index e < m_applied m" "\<forall>e \<in> set rest. m_applied m \<le> entry_index e"
  shows "resumes c (pre @ rest) F (m_mvcc m)"
proof -
  let ?p = "m_last_applied m"
  have p: "next_index ?p = m_applied m" using m(1) by (simp add: mach_inv_def)
  have fl: "filter (\<lambda>e. next_index ?p \<le> entry_index e) (pre @ rest) = rest"
    using es p by (auto simp: filter_empty_conv intro!: filter_True)
  have "\<exists>rs' F'. machine_apply c clk' rest n = (Inr rs', F') \<and> agree F F'"
    if n: "twin (m_mvcc m) (m_mvcc n)" "m_last_applied n = ?p" "m_last_membership n = m_last_membership m"
      "\<forall>i \<ge> next_index ?p. skip_of (m_batch_progress n) i = de_skip (row META_KEY_RAFT_BATCH (m_mvcc m)) i" for n clk'
  proof -
    have "agree m n" using n by (simp add: agree_def applied_state_def)
    moreover have "\<forall>e \<in> set rest. skip_of (m_batch_progress n) (entry_index e) = skip_of (m_batch_progress m) (entry_index e)"
      using n(4) es(2) m p by (auto simp: mach_inv_def shown_settled)
    ultimately show ?thesis using machine_apply_twin [OF c _ fit, of n clk'] F by fastforce
  qed
  then show ?thesis using m fl unfolding resumes_def
    by (intro exI [of _ ?p] exI [of _ "m_last_membership m"]) (auto simp: mach_inv_def shown_settled)
qed

section \<open>The loop of a batch\<close>

text \<open>The entry being applied, its batch, the machine before it and after it, and where the whole
  run ends.\<close>

definition in_batch ::
  "meta_codec \<Rightarrow> (nat \<Rightarrow> nat \<Rightarrow> nat) \<Rightarrow> raft_entry \<Rightarrow> log_entry list \<Rightarrow> machine \<Rightarrow> machine \<Rightarrow> raft_entry list \<Rightarrow> raft_entry list \<Rightarrow> machine \<Rightarrow> bool" where
  "in_batch c clk e subs m m' pre rest F \<longleftrightarrow>
     codec_ok c \<and> mach_inv c m \<and> en_payload e = PayloadNormal (LogBatch subs) \<and> raft_fits c clk e m \<and>
     entry_index e = m_applied m \<and> (\<exists>r. apply_entry c clk e m = (Inr r, m')) \<and> mach_inv c m' \<and> entries_fit c clk rest m' \<and>
     (\<exists>rs. machine_apply c clk rest m' = (Inr rs, F)) \<and>
     (\<forall>x \<in> set pre. entry_index x < m_applied m) \<and> (\<forall>x \<in> set rest. m_applied m < entry_index x)"

text \<open>A boundary of the loop from which it goes on to the machine after the entry.\<close>

definition at_turn ::
  "meta_codec \<Rightarrow> (nat \<Rightarrow> nat \<Rightarrow> nat) \<Rightarrow> raft_entry \<Rightarrow> log_entry list \<Rightarrow> machine \<Rightarrow> machine \<Rightarrow> nat \<Rightarrow> bool \<Rightarrow> mvcc_store \<Rightarrow> bool" where
  "at_turn c clk e subs m m' j staged y \<longleftrightarrow>
     (let i = entry_index e; ab = applied_bytes c (en_log_id e); skip = skip_of (m_batch_progress m) i in
      store_ok y \<and> cid_ok y \<and> batch_fits (clk i) i subs skip ab j staged y \<and>
      (\<exists>out staged' y'. batch_loop (clk i) i subs skip ab j staged y = (Inr (out, staged'), y') \<and>
         m_mvcc m' = (if staged' then y' else stage_raft_meta ab None y')) \<and>
      shown META_KEY_RAFT_MEMBERSHIP y = shown META_KEY_RAFT_MEMBERSHIP (m_mvcc m) \<and>
      shown META_KEY_RAFT_APPLIED y = (if staged then Some ab else shown META_KEY_RAFT_APPLIED (m_mvcc m)) \<and>
      (staged \<longrightarrow> j = length subs) \<and> (\<forall>k < j. k < length subs \<longrightarrow> (\<forall>ss. subs ! k \<noteq> LogBatch ss)) \<and>
      de_skip (shown META_KEY_RAFT_BATCH y) i = max skip j \<and> (\<forall>i' > i. de_skip (shown META_KEY_RAFT_BATCH y) i' = 0))"

lemma map_while_prefix:
  "length (map_while f xs) \<le> length xs \<and> (\<forall>k < length (map_while f xs). f (xs ! k) \<noteq> None)"
proof (induction xs)
  case (Cons x xs)
  then show ?case by (cases "f x") (auto simp: nth_Cons split: nat.split)
qed simp

lemma run_at_prefix:
  assumes "j \<le> length subs"
  shows "j + length (run_at subs j) \<le> length subs"
    "j \<le> k \<Longrightarrow> k < j + length (run_at subs j) \<Longrightarrow> subs ! k \<noteq> LogBatch ss"
proof -
  note p = map_while_prefix [of groupable "take MAX_RUN (drop j subs)"]
  then have "length (run_at subs j) \<le> length subs - j" by (simp add: run_at_def)
  then show l: "j + length (run_at subs j) \<le> length subs" using assms by simp
  assume k: "j \<le> k" "k < j + length (run_at subs j)"
  then have "groupable (take MAX_RUN (drop j subs) ! (k - j)) \<noteq> None" using p by (simp add: run_at_def)
  moreover have "k - j < length (run_at subs j)" "length (run_at subs j) \<le> MAX_RUN" using k p by (simp_all add: run_at_def)
  ultimately have "groupable (subs ! k) \<noteq> None" using k l by simp
  then show "subs ! k \<noteq> LogBatch ss" by auto
qed

lemma turn_effect:
  assumes y: "store_ok y" and j: "j < length subs" "\<not> j < skip" and fit: "turn_fits subs skip j y"
  shows "\<exists>out stop y'. batch_step clk i subs skip ab j staged y = (Inr (out, stop, stop = length subs \<or> staged), y') \<and>
    j < stop \<and> stop \<le> length subs \<and> (\<forall>k. j \<le> k \<and> k < stop \<longrightarrow> (\<forall>ss. subs ! k \<noteq> LogBatch ss)) \<and>
    folds (stage_turn i subs ab stop y) y' \<and> store_ok y'"
proof -
  from batch_step_twin [OF twin_refl [OF y] fit, of clk i ab staged clk ab] obtain x y' where
    s: "batch_step clk i subs skip ab j staged y = (Inr x, y')" "store_ok y'" by (auto dest: twin_ok)
  show ?thesis
  proof (cases "length (run_at subs j) > 1")
    case True
    let ?stop = "j + length (run_at subs j)"
    have "x = (fst x, ?stop, ?stop = length subs \<or> staged)" "y' = snd (apply_many (run_at subs j) (stage_turn i subs ab ?stop y))"
      using s(1) unfolding batch_step_run [OF j(2) True] by (auto split: prod.splits sum.splits)
    then show ?thesis using s apply_many_folds [of "stage_turn i subs ab ?stop y" "run_at subs j"] run_at_prefix [of j subs] j True
      by (intro exI [of _ "fst x"] exI [of _ ?stop] exI [of _ y']) (metis add_less_cancel_left add.right_neutral less_imp_le less_trans zero_less_one)
  next
    case False
    have e: "entry_fits (subs ! j) y" using fit False j by (simp add: turn_fits_def)
    then have nb: "\<forall>ss. subs ! j \<noteq> LogBatch ss" using entry_fits_not_batch by blast
    have "x = (fst x, j + 1, j + 1 = length subs \<or> staged)" "y' = snd (apply_data (clk j) (subs ! j) i (stage_turn i subs ab (j + 1) y))"
      using s(1) unfolding batch_step_one [OF j(2) False nb] by (auto split: prod.splits sum.splits)
    then show ?thesis using s apply_data_folds [of "stage_turn i subs ab (j + 1) y" "clk j" "subs ! j" i] j nb
      by (intro exI [of _ "fst x"] exI [of _ "j + 1"] exI [of _ y']) (auto simp: less_Suc_eq_le dest: le_antisym)
  qed
qed

lemma shown_stage_turn:
  "shown META_KEY_RAFT_BATCH (stage_turn i subs ab stop st) = Some (encode_progress i stop)"
  "shown META_KEY_RAFT_MEMBERSHIP (stage_turn i subs ab stop st) = shown META_KEY_RAFT_MEMBERSHIP st"
  "shown META_KEY_RAFT_APPLIED (stage_turn i subs ab stop st) = (if stop = length subs then Some ab else shown META_KEY_RAFT_APPLIED st)"
  by (simp_all add: stage_turn_def Let_def)

lemma de_skip_progress:
  "i < 2 ^ 64 \<Longrightarrow> n < 2 ^ 64 \<Longrightarrow> de_skip (Some (encode_progress i n)) i' = (if i' = i then n else 0)"
  by (simp add: de_skip_def progress_roundtrip skip_of_def)

text \<open>A committed turn inside the batch: a machine opened there skips to it and goes on.\<close>

lemma mid_resumes:
  assumes b: "in_batch c clk e subs m m' pre rest F" and a: "at_turn c clk e subs m m' j False y"
    and j: "skip_of (m_batch_progress m) (entry_index e) \<le> j" "j \<le> length subs" and y: "s_pending y = []"
  shows "resumes c (pre @ e # rest) F y"
proof -
  let ?i = "entry_index e" and ?ab = "applied_bytes c (en_log_id e)" and ?p = "m_last_applied m"
  let ?skip = "skip_of (m_batch_progress m) ?i"
  have c: "codec_ok c" and m: "mach_inv c m" and pe: "en_payload e = PayloadNormal (LogBatch subs)" and i: "?i = m_applied m"
    using b by (simp_all add: in_batch_def)
  have p: "next_index ?p = m_applied m" using m by (simp add: mach_inv_def)
  have "filter (\<lambda>x. next_index ?p \<le> entry_index x) pre = []" "filter (\<lambda>x. next_index ?p \<le> entry_index x) rest = rest"
    using b p by (auto simp: in_batch_def filter_empty_conv intro!: filter_True)
  then have fl: "filter (\<lambda>x. next_index ?p \<le> entry_index x) (pre @ e # rest) = e # rest" using p i by simp
  obtain out staged y' where l: "batch_loop (clk ?i) ?i subs ?skip ?ab j False y = (Inr (out, staged), y')"
    "m_mvcc m' = (if staged then y' else stage_raft_meta ?ab None y')" using a unfolding at_turn_def Let_def by blast
  have fit: "batch_fits (clk ?i) ?i subs j ?ab j False y" using a batch_fits_from [OF j(1)] by (simp add: at_turn_def Let_def)
  have l': "batch_loop (clk ?i) ?i subs j ?ab j False y = (Inr (out, staged), y')" using l(1) batch_loop_from [OF j(1) order_refl] by simp
  obtain r where r: "apply_entry c clk e m = (Inr r, m')" using b by (auto simp: in_batch_def)
  have m': "m_last_applied m' = Some (en_log_id e)" "m_last_membership m' = m_last_membership m" "m_batch_progress m' = m_batch_progress m"
    using r unfolding apply_entry_batch [OF c pe] by (auto split: prod.splits sum.splits)
  have sk: "de_skip (row META_KEY_RAFT_BATCH y) ?i = j" "\<And>i'. ?i < i' \<Longrightarrow> de_skip (row META_KEY_RAFT_BATCH y) i' = 0"
    using a y j(1) by (simp_all add: at_turn_def Let_def shown_settled)
  have "\<exists>rs' F'. machine_apply c clk' (e # rest) n = (Inr rs', F') \<and> agree F F'"
    if n: "twin y (m_mvcc n)" "m_last_applied n = ?p" "m_last_membership n = m_last_membership m"
      "\<forall>i \<ge> next_index ?p. skip_of (m_batch_progress n) i = de_skip (row META_KEY_RAFT_BATCH y) i" for n clk'
  proof -
    have "twin y (stage_batched_marker (m_mvcc n))" using n(1) stage_twin(3) [OF twin_ok(2) [OF n(1)]] twin_trans by blast
    from batch_loop_twin [OF this fit, of "clk' ?i" ?ab] l' obtain z' where
      z: "batch_loop (clk' ?i) ?i subs j ?ab j False (stage_batched_marker (m_mvcc n)) = (Inr (out, staged), z')" "twin y' z'" by auto
    have "\<forall>k < j. \<forall>ss. subs ! k \<noteq> LogBatch ss" using a j(2) by (auto simp: at_turn_def Let_def)
    from batch_loop_skip [OF _ j(2) this z(1), of 0] obtain out' where
      o: "batch_loop (clk' ?i) ?i subs j ?ab 0 False (stage_batched_marker (m_mvcc n)) = (Inr (out', staged), z')" by auto
    have "skip_of (m_batch_progress n) ?i = j" using n(4) p i sk(1) by simp
    then obtain r' n' where n': "apply_entry c clk' e n = (Inr r', n')" "m_mvcc n' = (if staged then z' else stage_raft_meta ?ab None z')"
      "m_last_applied n' = Some (en_log_id e)" "m_last_membership n' = m_last_membership n" "m_batch_progress n' = m_batch_progress n"
      unfolding apply_entry_batch [OF c pe] apply_batch_def using o by auto
    have ag: "agree m' n'" using l(2) n'(2-4) m' n(3) z(2) stage_pair(1) [OF z(2)] by (simp add: agree_def applied_state_def)
    have "\<forall>x \<in> set rest. skip_of (m_batch_progress n') (entry_index x) = skip_of (m_batch_progress m') (entry_index x)"
      using b n(4) sk(2) n'(5) m'(3) m p i by (auto simp: in_batch_def mach_inv_def)
    moreover have "entries_fit c clk rest m'" "\<exists>rs. machine_apply c clk rest m' = (Inr rs, F)" using b by (auto simp: in_batch_def)
    ultimately obtain rs' F' where "machine_apply c clk' rest n' = (Inr rs', F')" "agree F F'"
      using machine_apply_twin [OF c ag, of clk rest clk'] by fastforce
    then show ?thesis using machine_apply_cons [OF n'(1)] by simp
  qed
  moreover have "de_applied c (row META_KEY_RAFT_APPLIED y) = Inr ?p" "de_members c (row META_KEY_RAFT_MEMBERSHIP y) = Inr (m_last_membership m)"
    using a y m by (simp_all add: at_turn_def Let_def shown_settled mach_inv_def)
  ultimately show ?thesis using fl sk(2) i p unfolding resumes_def
    by (intro exI [of _ ?p] exI [of _ "m_last_membership m"]) auto
qed

lemma turn_step:
  assumes b: "in_batch c clk e subs m m' pre rest F" and a: "at_turn c clk e subs m m' j staged y" and j: "j < length subs"
    and re: "resumes c (pre @ e # rest) F y"
  defines "i \<equiv> entry_index e" and "ab \<equiv> applied_bytes c (en_log_id e)" and "skip \<equiv> skip_of (m_batch_progress m) (entry_index e)"
  shows "\<exists>out j' staged' y'. batch_step (clk i) i subs skip ab j staged y = (Inr (out, j', staged'), y') \<and> j < j' \<and>
    at_turn c clk e subs m m' j' staged' y' \<and> resumes c (pre @ e # rest) F y'"
proof (cases "j < skip")
  case True
  have sk: "skip = skip_of (m_batch_progress m) i" by (simp add: skip_def i_def)
  have f: "batch_fits (clk i) i subs skip ab j staged y" using a by (simp add: at_turn_def Let_def i_def ab_def skip_def)
  have nb: "\<forall>ss. subs ! j \<noteq> LogBatch ss" using batch_fits_step(1) [OF f j] True by (simp add: turn_fits_def)
  note s = batch_step_skip [OF nb True, of "clk i" i ab staged y]
  have "at_turn c clk e subs m m' (j + 1) staged y"
    using a j nb True batch_fits_step(2) [OF f j s] batch_loop_step [OF j s]
    unfolding at_turn_def Let_def i_def [symmetric] ab_def [symmetric] sk [symmetric]
    by (auto simp: less_Suc_eq split: prod.splits sum.splits)
  then show ?thesis using s re by auto
next
  case False
  have sk: "skip = skip_of (m_batch_progress m) i" by (simp add: skip_def i_def)
  have st: "\<not> staged" and yok: "store_ok y" "cid_ok y" and f: "batch_fits (clk i) i subs skip ab j staged y"
    using a j by (auto simp: at_turn_def Let_def i_def ab_def skip_def)
  note t = batch_fits_step [OF f j]
  from turn_effect [OF yok(1) j False t(1), of "clk i" i ab staged] obtain out stop y' where
    s: "batch_step (clk i) i subs skip ab j staged y = (Inr (out, stop, stop = length subs \<or> staged), y')"
    and stop: "j < stop" "stop \<le> length subs" "\<forall>k. j \<le> k \<and> k < stop \<longrightarrow> (\<forall>ss. subs ! k \<noteq> LogBatch ss)"
    and fo: "folds (stage_turn i subs ab stop y) y'" "store_ok y'" by blast
  have lt: "i < 2 ^ 64" "stop < 2 ^ 64" using b stop(2) by (auto simp: in_batch_def raft_fits_def i_def)
  have sh: "shown META_KEY_RAFT_BATCH y' = Some (encode_progress i stop)"
    "shown META_KEY_RAFT_MEMBERSHIP y' = shown META_KEY_RAFT_MEMBERSHIP y"
    "shown META_KEY_RAFT_APPLIED y' = (if stop = length subs then Some ab else shown META_KEY_RAFT_APPLIED y)"
    using folds_shown [OF fo(1)] raft_keys by (simp_all add: shown_stage_turn)
  have tw: "twin y (stage_turn i subs ab stop y)" by (rule stage_turn_ok [OF yok(1)])
  have cid: "cid_ok y'" by (rule folds_cid [OF fo(1) twin_ok(2) [OF tw]]) (use yok(2) in \<open>simp add: cid_ok_def row_def\<close>)
  have at: "at_turn c clk e subs m m' stop (stop = length subs) y'"
  proof -
    have "\<forall>k < stop. k < length subs \<longrightarrow> (\<forall>ss. subs ! k \<noteq> LogBatch ss)"
    proof -
      have "\<forall>k < j. k < length subs \<longrightarrow> (\<forall>ss. subs ! k \<noteq> LogBatch ss)" using a by (simp add: at_turn_def Let_def)
      then show ?thesis using stop(3) by (meson not_le)
    qed
    moreover have "de_skip (shown META_KEY_RAFT_BATCH y') i = max skip stop" "\<forall>i' > i. de_skip (shown META_KEY_RAFT_BATCH y') i' = 0"
      using sh(1) lt False stop(1) by (simp_all add: de_skip_progress)
    moreover have "\<exists>out staged' z. batch_loop (clk i) i subs skip ab stop (stop = length subs) y' = (Inr (out, staged'), z) \<and>
        m_mvcc m' = (if staged' then z else stage_raft_meta ab None z)"
      using a batch_loop_step [OF j s] st unfolding at_turn_def Let_def i_def [symmetric] ab_def [symmetric] sk [symmetric]
      by (auto split: prod.splits sum.splits)
    moreover have "batch_fits (clk i) i subs skip ab stop (stop = length subs) y'" using t(2) [OF s] st by simp
    ultimately show ?thesis using a fo(2) cid sh st
      unfolding at_turn_def Let_def i_def [symmetric] ab_def [symmetric] sk [symmetric] by auto
  qed
  have "resumes c (pre @ e # rest) F y'"
  proof (cases "s_engine y' = s_engine y")
    case True
    then show ?thesis by (rule resumes_idle [OF re yok(1) fo(2)])
  next
    case eng: False
    then have pend: "s_pending y' = []" using fo(1) by (auto simp: folds_def)
    show ?thesis
    proof (cases "stop = length subs")
      case True
      have "batch_loop (clk i) i subs skip ab stop True y' = (Inr ([], True), y')" using True by (simp add: batch_loop_end)
      then have m': "m_mvcc m' = y'" using at True by (auto simp: at_turn_def Let_def i_def ab_def skip_def)
      have la: "m_applied m' = m_applied m + 1"
        using b by (auto simp: in_batch_def apply_entry_batch i_def entry_index_def split: prod.splits sum.splits)
      obtain rs where rs: "machine_apply c clk rest m' = (Inr rs, F)" using b by (auto simp: in_batch_def)
      have "resumes c ((pre @ [e]) @ rest) F (m_mvcc m')"
        by (rule settled_resumes [OF _ _ _ _ rs]) (use b la pend m' in \<open>auto simp: in_batch_def\<close>)
      then show ?thesis using m' by simp
    next
      case False
      then show ?thesis using at stop pend \<open>\<not> j < skip\<close> mid_resumes [OF b] by (simp add: skip_def i_def)
    qed
  qed
  then show ?thesis using s stop(1) at st by auto
qed

lemma batch_points_resume:
  assumes b: "in_batch c clk e subs m m' pre rest F" and a: "at_turn c clk e subs m m' j staged y"
    and re: "resumes c (pre @ e # rest) F y"
  shows "(\<forall>x \<in> set (batch_points (clk (entry_index e)) (entry_index e) subs (skip_of (m_batch_progress m) (entry_index e))
      (applied_bytes c (en_log_id e)) j staged y). resumes c (pre @ e # rest) F x \<and> store_ok x \<and> cid_ok x) \<and> resumes c (pre @ e # rest) F (m_mvcc m')"
  using a re
proof (induction "length subs - j" arbitrary: j staged y rule: less_induct)
  case less
  have ok: "store_ok y" "cid_ok y" using less.prems(1) by (simp_all add: at_turn_def Let_def)
  let ?i = "entry_index e" and ?ab = "applied_bytes c (en_log_id e)" and ?skip = "skip_of (m_batch_progress m) (entry_index e)"
  show ?case
  proof (cases "j < length subs")
    case True
    from turn_step [OF b less.prems(1) True less.prems(2)] obtain out j' staged' y' where
      s: "batch_step (clk ?i) ?i subs ?skip ?ab j staged y = (Inr (out, j', staged'), y')" "j < j'"
        "at_turn c clk e subs m m' j' staged' y'" "resumes c (pre @ e # rest) F y'" by blast
    have "length subs - j' < length subs - j" using s(2) True by simp
    from less.hyps [OF this s(3,4)] show ?thesis using True s(1) less.prems(2) ok by (subst batch_points.simps) simp
  next
    case False
    obtain staged' where m': "m_mvcc m' = (if staged' then y else stage_raft_meta ?ab None y)" and y: "store_ok y"
      using less.prems(1) False by (auto simp: at_turn_def Let_def batch_loop_end)
    have "resumes c (pre @ e # rest) F (stage_raft_meta ?ab None y)"
      by (rule resumes_idle [OF less.prems(2) y twin_ok(2) [OF stage_twin(1) [OF y]]]) simp
    then show ?thesis using False m' less.prems(2) ok by (subst batch_points.simps) simp
  qed
qed

section \<open>The invariant of the machine\<close>

lemma loop_inv:
  assumes "store_ok y" "cid_ok y" "batch_fits clk i subs skip ab j staged y" "i < 2 ^ 64" "length subs < 2 ^ 64"
    "\<forall>i' > i. de_skip (shown META_KEY_RAFT_BATCH y) i' = 0" "shown META_KEY_RAFT_MEMBERSHIP y = M" "staged \<longrightarrow> shown META_KEY_RAFT_APPLIED y = Some ab"
  shows "\<exists>out staged' y'. batch_loop clk i subs skip ab j staged y = (Inr (out, staged'), y') \<and> store_ok y' \<and> cid_ok y' \<and>
    (\<forall>i' > i. de_skip (shown META_KEY_RAFT_BATCH y') i' = 0) \<and> shown META_KEY_RAFT_MEMBERSHIP y' = M \<and>
    (staged' \<longrightarrow> shown META_KEY_RAFT_APPLIED y' = Some ab)"
  using assms(1-3,6-)
proof (induction "length subs - j" arbitrary: j staged y rule: less_induct)
  case less
  show ?case
  proof (cases "j < length subs")
    case True
    note t = batch_fits_step [OF less.prems(3) True]
    have "\<exists>out j' staged' y'. batch_step clk i subs skip ab j staged y = (Inr (out, j', staged'), y') \<and> store_ok y' \<and> cid_ok y' \<and>
      (\<forall>i' > i. de_skip (shown META_KEY_RAFT_BATCH y') i' = 0) \<and> shown META_KEY_RAFT_MEMBERSHIP y' = M \<and>
      (staged' \<longrightarrow> shown META_KEY_RAFT_APPLIED y' = Some ab)"
    proof (cases "j < skip")
      case sk: True
      then show ?thesis using batch_step_skip [OF _ sk] t(1) less.prems by (simp add: turn_fits_def)
    next
      case False
      from turn_effect [OF less.prems(1) True False t(1), of clk i ab staged] obtain out stop y' where
        s: "batch_step clk i subs skip ab j staged y = (Inr (out, stop, stop = length subs \<or> staged), y')" "stop \<le> length subs"
          "folds (stage_turn i subs ab stop y) y'" "store_ok y'" by blast
      have "cid_ok y'" by (rule folds_cid [OF s(3) twin_ok(2) [OF stage_turn_ok [OF less.prems(1)]]]) (use less.prems(2) in \<open>simp add: cid_ok_def row_def\<close>)
      moreover have "shown META_KEY_RAFT_BATCH y' = Some (encode_progress i stop)" "shown META_KEY_RAFT_MEMBERSHIP y' = M"
        "stop = length subs \<or> staged \<longrightarrow> shown META_KEY_RAFT_APPLIED y' = Some ab"
        using folds_shown [OF s(3)] raft_keys less.prems by (simp_all add: shown_stage_turn)
      ultimately show ?thesis using s assms(4,5) by (simp add: de_skip_progress)
    qed
    then obtain out j' staged' y' where s: "batch_step clk i subs skip ab j staged y = (Inr (out, j', staged'), y')" "store_ok y'" "cid_ok y'"
      "\<forall>i' > i. de_skip (shown META_KEY_RAFT_BATCH y') i' = 0" "shown META_KEY_RAFT_MEMBERSHIP y' = M"
      "staged' \<longrightarrow> shown META_KEY_RAFT_APPLIED y' = Some ab" by blast
    have "length subs - j' < length subs - j" using batch_step_forward [OF s(1)] True by simp
    from less.hyps [OF this s(2,3) t(2) [OF s(1)] s(4-6)] show ?thesis using batch_loop_step [OF True s(1)] by auto
  next
    case False
    then show ?thesis using less.prems by (simp add: batch_loop_end)
  qed
qed

lemma de_applied_bytes: "codec_ok c \<Longrightarrow> de_applied c (Some (applied_bytes c lid)) = Inr (Some lid)"
  by (simp add: de_applied_def codec_bytes(2))

text \<open>Staging the log id of the next entry, and then anything that folds, keeps the invariant.\<close>

lemma mach_inv_step:
  assumes c: "codec_ok c" and m: "mach_inv c m" and e: "entry_index e = m_applied m"
    and st: "store_ok st'" "folds (stage_raft_meta (applied_bytes c (en_log_id e)) mb (m_mvcc m)) st'"
    and m': "m_mvcc m' = st'" "m_last_applied m' = Some (en_log_id e)" "m_applied m' = m_applied m + 1" "m_batch_progress m' = m_batch_progress m"
    and mem: "de_members c (shown META_KEY_RAFT_MEMBERSHIP (stage_raft_meta (applied_bytes c (en_log_id e)) mb (m_mvcc m))) = Inr (m_last_membership m')"
  shows "mach_inv c m'"
proof -
  let ?s = "stage_raft_meta (applied_bytes c (en_log_id e)) mb (m_mvcc m)"
  have s: "store_ok ?s" using twin_ok(2) [OF stage_twin(1)] m by (simp add: mach_inv_def)
  have "cid_ok ?s" using m by (simp add: mach_inv_def cid_ok_def row_def)
  then have "cid_ok st'" by (rule folds_cid [OF st(2) s])
  moreover have "shown k st' = shown k ?s" if "raft_key k" for k using folds_shown [OF st(2) that] .
  ultimately show ?thesis using m m' st(1) mem e raft_keys c
    by (auto simp: mach_inv_def next_index_def entry_index_def de_applied_bytes)
qed

lemma apply_entry_inv:
  assumes c: "codec_ok c" and m: "mach_inv c m" and f: "raft_fits c clk e m" and e: "entry_index e = m_applied m"
  shows "\<exists>r m'. apply_entry c clk e m = (Inr r, m') \<and> mach_inv c m' \<and> m_applied m' = m_applied m + 1"
proof -
  let ?i = "entry_index e" and ?ab = "applied_bytes c (en_log_id e)"
  have ok: "store_ok (m_mvcc m)" "cid_ok (m_mvcc m)" using m by (simp_all add: mach_inv_def)
  have s: "store_ok (stage_raft_meta ?ab mb (m_mvcc m))" for mb using twin_ok(2) [OF stage_twin(1) [OF ok(1)]] .
  have i: "li_index (en_log_id e) = m_applied m" using e by (simp add: entry_index_def)
  have memb: "de_members c (shown META_KEY_RAFT_MEMBERSHIP (m_mvcc m)) = Inr (m_last_membership m)" using m by (simp add: mach_inv_def)
  show ?thesis
  proof (cases "en_payload e")
    case PayloadBlank
    show ?thesis unfolding apply_entry_blank [OF c PayloadBlank]
      using mach_inv_step [OF c m e s folds_refl, of _ None] memb i by simp
  next
    case (PayloadMembership mb)
    from apply_entry_membership [OF c this] obtain b where b: "mc_de_membership c b = Inr \<lparr>sm_log_id = Some (en_log_id e), sm_membership = mb\<rparr>"
      "\<And>clk m. apply_entry c clk e m = (Inr (RespNoop (current_revision (m_mvcc m))),
        applied_to (en_log_id e) (m\<lparr>m_mvcc := stage_raft_meta ?ab (Some b) (m_mvcc m),
          m_last_membership := \<lparr>sm_log_id = Some (en_log_id e), sm_membership = mb\<rparr>\<rparr>))" by blast
    show ?thesis unfolding b(2) using mach_inv_step [OF c m e s folds_refl, of _ "Some b"] b(1) i by (simp add: de_members_def)
  next
    case p: (PayloadNormal d)
    show ?thesis
    proof (cases "\<exists>subs. d = LogBatch subs")
      case True
      then obtain subs where d: "d = LogBatch subs" by blast
      let ?y = "stage_batched_marker (m_mvcc m)"
      have "store_ok ?y" "cid_ok ?y" using twin_ok(2) [OF stage_twin(3) [OF ok(1)]] ok(2) by (simp_all add: cid_ok_def row_def)
      moreover have "batch_fits (clk ?i) ?i subs (skip_of (m_batch_progress m) ?i) ?ab 0 False ?y" "?i < 2 ^ 64" "length subs < 2 ^ 64"
        using f p d by (simp_all add: raft_fits_def)
      moreover have "\<forall>i' > ?i. de_skip (shown META_KEY_RAFT_BATCH ?y) i' = 0" using m e by (simp add: mach_inv_def)
      ultimately obtain out staged y' where
        l: "batch_loop (clk ?i) ?i subs (skip_of (m_batch_progress m) ?i) ?ab 0 False ?y = (Inr (out, staged), y')" "store_ok y'" "cid_ok y'"
          "\<forall>i' > ?i. de_skip (shown META_KEY_RAFT_BATCH y') i' = 0" "shown META_KEY_RAFT_MEMBERSHIP y' = shown META_KEY_RAFT_MEMBERSHIP (m_mvcc m)"
          "staged \<longrightarrow> shown META_KEY_RAFT_APPLIED y' = Some ?ab"
        using loop_inv [of ?y "clk ?i" ?i subs "skip_of (m_batch_progress m) ?i" ?ab 0 False] by auto
      have "store_ok (stage_raft_meta ?ab None y')" "cid_ok (stage_raft_meta ?ab None y')"
        using l(2,3) twin_ok(2) [OF stage_twin(1) [OF l(2)]] by (simp_all add: cid_ok_def row_def)
      then show ?thesis unfolding apply_entry_batch [OF c p [unfolded d]] apply_batch_def l(1)
        using l m e i memb de_applied_bytes [OF c] by (simp add: mach_inv_def next_index_def)
    next
      case False
      then have nb: "\<forall>ss. d \<noteq> LogBatch ss" by blast
      have fit: "entry_fits d (stage_raft_meta ?ab None (m_mvcc m))"
        using f raft_fits_data [OF p nb] entry_fits_twin [OF stage_twin(1) [OF ok(1)]] by simp
      obtain r st' where r: "apply_data (clk ?i 0) d ?i (stage_raft_meta ?ab None (m_mvcc m)) = (Inr r, st')"
        using apply_data_answers [OF s fit, of "clk ?i 0" ?i] by (metis prod.collapse)
      have "store_ok st'" using apply_data_twin [OF twin_refl [OF s] fit, of "clk ?i 0" ?i "clk ?i 0"] r by (auto dest: twin_ok)
      moreover have "folds (stage_raft_meta ?ab None (m_mvcc m)) st'" using apply_data_folds r by (metis snd_conv)
      ultimately show ?thesis unfolding apply_entry_data [OF c p nb] r using mach_inv_step [OF c m e] memb i by simp
    qed
  qed
qed

section \<open>Whole runs\<close>

lemma plain_entry_folds:
  assumes "codec_ok c" "\<forall>subs. en_payload e \<noteq> PayloadNormal (LogBatch subs)" "apply_entry c clk e m = (Inr r, m')"
  shows "\<exists>mb. folds (stage_raft_meta (applied_bytes c (en_log_id e)) mb (m_mvcc m)) (m_mvcc m')"
proof (cases "en_payload e")
  case PayloadBlank
  then show ?thesis using assms apply_entry_blank [of c e clk m] by (intro exI [of _ None]) auto
next
  case (PayloadMembership mb)
  from apply_entry_membership [OF assms(1) this] obtain b where
    "\<And>clk m. apply_entry c clk e m = (Inr (RespNoop (current_revision (m_mvcc m))),
      applied_to (en_log_id e) (m\<lparr>m_mvcc := stage_raft_meta (applied_bytes c (en_log_id e)) (Some b) (m_mvcc m),
        m_last_membership := \<lparr>sm_log_id = Some (en_log_id e), sm_membership = mb\<rparr>\<rparr>))" by blast
  then show ?thesis using assms(3) by (intro exI [of _ "Some b"]) auto
next
  case (PayloadNormal d)
  then have nb: "\<forall>ss. d \<noteq> LogBatch ss" using assms(2) by auto
  show ?thesis using assms(3) unfolding apply_entry_data [OF assms(1) PayloadNormal nb]
    using apply_data_folds [of "stage_raft_meta (applied_bytes c (en_log_id e)) None (m_mvcc m)" "clk (entry_index e) 0" d "entry_index e"]
    by (intro exI [of _ None]) (auto split: prod.splits sum.splits)
qed

lemma batch_entry_loop:
  assumes "codec_ok c" "en_payload e = PayloadNormal (LogBatch subs)" "apply_entry c clk e m = (Inr r, m')"
  shows "\<exists>out staged y. batch_loop (clk (entry_index e)) (entry_index e) subs (skip_of (m_batch_progress m) (entry_index e))
      (applied_bytes c (en_log_id e)) 0 False (stage_batched_marker (m_mvcc m)) = (Inr (out, staged), y) \<and>
    m_mvcc m' = (if staged then y else stage_raft_meta (applied_bytes c (en_log_id e)) None y)"
proof -
  obtain x y where l: "batch_loop (clk (entry_index e)) (entry_index e) subs (skip_of (m_batch_progress m) (entry_index e))
      (applied_bytes c (en_log_id e)) 0 False (stage_batched_marker (m_mvcc m)) = (x, y)" by fastforce
  show ?thesis
  proof (cases x)
    case (Inl z)
    then show ?thesis using assms(3) l unfolding apply_entry_batch [OF assms(1,2)] apply_batch_def by simp
  next
    case (Inr z)
    obtain out staged where "z = (out, staged)" by fastforce
    then show ?thesis using assms(3) l Inr unfolding apply_entry_batch [OF assms(1,2)] apply_batch_def by auto
  qed
qed

lemma entry_resumes:
  assumes c: "codec_ok c" and m: "mach_inv c m" and fit: "entries_fit c clk (e # rest) m"
    and i: "entry_index e = m_applied m" "\<forall>x \<in> set pre. entry_index x < m_applied m" "\<forall>x \<in> set rest. m_applied m < entry_index x"
    and F: "machine_apply c clk (e # rest) m = (Inr rs, F)" and re: "resumes c (pre @ e # rest) F (m_mvcc m)"
  shows "\<exists>r m' rs'. apply_entry c clk e m = (Inr r, m') \<and> mach_inv c m' \<and> m_applied m' = m_applied m + 1 \<and> entries_fit c clk rest m' \<and>
    machine_apply c clk rest m' = (Inr rs', F) \<and> resumes c (pre @ e # rest) F (m_mvcc m') \<and>
    (\<forall>x \<in> set (entry_points c clk e m). resumes c (pre @ e # rest) F x \<and> store_ok x \<and> cid_ok x)"
proof -
  have f: "raft_fits c clk e m" using fit by simp
  have ok: "store_ok (m_mvcc m)" "cid_ok (m_mvcc m)" using m by (simp_all add: mach_inv_def)
  from apply_entry_inv [OF c m f i(1)] obtain r m' where
    r: "apply_entry c clk e m = (Inr r, m')" "mach_inv c m'" "m_applied m' = m_applied m + 1" by blast
  have fit': "entries_fit c clk rest m'" using fit r(1) by simp
  obtain rs' where F': "machine_apply c clk rest m' = (Inr rs', F)"
    using F machine_apply_cons [OF r(1), of rest] by (auto split: prod.splits sum.splits)
  have "resumes c (pre @ e # rest) F (m_mvcc m') \<and>
    (\<forall>x \<in> set (entry_points c clk e m). resumes c (pre @ e # rest) F x \<and> store_ok x \<and> cid_ok x)"
  proof (cases "\<exists>subs. en_payload e = PayloadNormal (LogBatch subs)")
    case True
    then obtain subs where p: "en_payload e = PayloadNormal (LogBatch subs)" by blast
    have b: "in_batch c clk e subs m m' pre rest F" using c m p f i r fit' F' by (auto simp: in_batch_def)
    let ?y = "stage_batched_marker (m_mvcc m)"
    have y: "store_ok ?y" "cid_ok ?y" using twin_ok(2) [OF stage_twin(3) [OF ok(1)]] ok(2) by (simp_all add: cid_ok_def row_def)
    have "batch_fits (clk (entry_index e)) (entry_index e) subs (skip_of (m_batch_progress m) (entry_index e)) (applied_bytes c (en_log_id e)) 0 False ?y"
      using f p by (simp add: raft_fits_def)
    then have "at_turn c clk e subs m m' 0 False ?y" unfolding at_turn_def Let_def
      using y m i(1) batch_entry_loop [OF c p r(1)] by (simp add: mach_inv_def)
    moreover have "resumes c (pre @ e # rest) F ?y" by (rule resumes_idle [OF re ok(1) y(1)]) simp
    ultimately show ?thesis using batch_points_resume [OF b] re ok p by (simp add: entry_points_def)
  next
    case False
    then obtain mb where fo: "folds (stage_raft_meta (applied_bytes c (en_log_id e)) mb (m_mvcc m)) (m_mvcc m')"
      using plain_entry_folds [OF c _ r(1)] by auto
    have pts: "entry_points c clk e m = [m_mvcc m]" using False by (auto simp: entry_points_def split: entry_payload.split log_entry.split)
    have ok': "store_ok (m_mvcc m')" using r(2) by (simp add: mach_inv_def)
    have "resumes c (pre @ e # rest) F (m_mvcc m')"
    proof (cases "s_engine (m_mvcc m') = s_engine (m_mvcc m)")
      case True
      then show ?thesis by (rule resumes_idle [OF re ok(1) ok'])
    next
      case False
      then have "s_pending (m_mvcc m') = []" using fo by (auto simp: folds_def)
      moreover have "\<forall>x \<in> set (pre @ [e]). entry_index x < m_applied m'" "\<forall>x \<in> set rest. m_applied m' \<le> entry_index x"
        using i r(3) by (auto simp: less_Suc_eq Suc_le_eq)
      ultimately show ?thesis using settled_resumes [OF c r(2) _ fit' F', of "pre @ [e]"] by simp
    qed
    then show ?thesis using pts re ok by simp
  qed
  then show ?thesis using r fit' F' by blast
qed

lemma crash_points_resume:
  assumes "codec_ok c" "mach_inv c m" "entries_fit c clk rest m" "map entry_index rest = [m_applied m ..< m_applied m + length rest]"
    "\<forall>x \<in> set pre. entry_index x < m_applied m" "machine_apply c clk rest m = (Inr rs, F)" "resumes c (pre @ rest) F (m_mvcc m)"
    "x \<in> set (crash_points c clk rest m)"
  shows "resumes c (pre @ rest) F x \<and> store_ok x \<and> cid_ok x"
  using assms(2-)
proof (induction rest arbitrary: m pre rs)
  case Nil
  have ok: "store_ok (m_mvcc m)" "cid_ok (m_mvcc m)" using Nil.prems(1) by (simp_all add: mach_inv_def)
  let ?f = "flush_raft_meta (m_mvcc m)"
  have fo: "folds (m_mvcc m) ?f" by (auto simp: flush_raft_meta_def fold_raft_meta_eq folds_def intro!: exI [of _ "[]"])
  have f: "store_ok ?f" using twin_ok(2) [OF flush_twin [OF ok(1)]] .
  have cid: "cid_ok ?f" by (rule folds_cid [OF fo ok])
  have "resumes c (pre @ []) F ?f"
  proof (cases "s_engine ?f = s_engine (m_mvcc m)")
    case True
    then show ?thesis by (rule resumes_idle [OF Nil.prems(6) ok(1) f])
  next
    case False
    then have pend: "s_pending ?f = []" using fo by (auto simp: folds_def)
    have "mach_inv c (m\<lparr>m_mvcc := ?f\<rparr>)" using Nil.prems(1) f cid folds_shown [OF fo] raft_keys by (simp add: mach_inv_def)
    moreover have "machine_apply c clk [] (m\<lparr>m_mvcc := ?f\<rparr>) = (Inr [], F)"
    proof -
      have "flush_raft_meta ?f = ?f" using pend by (simp add: flush_raft_meta_def [of ?f] fold_raft_meta_def)
      moreover have "F = m\<lparr>m_mvcc := ?f\<rparr>" using Nil.prems(5) by (auto simp: machine_apply_def)
      ultimately show ?thesis by (simp add: machine_apply_def)
    qed
    ultimately show ?thesis using settled_resumes [OF assms(1), of "m\<lparr>m_mvcc := ?f\<rparr>" clk "[]" "[]" F pre] pend Nil.prems(4) by simp
  qed
  then show ?case using Nil.prems ok f cid by auto
next
  case (Cons e rest)
  have idx: "entry_index e = m_applied m" "map entry_index rest = [m_applied m + 1 ..< m_applied m + 1 + length rest]"
    using Cons.prems(3) by (simp_all add: upt_conv_Cons del: upt_Suc)
  have later: "\<forall>x \<in> set rest. m_applied m < entry_index x"
  proof
    fix x assume "x \<in> set rest"
    then have "entry_index x \<in> set (map entry_index rest)" by simp
    then show "m_applied m < entry_index x" unfolding idx(2) by auto
  qed
  from entry_resumes [OF assms(1) Cons.prems(1,2) idx(1) Cons.prems(4) later Cons.prems(5,6)] obtain r m' rs' where
    r: "apply_entry c clk e m = (Inr r, m')" "mach_inv c m'" "m_applied m' = m_applied m + 1" "entries_fit c clk rest m'"
      "machine_apply c clk rest m' = (Inr rs', F)" "resumes c (pre @ e # rest) F (m_mvcc m')"
      "\<forall>x \<in> set (entry_points c clk e m). resumes c (pre @ e # rest) F x \<and> store_ok x \<and> cid_ok x" by blast
  have "x \<in> set (entry_points c clk e m) \<or> x \<in> set (crash_points c clk rest m')" using Cons.prems(7) r(1) by auto
  then show ?case
  proof
    assume "x \<in> set (crash_points c clk rest m')"
    moreover have "\<forall>x \<in> set (pre @ [e]). entry_index x < m_applied m'" using Cons.prems(4) idx(1) r(3) by (auto simp: less_Suc_eq)
    ultimately show ?thesis using Cons.IH [OF r(2) r(4) _ _ r(5), of "pre @ [e]"] r(3,6) idx(2) by simp
  qed (use r(7) in blast)
qed

section \<open>Restarting\<close>

text \<open>Opening a store leaves the rows of the raft metadata.\<close>

lemma open_rows:
  assumes "open_with hash now e cfg = Inr st"
  shows "s_pending st = []" "k \<notin> {META_KEY_CURRENT_REV, META_KEY_COMPACT_REV, META_KEY_NEXT_LEASE_ID} \<Longrightarrow> row k st = fmlookup (t_meta e) k"
  using assms unfolding open_with_def Let_def bind_res_def
  by (auto simp: row_def load_index_def reload_auth_def write_i64_def Let_def split: sum.splits if_splits)

lemma open_machine_rows:
  assumes "s_pending st = []" "de_applied c (row META_KEY_RAFT_APPLIED st) = Inr p" "de_members c (row META_KEY_RAFT_MEMBERSHIP st) = Inr mem"
  shows "\<exists>m. open_machine c latest st = Inr m \<and> m_mvcc m = st \<and> m_last_applied m = p \<and> m_last_membership m = mem \<and>
    m_applied m = next_index p \<and> (\<forall>i. skip_of (m_batch_progress m) i = de_skip (row META_KEY_RAFT_BATCH st) i)"
  using assms by (simp add: open_machine_def read_raft_meta_def read_batch_progress_def Let_def de_applied_def de_members_def
      row_def de_skip_def)

lemma reopen_resumes:
  assumes re: "resumes c es F x" and x: "store_ok x" "cid_ok x"
  shows "\<exists>st m. open_with hash now (s_engine x) cfg = Inr st \<and> open_machine c latest st = Inr m \<and> mach_inv c m \<and> s_pending (m_mvcc m) = [] \<and>
    (\<exists>rs F'. machine_apply c clk (filter (\<lambda>e. m_applied m \<le> entry_index e) es) m = (Inr rs, F') \<and> agree F F')"
proof -
  have "\<forall>b. fmlookup (t_meta (s_engine x)) META_KEY_CLUSTER_ID = Some b \<longrightarrow> length b = 8" using x(2) by (simp add: cid_ok_def row_def)
  from reopen_twin [OF x(1) this, of hash now cfg] obtain st where st: "open_with hash now (s_engine x) cfg = Inr st" "twin x st" by blast
  note pend = open_rows(1) [OF st(1)]
  have rows: "row k st = row k x" if "raft_key k" for k
    using open_rows(2) [OF st(1)] raft_key_meta [OF that] by (simp add: row_def)
  have "META_KEY_CLUSTER_ID \<notin> {META_KEY_CURRENT_REV, META_KEY_COMPACT_REV, META_KEY_NEXT_LEASE_ID}" by (simp add: meta_keys)
  from open_rows(2) [OF st(1) this] have cid: "cid_ok st" using x(2) by (simp add: cid_ok_def row_def)
  obtain p mem where d: "de_applied c (row META_KEY_RAFT_APPLIED x) = Inr p" "de_members c (row META_KEY_RAFT_MEMBERSHIP x) = Inr mem"
    "\<forall>i > next_index p. de_skip (row META_KEY_RAFT_BATCH x) i = 0"
    "\<And>n clk. twin x (m_mvcc n) \<Longrightarrow> m_last_applied n = p \<Longrightarrow> m_last_membership n = mem \<Longrightarrow>
        (\<forall>i \<ge> next_index p. skip_of (m_batch_progress n) i = de_skip (row META_KEY_RAFT_BATCH x) i) \<Longrightarrow>
        \<exists>rs F'. machine_apply c clk (filter (\<lambda>e. next_index p \<le> entry_index e) es) n = (Inr rs, F') \<and> agree F F'"
    using re unfolding resumes_def by blast
  from open_machine_rows [OF pend, of c p mem latest] d(1,2) rows raft_keys obtain m where
    m: "open_machine c latest st = Inr m" "m_mvcc m = st" "m_last_applied m = p" "m_last_membership m = mem" "m_applied m = next_index p"
      "\<forall>i. skip_of (m_batch_progress m) i = de_skip (row META_KEY_RAFT_BATCH st) i" by auto
  have "mach_inv c m" using m d(1-3) rows raft_keys pend cid twin_ok(2) [OF st(2)] by (simp add: mach_inv_def shown_settled)
  moreover have "\<exists>rs F'. machine_apply c clk (filter (\<lambda>e. m_applied m \<le> entry_index e) es) m = (Inr rs, F') \<and> agree F F'"
    using d(4) [of m clk] m st(2) rows raft_keys by simp
  ultimately show ?thesis using st(1) m(1,2) pend by blast
qed

text \<open>C11: Exactly once across restarts: stop the state machine at any moment of applying committed
  entries, between entries or inside a batch, and open it again on the tables as they are then. It
  opens, in a state from which the same holds again, and applying the entries after the position it
  reports ends with the tables, the applied position and the membership of the run that was not
  stopped: no sub-entry is lost or repeated.\<close>

theorem crash_resumes:
  assumes "codec_ok c" "mach_inv c m" "s_pending (m_mvcc m) = []" "entries_fit c clk es m"
    "map entry_index es = [m_applied m ..< m_applied m + length es]" "x \<in> set (crash_points c clk es m)"
  shows "\<exists>st m' rs rs' F'. open_with hash now (s_engine x) cfg = Inr st \<and> open_machine c latest st = Inr m' \<and>
    mach_inv c m' \<and> s_pending (m_mvcc m') = [] \<and> fst (machine_apply c clk es m) = Inr rs \<and>
    machine_apply c clk' (filter (\<lambda>e. m_applied m' \<le> entry_index e) es) m' = (Inr rs', F') \<and>
    agree (snd (machine_apply c clk es m)) F'"
proof -
  have ok: "store_ok (m_mvcc m)" using assms(2) by (simp add: mach_inv_def)
  then have "agree m m" by (simp add: agree_def twin_refl)
  from machine_apply_twin [OF assms(1) this assms(4), of clk] obtain rs F where F: "machine_apply c clk es m = (Inr rs, F)" by auto
  have later: "\<forall>e \<in> set es. m_applied m \<le> entry_index e"
  proof
    fix e assume "e \<in> set es"
    then have "entry_index e \<in> set (map entry_index es)" by simp
    then show "m_applied m \<le> entry_index e" unfolding assms(5) by auto
  qed
  have "resumes c ([] @ es) F (m_mvcc m)" by (rule settled_resumes [OF assms(1-4) F]) (use later in simp_all)
  from crash_points_resume [OF assms(1,2,4,5) _ F this assms(6)] have "resumes c es F x" "store_ok x" "cid_ok x" by simp_all
  from reopen_resumes [OF this, of hash now cfg latest clk'] F show ?thesis by auto
qed

section \<open>A sample crash\<close>

definition sample_subs :: "log_entry list" where
  "sample_subs = [LogNoop, LogApply [sample_put [1] 0], LogNoop]"

definition sample_batch :: raft_entry where
  "sample_batch = sample_entry 0 (PayloadNormal (LogBatch sample_subs))"

lemma sample_opened: "open_with (\<lambda>_. 0) 0 engine_empty \<lparr>cf_value_cache_bytes = 0, cf_max_entry_bytes = 0\<rparr> = Inr sample_store"
proof -
  obtain st where "open_with (\<lambda>_. 0) 0 engine_empty \<lparr>cf_value_cache_bytes = 0, cf_max_entry_bytes = 0\<rparr> = Inr st"
    using open_ok [OF engine_empty_ok, of "\<lambda>_. 0" 0 "\<lparr>cf_value_cache_bytes = 0, cf_max_entry_bytes = 0\<rparr>"] by (auto simp: engine_empty_def)
  then show ?thesis by (simp add: sample_store_def)
qed

lemma sample_inv: "mach_inv sample_codec (sample_machine sample_store)" "s_pending sample_store = []"
proof -
  note o = open_rows [OF sample_opened]
  have "row k sample_store = None" if "raft_key k" for k using o(2) [of k] raft_key_meta [OF that] by (simp add: engine_empty_def)
  then show "mach_inv sample_codec (sample_machine sample_store)"
    using o(1) sample_store_ok sample_no_cluster raft_keys
    by (simp add: mach_inv_def sample_machine_def shown_settled de_applied_def de_members_def de_skip_def skip_of_def next_index_def cid_ok_def row_def)
  show "s_pending sample_store = []" by (rule o(1))
qed

lemma sample_runs: "run_at sample_subs 0 = []" "run_at sample_subs 1 = [ItemMutations [sample_put [1] 0]]" "run_at sample_subs 2 = []"
  by (simp_all add: run_at_def sample_subs_def MAX_RUN_def item_mutations_def)

lemma sample_turns:
  assumes "store_ok y" "current_rev (s_ws y) = 0"
  shows "\<exists>o1 o2 o3 y2 y3. batch_step clk i sample_subs 0 ab 0 False y = (Inr (o1, 1, False), stage_turn i sample_subs ab 1 y) \<and>
    batch_step clk i sample_subs 0 ab 1 False (stage_turn i sample_subs ab 1 y) = (Inr (o2, 2, False), y2) \<and>
    batch_step clk i sample_subs 0 ab 2 False y2 = (Inr (o3, 3, True), y3)"
proof -
  let ?y1 = "stage_turn i sample_subs ab 1 y" and ?e = "LogApply [sample_put [1] 0]"
  have nth: "sample_subs ! 0 = LogNoop" "sample_subs ! 1 = ?e" "sample_subs ! 2 = LogNoop" "length sample_subs = 3" by (simp_all add: sample_subs_def)
  have y1: "store_ok (stage_turn i sample_subs ab 2 ?y1)"
    using twin_ok(2) [OF stage_turn_ok [OF twin_ok(2) [OF stage_turn_ok [OF assms(1)]]]] .
  have "entry_fits ?e (stage_turn i sample_subs ab 2 ?y1)" using assms(2) sample_fits by (simp add: stage_turn_ws)
  from apply_data_answers [OF y1 this, of "clk 1" i] obtain r2 y2 where
    d: "apply_data (clk 1) ?e i (stage_turn i sample_subs ab 2 ?y1) = (Inr r2, y2)" by (metis prod.collapse)
  have n: "apply_data now LogNoop i st = (Inr (RespNoop (current_revision st)), st)" for now st by (simp add: apply_data_def)
  show ?thesis
    using batch_step_one [of 0 0 sample_subs clk i ab False y] batch_step_one [of 1 0 sample_subs clk i ab False ?y1]
      batch_step_one [of 2 0 sample_subs clk i ab False y2] d n nth sample_runs by (simp add: numeral_2_eq_2 numeral_3_eq_3)
qed

lemma sample_fit: "entries_fit sample_codec clk [sample_batch] (sample_machine sample_store)"
proof -
  let ?y = "stage_batched_marker sample_store" and ?ab = "applied_bytes sample_codec \<lparr>li_term = 1, li_node = 1, li_index = 0\<rparr>"
  have y: "store_ok ?y" "current_rev (s_ws ?y) = 0"
    using twin_ok(2) [OF stage_twin(3)] sample_store_ok by (simp_all add: stage_batched_marker_def)
  from sample_turns [OF y, of "clk 0" 0 ?ab] obtain o1 o2 o3 y2 y3 where
    s: "batch_step (clk 0) 0 sample_subs 0 ?ab 0 False ?y = (Inr (o1, 1, False), stage_turn 0 sample_subs ?ab 1 ?y)"
      "batch_step (clk 0) 0 sample_subs 0 ?ab 1 False (stage_turn 0 sample_subs ?ab 1 ?y) = (Inr (o2, 2, False), y2)"
      "batch_step (clk 0) 0 sample_subs 0 ?ab 2 False y2 = (Inr (o3, 3, True), y3)" by blast
  have t: "turn_fits sample_subs 0 0 ?y" "turn_fits sample_subs 0 1 (stage_turn 0 sample_subs ?ab 1 ?y)" "turn_fits sample_subs 0 2 y2"
    using y(2) sample_fits sample_runs by (simp_all add: turn_fits_def sample_subs_def stage_turn_ws)
  have len: "length sample_subs = 3" by (simp add: sample_subs_def)
  have "batch_fits (clk 0) 0 sample_subs 0 ?ab 3 True y3" by (subst batch_fits.simps) (simp add: len)
  then have "batch_fits (clk 0) 0 sample_subs 0 ?ab 2 False y2"
    by (subst batch_fits.simps) (simp only: s t len prod.case sum.case, simp)
  then have "batch_fits (clk 0) 0 sample_subs 0 ?ab 1 False (stage_turn 0 sample_subs ?ab 1 ?y)"
    by (subst batch_fits.simps) (simp only: s t len prod.case sum.case, simp)
  then have "batch_fits (clk 0) 0 sample_subs 0 ?ab 0 False ?y" by (subst batch_fits.simps) (simp only: s t len prod.case sum.case, simp)
  then show ?thesis
    by (auto simp: sample_batch_def raft_fits_def sample_entry_def entry_index_def sample_machine_def skip_of_def len split: prod.split sum.split)
qed

text \<open>The third moment inside the batch: the put has committed, the last sub-entry not.\<close>

lemma sample_points: "3 < length (crash_points sample_codec clk [sample_batch] (sample_machine sample_store))"
proof -
  let ?y = "stage_batched_marker sample_store" and ?ab = "applied_bytes sample_codec \<lparr>li_term = 1, li_node = 1, li_index = 0\<rparr>"
  have y: "store_ok ?y" "current_rev (s_ws ?y) = 0"
    using twin_ok(2) [OF stage_twin(3)] sample_store_ok by (simp_all add: stage_batched_marker_def)
  from sample_turns [OF y, of "clk 0" 0 ?ab] obtain o1 o2 y2 where
    s: "batch_step (clk 0) 0 sample_subs 0 ?ab 0 False ?y = (Inr (o1, 1, False), stage_turn 0 sample_subs ?ab 1 ?y)"
      "batch_step (clk 0) 0 sample_subs 0 ?ab 1 False (stage_turn 0 sample_subs ?ab 1 ?y) = (Inr (o2, 2, False), y2)" by blast
  have len: "length sample_subs = 3" by (simp add: sample_subs_def)
  have one: "0 < length (batch_points clk i subs skip ab j staged st)" for clk i subs skip ab j staged st by (subst batch_points.simps) simp
  then have "1 < length (batch_points (clk 0) 0 sample_subs 0 ?ab 1 False (stage_turn 0 sample_subs ?ab 1 ?y))"
    by (subst batch_points.simps) (simp only: s len prod.case sum.case, simp)
  then have "2 < length (batch_points (clk 0) 0 sample_subs 0 ?ab 0 False ?y)"
    by (subst batch_points.simps) (simp only: s len prod.case sum.case, simp)
  then show ?thesis by (simp add: entry_points_def sample_batch_def sample_entry_def entry_index_def sample_machine_def skip_of_def)
qed

theorem crash_resumes_witness:
  "\<exists>st m' rs rs' F'.
    open_with (\<lambda>_. 0) 0 (s_engine (crash_points sample_codec (\<lambda>_ _. 0) [sample_batch] (sample_machine sample_store) ! 3))
      \<lparr>cf_value_cache_bytes = 0, cf_max_entry_bytes = 0\<rparr> = Inr st \<and> open_machine sample_codec None st = Inr m' \<and>
    fst (machine_apply sample_codec (\<lambda>_ _. 0) [sample_batch] (sample_machine sample_store)) = Inr rs \<and>
    machine_apply sample_codec (\<lambda>_ _. 5) (filter (\<lambda>e. m_applied m' \<le> entry_index e) [sample_batch]) m' = (Inr rs', F') \<and>
    agree (snd (machine_apply sample_codec (\<lambda>_ _. 0) [sample_batch] (sample_machine sample_store))) F'"
proof -
  have "map entry_index [sample_batch] = [m_applied (sample_machine sample_store) ..< m_applied (sample_machine sample_store) + length [sample_batch]]"
    by (simp add: sample_batch_def sample_entry_def entry_index_def sample_machine_def)
  moreover have "s_pending (m_mvcc (sample_machine sample_store)) = []" using sample_inv(2) by (simp add: sample_machine_def)
  ultimately show ?thesis using crash_resumes [OF sample_codec_ok sample_inv(1) _ sample_fit [of "\<lambda>_ _. 0"] _ nth_mem [OF sample_points],
      where hash = "\<lambda>_. 0" and now = 0 and cfg = "\<lparr>cf_value_cache_bytes = 0, cf_max_entry_bytes = 0\<rparr>" and latest = None and clk' = "\<lambda>_ _. 5"]
    by blast
qed

end
