(* ===== verification/Spec2Isabelle.thy ===== *)
theory Spec2Isabelle
  imports Prelude Mvcc_Revision Mvcc_Record Kv_Store Redb_Engine Write_Behind Mvcc_Cache Mvcc_Types
    Mvcc_Auth Mvcc_Lease Mvcc_Apply Mvcc_Store Mvcc_Tables Mvcc_Spec Mvcc_Refine Mvcc_Simulation
    Mvcc_Requests Mvcc_Commit Mvcc_Batches Mvcc_Correct Mvcc_Compaction Mvcc_Leasing
    Mvcc_Guarantees Mvcc_Runs Mvcc_Edges Mvcc_Caching Mvcc_Twins
    Raft_Types Snapshot_Policy Raft_Machine Raft_Folding Raft_Replay Raft_Crash
begin

text \<open>
  A verification development for fastetcd, a key-value store with the etcd API written in Rust.

  \<^bold>\<open>The program.\<close> A fastetcd member is a stack. At the bottom an engine keeps ordered byte tables in
  a redb file (\<^verbatim>\<open>crates/storage/src/redb_engine.rs\<close>), behind an interface of write batches and
  snapshots (\<^verbatim>\<open>kvstore.rs\<close>) and optionally behind a layer that holds committed batches in RAM and
  flushes them later (\<^verbatim>\<open>write_behind.rs\<close>). On it sits the multi-version store
  (\<^verbatim>\<open>crates/storage/src/mvcc\<close>): every change has a revision, the index of a key lists its
  revisions in generations (one per life of the key), and records, index rows, counters, leases and
  auth rows are tables of the engine. Raft (\<^verbatim>\<open>crates/raft/src\<close>, over the vendored openraft)
  replicates a log of requests, which the state machine applies to the store in order. The server
  (\<^verbatim>\<open>crates/server/src\<close>) translates the etcd gRPC services to log entries and reads.

  \<^bold>\<open>Conventions\<close> (theory \<open>Prelude\<close>). A byte is an \<open>8 word\<close> and a byte string a list of them, ordered
  lexicographically. An \<^verbatim>\<open>i64\<close> is an \<open>int\<close>; the range is written out (\<open>i64_ok\<close>, \<open>i64_max\<close>) where
  it decides something, and statements assume that the revision counter does not reach \<open>i64_max\<close>,
  which takes 2^63 writes. A fallible operation returns \<open>'e + 'a\<close>. A stateful one takes the state
  and returns it changed, also on its error branches, so what a failed operation leaves behind is
  visible. The clock is an argument. Maps are \<open>fmap\<close>s walked in key order. An operation is one step:
  the code runs applies under one lock, and reads take a snapshot.

  \<^bold>\<open>The storage crate.\<close>
  \<^item> \<open>Mvcc_Revision\<close> (\<^verbatim>\<open>revision.rs\<close>): revisions, their byte form and the keys of the record table;
    the codec round trip and the order of the keys.
  \<^item> \<open>Mvcc_Record\<close> (\<^verbatim>\<open>record.rs\<close>, \<^verbatim>\<open>event.rs\<close>): records and the key index with its puts, deletes,
    lookups and compaction, against a plain log of the events of the key.
  \<^item> \<open>Kv_Store\<close> (\<^verbatim>\<open>kvstore.rs\<close>): batches, bounds and snapshot reads, the engine contract as the locale
    \<open>kv_engine\<close>; \<open>Redb_Engine\<close> (\<^verbatim>\<open>redb_engine.rs\<close>): commits, sync and the online rewrite, with redb
    itself as its documented behaviour; \<open>Write_Behind\<close> (\<^verbatim>\<open>write_behind.rs\<close>): layers, flushes among
    commits, merged reads, paging, and what a crash loses. Both interpret the engine contract.
  \<^item> \<open>Mvcc_Cache\<close> (\<^verbatim>\<open>cache.rs\<close>): the resident index and the sharded LRU value cache with its budget.
    The hash that picks a shard is a parameter.
  \<^item> \<open>Mvcc_Types\<close> (\<^verbatim>\<open>types\<close> of \<^verbatim>\<open>store.rs\<close>), \<open>Mvcc_Auth\<close> (\<^verbatim>\<open>auth.rs\<close>), \<open>Mvcc_Lease\<close> (\<^verbatim>\<open>lease.rs\<close>):
    requests and errors, the replicated auth tables and tokens, the lease tables.
  \<^item> \<open>Mvcc_Apply\<close> and \<open>Mvcc_Store\<close> (\<^verbatim>\<open>store.rs\<close>): an apply in progress with its context (the batch being
    built, the pending index rows, the events), and the store: opening, applies, shared applies,
    transactions, leases, compaction, auth, raft metadata, ranges, history replays, bulk load and
    table installs. The tables of this layer are typed: the record \<open>engine\<close> holds decoded rows, since
    the row codec is bincode.

  \<^bold>\<open>The store against its specification.\<close> \<open>Mvcc_Spec\<close> says what the store promises without tables,
  caches and batches: one map of live records that requests change in order, the past maps for reads
  of history. \<open>Mvcc_Tables\<close> has the consistency of the tables, \<open>Mvcc_Refine\<close>, \<open>Mvcc_Simulation\<close> and
  \<open>Mvcc_Requests\<close> the simulation of a request in progress by the specification, \<open>Mvcc_Commit\<close> the
  invariant \<open>store_ok\<close> of a store at rest and what a commit makes of it, \<open>Mvcc_Batches\<close> whole and
  shared requests, \<open>Mvcc_Correct\<close> reads and opening, \<open>Mvcc_Compaction\<close> and \<open>Mvcc_Leasing\<close> those
  operations. \<open>Mvcc_Guarantees\<close> states the results on the code's operations, \<open>Mvcc_Runs\<close> lifts
  them to any sequence of operations and restarts, and \<open>Mvcc_Edges\<close> holds the corners where the code
  does something else than its comments say. \<open>Mvcc_Caching\<close> and \<open>Mvcc_Twins\<close> show that what an
  operation does depends on the tables alone: two stores with the same tables (\<open>twin\<close>), whatever
  their caches hold, answer alike and stay so.

  \<^bold>\<open>The raft crate.\<close>
  \<^item> \<open>Raft_Types\<close> (\<^verbatim>\<open>crates/raft/src/types.rs\<close> and the openraft types it meets): log entries, responses,
    log ids and memberships.
  \<^item> \<open>Raft_Machine\<close> (\<^verbatim>\<open>state_machine.rs\<close>): the state machine, its record \<open>machine\<close> beside the store, opening,
    applying entries and batches (\<open>batch_step\<close> is one turn of the loop over a batch, \<open>batch_loop\<close> the loop),
    and the recovery of old directories. The codec of log ids and memberships is an argument, and the
    statements assume that it decodes what it encodes (\<open>codec_ok\<close>).
  \<^item> \<open>Snapshot_Policy\<close> (\<^verbatim>\<open>snapshot_policy.rs\<close>): proposals counted per entry and the purge point after a
    snapshot.
  \<^item> \<open>Raft_Folding\<close> shows that each operation of the store makes at most one commit, which carries what
    is staged; \<open>Raft_Replay\<close> that members with the same tables answer alike and that no fitting entry
    stops the machine; \<open>Raft_Crash\<close> that a restart at any moment resumes where the tables are. An entry
    fits (\<open>entries_fit\<close>) when counts, ids and revisions stay within their integer types; the log
    indexes are consecutive, as openraft delivers them.

  \<^bold>\<open>Bounds and fuel.\<close> Loops are structural recursions or functions with a termination proof; nothing
  is fuelled. Paging constants and byte budgets are those of the code.

  \<^bold>\<open>Not modelled.\<close> Row and message codecs of third-party packages (bincode, prost), redb's file
  format, the sha2 digest of the auth tables and the argon2 password hash; threads, locks and
  channels inside an operation; the openraft library vendored in the repository; gRPC, TLS, metrics,
  the command line and the admin endpoints, which are I/O around the operations modelled here.
\<close>

end
